(* ===== verification/Prelude.thy ===== *)
theory Prelude
  imports Main "HOL-Library.Word"
begin

section \<open>Shared vocabulary of the development\<close>

text \<open>
  What every component theory uses: C's truncating division on HOL integers, the two loop
  shapes of the sources (\<open>for (x = lo; x < hi; x += step)\<close>, with and without a bound on
  the number of rounds), interval partitions and sums over them, and the lemma collections
  \<open>loop_simps\<close> and \<open>c_arith\<close> the component proofs add to the simplifier.
  A C \<open>int\<close> or \<open>long\<close> is a HOL \<open>int\<close>: signed overflow is undefined in C, so the
  model is exact wherever the C program has a meaning; unsigned values that the code lets wrap
  are words of their width.
\<close>

named_theorems loop_simps
named_theorems c_arith

type_synonym u8 = "8 word"
type_synonym u16 = "16 word"
type_synonym u32 = "32 word"
type_synonym u64 = "64 word"
type_synonym ival = "int \<times> int"

subsection \<open>C division\<close>

text \<open>C's \<open>/\<close> and \<open>%\<close> truncate towards zero.\<close>

definition c_div :: "int \<Rightarrow> int \<Rightarrow> int" where
  "c_div a b = sgn a * sgn b * (\<bar>a\<bar> div \<bar>b\<bar>)"

definition c_mod :: "int \<Rightarrow> int \<Rightarrow> int" where
  "c_mod a b = a - c_div a b * b"

lemma c_div_nonneg [c_arith]: "0 \<le> a \<Longrightarrow> 0 < b \<Longrightarrow> c_div a b = a div b"
  by (cases "a = 0") (simp_all add: c_div_def)

lemma c_mod_nonneg [c_arith]: "0 \<le> a \<Longrightarrow> 0 < b \<Longrightarrow> c_mod a b = a mod b"
  by (simp add: c_mod_def c_div_nonneg minus_div_mult_eq_mod)

lemma c_div_numeral [simp]:
  "c_div (numeral m) (numeral n) = numeral m div numeral n"
  "c_div 0 b = 0"
  "c_div 1 (numeral n) = 1 div numeral n"
  by (simp_all add: c_div_def)

text \<open>The sources round a division up as \<open>(a + b - 1) / b\<close>.\<close>

definition ceil_div :: "int \<Rightarrow> int \<Rightarrow> int" where
  "ceil_div a b = c_div (a + b - 1) b"

lemma int_le_div_iff:
  fixes a b q :: int
  assumes "0 < b"
  shows "q \<le> a div b \<longleftrightarrow> q * b \<le> a"
proof
  assume "q \<le> a div b"
  then have "q * b \<le> a div b * b" using assms by simp
  also have "\<dots> \<le> a" using assms by (simp add: minus_mod_eq_div_mult [symmetric])
  finally show "q * b \<le> a" .
next
  assume "q * b \<le> a"
  then have "q * b div b \<le> a div b" using assms by (intro zdiv_mono1)
  then show "q \<le> a div b" using assms by simp
qed

lemma ceil_div_le_iff:
  assumes "0 \<le> a" and "0 < b"
  shows "ceil_div a b \<le> q \<longleftrightarrow> a \<le> q * b"
proof -
  have "ceil_div a b = (a + b - 1) div b"
    using assms by (simp add: ceil_div_def c_div_nonneg)
  moreover have "(a + b - 1) div b \<le> q \<longleftrightarrow> \<not> (q + 1) * b \<le> a + b - 1"
    using int_le_div_iff [OF \<open>0 < b\<close>, of "q + 1" "a + b - 1"] by linarith
  moreover have "\<not> (q + 1) * b \<le> a + b - 1 \<longleftrightarrow> a \<le> q * b"
    by (auto simp: algebra_simps)
  ultimately show ?thesis by simp
qed

lemma ceil_div_ge: "0 \<le> a \<Longrightarrow> 0 < b \<Longrightarrow> a \<le> ceil_div a b * b"
  using ceil_div_le_iff [of a b "ceil_div a b"] by simp

lemma ceil_div_nonneg: "0 \<le> a \<Longrightarrow> 0 < b \<Longrightarrow> 0 \<le> ceil_div a b"
  by (simp add: ceil_div_def c_div_nonneg pos_imp_zdiv_nonneg_iff)

lemma ceil_div_pos: "0 < a \<Longrightarrow> 0 < b \<Longrightarrow> 0 < ceil_div a b"
  using ceil_div_le_iff [of a b 0] by simp

subsection \<open>Interval loops\<close>

text \<open>
  The recurring loop of the tilers, \<open>for (x = lo; x < hi; x += st) { y = x+st < hi ? x+st : hi; ... }\<close>,
  as the list of the intervals \<open>[x, y)\<close> it visits. With a step that does not advance the C loop
  does not end, so the list is cut after a number of rounds that the caller bounds.
\<close>

fun loop_upto :: "nat \<Rightarrow> int \<Rightarrow> int \<Rightarrow> int \<Rightarrow> ival list" where
  "loop_upto 0 st hi lo = []"
| "loop_upto (Suc b) st hi lo =
     (if lo < hi then (lo, if lo + st < hi then lo + st else hi) # loop_upto b st hi (lo + st) else [])"

text \<open>The loop run to its end: \<open>None\<close> when it never ends.\<close>

definition loop_all :: "int \<Rightarrow> int \<Rightarrow> int \<Rightarrow> ival list option" where
  "loop_all st hi lo =
     (if 0 < st then Some (loop_upto (nat (hi - lo)) st hi lo)
      else if lo < hi then None else Some [])"

text \<open>\<open>tiles lo hi xs\<close>: the nonempty intervals of \<open>xs\<close> follow one another from \<open>lo\<close> to \<open>hi\<close>.\<close>

fun tiles :: "int \<Rightarrow> int \<Rightarrow> ival list \<Rightarrow> bool" where
  "tiles lo hi [] = (lo = hi)"
| "tiles lo hi ((a, b) # xs) = (a = lo \<and> a < b \<and> b \<le> hi \<and> tiles b hi xs)"

lemma tiles_le: "tiles lo hi xs \<Longrightarrow> lo \<le> hi"
  by (induction lo hi xs rule: tiles.induct) auto

lemma tiles_bounds:
  "tiles lo hi xs \<Longrightarrow> (a, b) \<in> set xs \<Longrightarrow> lo \<le> a \<and> a < b \<and> b \<le> hi"
proof (induction lo hi xs rule: tiles.induct)
  case (2 lo hi a' b' xs)
  then show ?case by (cases "(a, b) = (a', b')") (auto dest: tiles_le)
qed simp

lemma loop_upto_past [simp]: "hi \<le> lo \<Longrightarrow> loop_upto b st hi lo = []"
  by (cases b) simp_all

lemma loop_upto_tiles:
  "0 < st \<Longrightarrow> lo \<le> hi \<Longrightarrow> nat (hi - lo) \<le> b \<Longrightarrow> tiles lo hi (loop_upto b st hi lo)"
proof (induction b st hi lo rule: loop_upto.induct)
  case (2 b st hi lo)
  show ?case
  proof (cases "lo + st < hi")
    case True
    with 2 have "tiles (lo + st) hi (loop_upto b st hi (lo + st))" by simp
    with True 2 show ?thesis by simp
  next
    case False
    with 2 show ?thesis by (cases "lo < hi") simp_all
  qed
qed simp

lemma loop_upto_width:
  "0 < st \<Longrightarrow> (a, b) \<in> set (loop_upto n st hi lo) \<Longrightarrow> lo \<le> a \<and> b - a \<le> st \<and> a < b \<and> b \<le> hi"
  by (induction n st hi lo rule: loop_upto.induct) (fastforce split: if_splits)+

lemma loop_upto_full:
  "0 < st \<Longrightarrow> (a, b) \<in> set (loop_upto n st hi lo) \<Longrightarrow> b \<noteq> hi \<Longrightarrow> b - a = st"
  by (induction n st hi lo rule: loop_upto.induct) (fastforce split: if_splits)+

lemma loop_upto_mod:
  "0 < st \<Longrightarrow> (a, b) \<in> set (loop_upto n st hi lo) \<Longrightarrow>
     b - a = st \<or> (b - a = (hi - lo) mod st \<and> (hi - lo) mod st \<noteq> 0)"
proof (induction n st hi lo rule: loop_upto.induct)
  case (2 n st hi lo)
  show ?case
  proof (cases "(a, b) \<in> set (loop_upto n st hi (lo + st))")
    case True
    have "(hi - (lo + st)) mod st = (hi - lo) mod st"
      using mod_add_self2 [of "hi - (lo + st)" st] by simp
    with 2 True show ?thesis by (auto split: if_splits)
  next
    case False
    with 2 have ab: "lo < hi" "a = lo" "b = (if lo + st < hi then lo + st else hi)"
      by (auto split: if_splits)
    show ?thesis
    proof (cases "lo + st < hi \<or> hi - lo = st")
      case False
      with ab have "(hi - lo) mod st = hi - lo" by (intro mod_pos_pos_trivial) auto
      with ab show ?thesis by auto
    qed (use ab in auto)
  qed
qed simp

lemma loop_upto_dvd:
  assumes "0 < st" and "d dvd st" and "d dvd lo" and "d dvd hi"
  shows "(a, b) \<in> set (loop_upto n st hi lo) \<Longrightarrow> d dvd a \<and> d dvd b"
  using assms
  by (induction n st hi lo rule: loop_upto.induct) (fastforce split: if_splits)+

lemma loop_upto_nonempty: "lo < hi \<Longrightarrow> 0 < b \<Longrightarrow> loop_upto b st hi lo \<noteq> []"
  by (cases b) simp_all

lemma loop_upto_enough:
  "0 < st \<Longrightarrow> nat (hi - lo) \<le> b \<Longrightarrow> nat (hi - lo) \<le> b' \<Longrightarrow> loop_upto b st hi lo = loop_upto b' st hi lo"
proof (induction b arbitrary: b' lo)
  case (Suc b)
  show ?case
  proof (cases "lo < hi")
    case True
    with Suc.prems obtain m where m: "b' = Suc m" by (cases b') auto
    have "loop_upto b st hi (lo + st) = loop_upto m st hi (lo + st)"
      using Suc.prems True m by (intro Suc.IH) linarith+
    with True m show ?thesis by simp
  qed simp
qed simp

lemma loop_upto_short_tiles:
  "0 < st \<Longrightarrow> lo \<le> hi \<Longrightarrow> length (loop_upto b st hi lo) < b \<Longrightarrow> tiles lo hi (loop_upto b st hi lo)"
proof (induction b st hi lo rule: loop_upto.induct)
  case (2 b st hi lo)
  then show ?case by (cases "lo + st < hi"; cases "lo < hi") auto
qed simp

lemma loop_upto_length:
  assumes "0 < st"
  shows "nat (hi - lo) \<le> b \<Longrightarrow> lo \<le> hi \<Longrightarrow> int (length (loop_upto b st hi lo)) = ceil_div (hi - lo) st"
proof (induction b arbitrary: lo)
  case 0
  then show ?case using assms by (simp add: ceil_div_def c_div_nonneg)
next
  case (Suc b)
  have ceil: "ceil_div x st = (x + st - 1) div st" if "0 \<le> x" for x
    using that assms by (simp add: ceil_div_def c_div_nonneg)
  show ?case
  proof (cases "lo < hi")
    case False
    with Suc.prems assms show ?thesis by (simp add: ceil)
  next
    case lt: True
    show ?thesis
    proof (cases "lo + st < hi")
      case True
      with Suc lt assms have "int (length (loop_upto b st hi (lo + st))) = ceil_div (hi - (lo + st)) st"
        by (intro Suc.IH) linarith+
      moreover have "(hi - lo + st - 1) div st = (hi - (lo + st) + st - 1) div st + 1"
      proof -
        have "hi - lo + st - 1 = (hi - (lo + st) + st - 1) + 1 * st" by simp
        then show ?thesis using assms by (metis div_mult_self1 less_numeral_extra(3) add.commute)
      qed
      ultimately show ?thesis using True lt by (simp add: ceil)
    next
      case False
      with lt assms have "(hi - lo + st - 1) div st = 1"
        by (intro div_pos_geq [THEN trans]) (simp_all add: div_pos_pos_trivial)
      with False lt show ?thesis by (simp add: ceil)
    qed
  qed
qed

text \<open>A loop that has covered its range has made the number of rounds of the unbounded one.\<close>

lemma loop_upto_tiles_length:
  assumes "0 < st" "0 < hi" "tiles 0 hi (loop_upto b st hi 0)"
  shows "int (length (loop_upto b st hi 0)) = ceil_div hi st"
proof -
  have "loop_upto b st hi lo = loop_upto (b + nat (hi - lo)) st hi lo" if "tiles lo hi (loop_upto b st hi lo)" for lo
    using assms(1) that
  proof (induction b arbitrary: lo)
    case 0
    then show ?case by simp
  next
    case (Suc b)
    show ?case
    proof (cases "lo + st < hi")
      case True
      with Suc have "loop_upto b st hi (lo + st) = loop_upto (b + nat (hi - (lo + st))) st hi (lo + st)" by simp
      also have "\<dots> = loop_upto (b + nat (hi - lo)) st hi (lo + st)"
        using Suc.prems by (intro loop_upto_enough) simp_all
      finally show ?thesis using True by simp
    qed simp
  qed
  from this [OF assms(3)] show ?thesis
    using assms(1,2) loop_upto_length [OF assms(1), of hi 0 "b + nat hi"] by simp
qed

lemma factors_le:
  fixes a b c n :: nat
  assumes "0 < a" "0 < b" "0 < c" and "a * (b * c) \<le> n"
  shows "c \<le> n \<and> b \<le> n \<and> a \<le> n"
proof -
  have "c \<le> a * (b * c)" and "b \<le> a * (b * c)" and "a \<le> a * (b * c)"
    using assms by (simp_all add: mult.commute mult.left_commute)
  with assms(4) show ?thesis by linarith
qed

subsection \<open>Sums over a partition\<close>

lemma tiles_sum:
  fixes f :: "int \<Rightarrow> 'a::comm_monoid_add"
  shows "tiles lo hi xs \<Longrightarrow> (\<Sum>(a, b)\<leftarrow>xs. \<Sum>k\<in>{a..<b}. f k) = (\<Sum>k\<in>{lo..<hi}. f k)"
proof (induction lo hi xs rule: tiles.induct)
  case (2 lo hi a b xs)
  then have "b \<le> hi" and "a < b" and "a = lo" by (auto dest: tiles_le)
  moreover have "{a..<hi} = {a..<b} \<union> {b..<hi}" using \<open>a < b\<close> \<open>b \<le> hi\<close> by auto
  ultimately show ?case using 2 by (simp add: sum.union_disjoint)
qed simp

text \<open>Every point of the range lies in exactly one interval.\<close>

lemma tiles_none: "tiles lo hi xs \<Longrightarrow> x < lo \<Longrightarrow> filter (\<lambda>(a, b). a \<le> x \<and> x < b) xs = []"
  by (auto simp: filter_empty_conv dest!: tiles_bounds)

lemma tiles_filter_length:
  "tiles lo hi xs \<Longrightarrow> lo \<le> x \<Longrightarrow> x < hi \<Longrightarrow> length (filter (\<lambda>(a, b). a \<le> x \<and> x < b) xs) = 1"
proof (induction lo hi xs rule: tiles.induct)
  case (2 lo hi a b xs)
  then show ?case by (cases "x < b") (auto simp: tiles_none)
qed simp

text \<open>A sum that a partition's intervals contribute to only where they hold \<open>x\<close>.\<close>

lemma tiles_pick_none:
  fixes c :: "'a::comm_monoid_add"
  shows "tiles lo hi xs \<Longrightarrow> x < lo \<Longrightarrow> (\<Sum>(a, b)\<leftarrow>xs. if a \<le> x \<and> x < b then c else 0) = 0"
proof (induction lo hi xs rule: tiles.induct)
  case (2 lo hi a b xs)
  then show ?case using tiles_le by auto
qed simp

lemma tiles_pick:
  fixes c :: "'a::comm_monoid_add"
  shows "tiles lo hi xs \<Longrightarrow> lo \<le> x \<Longrightarrow> x < hi \<Longrightarrow> (\<Sum>(a, b)\<leftarrow>xs. if a \<le> x \<and> x < b then c else 0) = c"
proof (induction lo hi xs rule: tiles.induct)
  case (2 lo hi a b xs)
  then show ?case by (cases "x < b") (auto simp: tiles_pick_none)
qed simp

lemma length_filter_concat_map:
  "length (filter P (concat (map f xs))) = (\<Sum>x\<leftarrow>xs. length (filter P (f x)))"
  by (induction xs) auto

lemma sum_list_concat_map:
  fixes g :: "'b \<Rightarrow> 'c::comm_monoid_add"
  shows "sum_list (map g (concat (map f xs))) = (\<Sum>x\<leftarrow>xs. sum_list (map g (f x)))"
  by (induction xs) auto

lemma length_filter_sum: "length (filter P xs) = (\<Sum>x\<leftarrow>xs. if P x then 1 else 0)"
  by (induction xs) auto

lemma sum_list_cong_set:
  "(\<And>x. x \<in> set xs \<Longrightarrow> f x = g x) \<Longrightarrow> sum_list (map f xs) = sum_list (map g xs)"
  by (metis map_cong)

text \<open>Exchanging a list sum with a finite sum.\<close>

lemma sum_list_sum_swap:
  fixes f :: "'b \<Rightarrow> 'c \<Rightarrow> 'a::comm_monoid_add"
  shows "(\<Sum>x\<leftarrow>xs. \<Sum>k\<in>A. f x k) = (\<Sum>k\<in>A. \<Sum>x\<leftarrow>xs. f x k)"
  by (induction xs) (simp_all add: sum.distrib)

lemma sum_list_single:
  fixes c :: "'a::comm_monoid_add"
  shows "length (filter P xs) = 1 \<Longrightarrow> (\<Sum>x\<leftarrow>xs. if P x then c else 0) = c"
proof (induction xs)
  case (Cons x xs)
  show ?case
  proof (cases "P x")
    case True
    with Cons.prems have "filter P xs = []" by simp
    then have "(\<Sum>x\<leftarrow>xs. if P x then c else 0) = 0" by (induction xs) (auto split: if_splits)
    with True show ?thesis by simp
  qed (use Cons in simp)
qed simp

subsection \<open>List updates\<close>

lemma nth_upd: "j < length xs \<Longrightarrow> xs[i := x] ! j = (if i = j then x else xs ! j)"
  by (cases "i = j") auto

lemmas loop_facts = loop_upto_tiles loop_upto_width loop_upto_enough loop_upto_length

end
