(* ===== verification/Slice.thy ===== *)
theory Slice
  imports Prelude
begin

section \<open>Shape slicing: \<open>include/ork_slice.h\<close> and \<open>include/ork_slice_f16.h\<close>\<close>

text \<open>
  The two header-only tilers that cut a matmul \<open>C[M,N] = A[M,K] * B[K,N]\<close> into programs the
  doorbell can run: \<open>ork_slice_matmul\<close> (int8) and \<open>ork_slice_f16_check / _matmul / _count\<close>.
  An error code of the C is \<open>Inl\<close>. What a caller of either tiler relies on is the locale
  \<open>tiler\<close>: tiles lie inside the shape and cover every multiply-accumulate exactly once.
\<close>

record ork_tile =
  tl_k0 :: int
  tl_k1 :: int
  tl_n0 :: int
  tl_n1 :: int
  tl_m0 :: int
  tl_m1 :: int

record ork_slice_caps =
  sc_kmax :: int
  sc_kmul :: int
  sc_nmax :: int
  sc_nmul :: int
  sc_mmax :: int

definition ork_slice_caps_rk3588 :: ork_slice_caps where
  "ork_slice_caps_rk3588 = \<lparr>sc_kmax = 4096, sc_kmul = 512, sc_nmax = 8192, sc_nmul = 16, sc_mmax = 64\<rparr>"

definition ork_slice_step :: "int \<Rightarrow> int \<Rightarrow> int" where
  "ork_slice_step cap mul = (let s = c_div cap mul * mul in if s < mul then mul else s)"

text \<open>
  The loop nest m, n, k writes one tile per round and stops with -1 as soon as the buffer of
  \<open>cap\<close> slots (the C parameter \<open>max\<close>) is full. Each dimension is cut after \<open>cap + 1\<close> rounds:
  a loop that would go on emits more than \<open>cap\<close> tiles anyway, also when the M step \<open>mmax\<close> is not positive and the C loop would
  only be ended by that test.
\<close>

definition tile_of :: "ival \<Rightarrow> ival \<Rightarrow> ival \<Rightarrow> ork_tile" where
  "tile_of m n k =
     \<lparr>tl_k0 = fst k, tl_k1 = snd k, tl_n0 = fst n, tl_n1 = snd n, tl_m0 = fst m, tl_m1 = snd m\<rparr>"

definition slice_tiles :: "nat \<Rightarrow> int \<Rightarrow> int \<Rightarrow> int \<Rightarrow> int \<Rightarrow> int \<Rightarrow> int \<Rightarrow> ork_tile list" where
  "slice_tiles b K N M ks ns ms =
     concat (map (\<lambda>m. concat (map (\<lambda>n. map (tile_of m n) (loop_upto b ks K 0))
       (loop_upto b ns N 0))) (loop_upto b ms M 0))"

definition ork_slice_matmul ::
    "int \<Rightarrow> int \<Rightarrow> int \<Rightarrow> ork_slice_caps option \<Rightarrow> int \<Rightarrow> int + ork_tile list" where
  "ork_slice_matmul K N M cp cap =
     (case cp of None \<Rightarrow> Inl (-2)
      | Some c \<Rightarrow>
        if K \<le> 0 \<or> N \<le> 0 \<or> M \<le> 0 then Inl (-2)
        else if c_mod K (sc_kmul c) \<noteq> 0 \<or> c_mod N (sc_nmul c) \<noteq> 0 then Inl (-2)
        else
          let ks = ork_slice_step (sc_kmax c) (sc_kmul c);
              ns = ork_slice_step (sc_nmax c) (sc_nmul c);
              ms = sc_mmax c;
              ts = slice_tiles (Suc (nat cap)) K N M ks ns ms
          in if cap < int (length ts) then Inl (-1) else Inr ts)"

definition ork_slice_kparts :: "int \<Rightarrow> ork_slice_caps \<Rightarrow> int" where
  "ork_slice_kparts K c = (let ks = ork_slice_step (sc_kmax c) (sc_kmul c) in c_div (K + ks - 1) ks)"

subsection \<open>What a tiler promises\<close>

definition hit :: "int \<Rightarrow> ival \<Rightarrow> bool" where
  "hit x iv \<longleftrightarrow> fst iv \<le> x \<and> x < snd iv"

definition in_block :: "int \<Rightarrow> int \<Rightarrow> ork_tile \<Rightarrow> bool" where
  "in_block m n t \<longleftrightarrow> hit m (tl_m0 t, tl_m1 t) \<and> hit n (tl_n0 t, tl_n1 t)"

definition in_tile :: "int \<Rightarrow> int \<Rightarrow> int \<Rightarrow> ork_tile \<Rightarrow> bool" where
  "in_tile m n k t \<longleftrightarrow> in_block m n t \<and> hit k (tl_k0 t, tl_k1 t)"

definition tile_within :: "int \<Rightarrow> int \<Rightarrow> int \<Rightarrow> ork_tile \<Rightarrow> bool" where
  "tile_within K N M t \<longleftrightarrow> 0 \<le> tl_k0 t \<and> tl_k0 t < tl_k1 t \<and> tl_k1 t \<le> K \<and>
     0 \<le> tl_n0 t \<and> tl_n0 t < tl_n1 t \<and> tl_n1 t \<le> N \<and> 0 \<le> tl_m0 t \<and> tl_m0 t < tl_m1 t \<and> tl_m1 t \<le> M"

text \<open>
  Running a plan: for each output cell, the partial dot products of the tiles whose block holds
  the cell, accumulated. Over \<open>32 word\<close> this is the int32 accumulation of the hardware.
\<close>

definition run_tiles :: "(int \<Rightarrow> int \<Rightarrow> 'a::comm_ring_1) \<Rightarrow> (int \<Rightarrow> int \<Rightarrow> 'a) \<Rightarrow> ork_tile list \<Rightarrow> int \<Rightarrow> int \<Rightarrow> 'a" where
  "run_tiles A B ts m n =
     (\<Sum>t\<leftarrow>ts. if in_block m n t then (\<Sum>k\<in>{tl_k0 t..<tl_k1 t}. A m k * B k n) else 0)"

locale tiler =
  fixes plan :: "'c \<Rightarrow> int \<Rightarrow> int \<Rightarrow> int \<Rightarrow> ork_tile list option"
    and ok :: "'c \<Rightarrow> bool"
  assumes plan_within: "ok c \<Longrightarrow> plan c K N M = Some ts \<Longrightarrow> t \<in> set ts \<Longrightarrow> tile_within K N M t"
    and plan_once: "ok c \<Longrightarrow> plan c K N M = Some ts \<Longrightarrow> 0 \<le> m \<Longrightarrow> m < M \<Longrightarrow> 0 \<le> n \<Longrightarrow> n < N \<Longrightarrow>
      0 \<le> k \<Longrightarrow> k < K \<Longrightarrow> length (filter (in_tile m n k) ts) = 1"
begin

lemma tiled_sum:
  assumes "ok c" and "plan c K N M = Some ts" and "0 \<le> m" "m < M" "0 \<le> n" "n < N"
  shows "(\<Sum>t\<leftarrow>ts. if in_block m n t then (\<Sum>k\<in>{tl_k0 t..<tl_k1 t}. f k) else 0) = (\<Sum>k\<in>{0..<K}. f k :: 'b::comm_monoid_add)"
proof -
  have "(\<Sum>t\<leftarrow>ts. if in_block m n t then (\<Sum>k\<in>{tl_k0 t..<tl_k1 t}. f k) else 0)
      = (\<Sum>t\<leftarrow>ts. \<Sum>k\<in>{0..<K}. if in_tile m n k t then f k else 0)"
  proof (rule sum_list_cong_set)
    fix t assume t: "t \<in> set ts"
    have sub: "{tl_k0 t..<tl_k1 t} \<subseteq> {0..<K}"
      using plan_within [OF assms(1,2) t] by (auto simp: tile_within_def)
    show "(if in_block m n t then (\<Sum>k\<in>{tl_k0 t..<tl_k1 t}. f k) else 0)
        = (\<Sum>k\<in>{0..<K}. if in_tile m n k t then f k else 0)"
    proof (cases "in_block m n t")
      case True
      have "(\<Sum>k\<in>{0..<K}. if in_tile m n k t then f k else 0) = (\<Sum>k\<in>{tl_k0 t..<tl_k1 t}. f k)"
        using True sub by (intro sum.mono_neutral_cong_right) (auto simp: in_tile_def hit_def)
      with True show ?thesis by simp
    next
      case False
      then show ?thesis by (simp add: in_tile_def)
    qed
  qed
  also have "\<dots> = (\<Sum>k\<in>{0..<K}. \<Sum>t\<leftarrow>ts. if in_tile m n k t then f k else 0)"
    by (rule sum_list_sum_swap)
  also have "\<dots> = (\<Sum>k\<in>{0..<K}. f k)"
    using assms by (intro sum.cong refl sum_list_single plan_once) auto
  finally show ?thesis .
qed

lemma run_exact:
  assumes "ok c" and "plan c K N M = Some ts" and "0 \<le> m" "m < M" "0 \<le> n" "n < N"
  shows "run_tiles A B ts m n = (\<Sum>k\<in>{0..<K}. A m k * B k n)"
  unfolding run_tiles_def by (rule tiled_sum [OF assms])

end

subsection \<open>The int8 tiler\<close>

lemma ork_slice_step_pos: "0 < mul \<Longrightarrow> 0 < ork_slice_step cap mul"
  by (simp add: ork_slice_step_def Let_def)

lemma ork_slice_step_dvd: "mul dvd ork_slice_step cap mul"
  by (simp add: ork_slice_step_def Let_def)

lemma ork_slice_step_le: "0 < mul \<Longrightarrow> mul \<le> cap \<Longrightarrow> ork_slice_step cap mul \<le> cap"
  by (simp add: ork_slice_step_def Let_def c_div_nonneg)
    (smt (verit) minus_mod_eq_div_mult pos_mod_sign)

lemma tile_of_eq: "t = tile_of m n k \<longleftrightarrow> m = (tl_m0 t, tl_m1 t) \<and> n = (tl_n0 t, tl_n1 t) \<and> k = (tl_k0 t, tl_k1 t)"
  by (cases t; cases m; cases n; cases k) (auto simp: tile_of_def)

lemma tile_of_image: "t \<in> tile_of m n ` S \<longleftrightarrow> m = (tl_m0 t, tl_m1 t) \<and> n = (tl_n0 t, tl_n1 t) \<and> (tl_k0 t, tl_k1 t) \<in> S"
  by (auto simp only: image_iff tile_of_eq Bex_def)

lemma in_tile_of: "in_tile m n k (tile_of im jn jk) \<longleftrightarrow> hit m im \<and> hit n jn \<and> hit k jk"
  by (simp add: in_tile_def in_block_def tile_of_def)

lemma set_slice_tiles:
  "t \<in> set (slice_tiles b K N M ks ns ms) \<longleftrightarrow>
     (tl_m0 t, tl_m1 t) \<in> set (loop_upto b ms M 0) \<and> (tl_n0 t, tl_n1 t) \<in> set (loop_upto b ns N 0) \<and>
     (tl_k0 t, tl_k1 t) \<in> set (loop_upto b ks K 0)"
  by (simp add: slice_tiles_def tile_of_image Bex_def)

lemma length_slice_tiles:
  "length (slice_tiles b K N M ks ns ms) =
     length (loop_upto b ms M 0) * (length (loop_upto b ns N 0) * length (loop_upto b ks K 0))"
  by (simp add: slice_tiles_def length_concat comp_def sum_list_triv)

text \<open>Over a partition, exactly one row, column and K-slice are hit.\<close>

lemma tiles_hit:
  fixes c :: "'a::comm_monoid_add"
  assumes "tiles lo hi xs" "lo \<le> x" "x < hi"
  shows "(\<Sum>iv\<leftarrow>xs. if hit x iv then c else 0) = c"
  using tiles_pick [OF assms, of c] by (simp add: hit_def case_prod_unfold)

lemma once_k:
  assumes "tiles 0 K xs" "0 \<le> k" "k < K"
  shows "length (filter (in_tile m n k) (map (tile_of im jn) xs)) = (if hit n jn then if hit m im then 1 else 0 else 0)"
proof -
  have "length (filter (in_tile m n k) (map (tile_of im jn) xs))
      = (\<Sum>x\<leftarrow>xs. if hit k x then (if hit n jn then if hit m im then 1 else 0 else 0) else 0)"
    by (induction xs) (auto simp: in_tile_of)
  also have "\<dots> = (if hit n jn then if hit m im then 1 else 0 else 0)"
    by (rule tiles_hit [OF assms])
  finally show ?thesis .
qed

lemma slice_tiles_once:
  assumes k: "tiles 0 K (loop_upto b ks K 0)" and n: "tiles 0 N (loop_upto b ns N 0)"
    and m: "tiles 0 M (loop_upto b ms M 0)"
    and r: "0 \<le> m" "m < M" "0 \<le> n" "n < N" "0 \<le> k" "k < K"
  shows "length (filter (in_tile m n k) (slice_tiles b K N M ks ns ms)) = 1"
  unfolding slice_tiles_def
  by (simp only: length_filter_concat_map once_k [OF k r(5,6)] tiles_hit [OF n r(3,4)] tiles_hit [OF m r(1,2)])

lemma slice_tiles_within:
  assumes "tiles 0 K (loop_upto b ks K 0)" "tiles 0 N (loop_upto b ns N 0)" "tiles 0 M (loop_upto b ms M 0)"
    and "t \<in> set (slice_tiles b K N M ks ns ms)"
  shows "tile_within K N M t"
  using assms(4) tiles_bounds [OF assms(1), of "tl_k0 t" "tl_k1 t"]
    tiles_bounds [OF assms(2), of "tl_n0 t" "tl_n1 t"] tiles_bounds [OF assms(3), of "tl_m0 t" "tl_m1 t"]
  by (simp add: set_slice_tiles tile_within_def)

text \<open>Within its buffer the plan is the one of the unbounded loops.\<close>

lemma slice_tiles_enough:
  assumes "0 < ks" "0 < ns" "0 < ms" "0 < K" "0 < N" "0 < M"
    and len: "length (slice_tiles (Suc b) K N M ks ns ms) \<le> b"
  shows "tiles 0 K (loop_upto (Suc b) ks K 0)" "tiles 0 N (loop_upto (Suc b) ns N 0)"
    "tiles 0 M (loop_upto (Suc b) ms M 0)"
proof -
  have ne: "0 < length (loop_upto (Suc b) st hi 0)" if "0 < hi" for st hi
    using loop_upto_nonempty [of 0 hi "Suc b" st] that by simp
  have le: "length (loop_upto (Suc b) ks K 0) \<le> b" "length (loop_upto (Suc b) ns N 0) \<le> b"
    "length (loop_upto (Suc b) ms M 0) \<le> b"
    using factors_le [OF ne [OF \<open>0 < M\<close>] ne [OF \<open>0 < N\<close>] ne [OF \<open>0 < K\<close>], of ms ns ks b] len
    by (simp_all only: length_slice_tiles)
  show "tiles 0 K (loop_upto (Suc b) ks K 0)" "tiles 0 N (loop_upto (Suc b) ns N 0)"
    "tiles 0 M (loop_upto (Suc b) ms M 0)"
    using le assms by (intro loop_upto_short_tiles; simp del: loop_upto.simps)+
qed

lemma ork_slice_matmul_Inr:
  assumes "ork_slice_matmul K N M (Some c) cap = Inr ts"
  shows "0 < K" "0 < N" "0 < M" "c_mod K (sc_kmul c) = 0" "c_mod N (sc_nmul c) = 0"
    "ts = slice_tiles (Suc (nat cap)) K N M (ork_slice_step (sc_kmax c) (sc_kmul c))
       (ork_slice_step (sc_nmax c) (sc_nmul c)) (sc_mmax c)"
    "int (length ts) \<le> cap"
  using assms by (auto simp: ork_slice_matmul_def Let_def split: if_splits)

definition slice_caps_ok :: "ork_slice_caps \<Rightarrow> bool" where
  "slice_caps_ok c \<longleftrightarrow> 0 < sc_kmul c \<and> 0 < sc_nmul c \<and> 0 < sc_mmax c"

lemma ork_slice_matmul_tiles:
  assumes "slice_caps_ok c" and "ork_slice_matmul K N M (Some c) cap = Inr ts"
  shows "tiles 0 K (loop_upto (Suc (nat cap)) (ork_slice_step (sc_kmax c) (sc_kmul c)) K 0)"
    "tiles 0 N (loop_upto (Suc (nat cap)) (ork_slice_step (sc_nmax c) (sc_nmul c)) N 0)"
    "tiles 0 M (loop_upto (Suc (nat cap)) (sc_mmax c) M 0)"
  using slice_tiles_enough [of "ork_slice_step (sc_kmax c) (sc_kmul c)" "ork_slice_step (sc_nmax c) (sc_nmul c)"
      "sc_mmax c" K N M "nat cap"] assms(1) ork_slice_matmul_Inr [OF assms(2)]
  by (simp_all add: slice_caps_ok_def ork_slice_step_pos)

text \<open>The caps travel with the size of the output buffer.\<close>

definition i8_plan :: "ork_slice_caps \<times> int \<Rightarrow> int \<Rightarrow> int \<Rightarrow> int \<Rightarrow> ork_tile list option" where
  "i8_plan cc K N M = (case ork_slice_matmul K N M (Some (fst cc)) (snd cc) of Inl e \<Rightarrow> None | Inr ts \<Rightarrow> Some ts)"

lemma i8_plan_Some: "i8_plan cc K N M = Some ts \<longleftrightarrow> ork_slice_matmul K N M (Some (fst cc)) (snd cc) = Inr ts"
  by (simp add: i8_plan_def split: sum.splits)

interpretation i8t: tiler i8_plan "\<lambda>cc. slice_caps_ok (fst cc)"
proof (unfold_locales, goal_cases)
  case (1 cc K N M ts t)
  then have r: "ork_slice_matmul K N M (Some (fst cc)) (snd cc) = Inr ts" by (simp add: i8_plan_Some)
  show ?case
    using 1(3) ork_slice_matmul_Inr(6) [OF r]
    by (auto intro: slice_tiles_within [OF ork_slice_matmul_tiles [OF 1(1) r]])
next
  case (2 cc K N M ts m n k)
  then have r: "ork_slice_matmul K N M (Some (fst cc)) (snd cc) = Inr ts" by (simp add: i8_plan_Some)
  show ?case
    unfolding ork_slice_matmul_Inr(6) [OF r]
    using 2(3-8) by (intro slice_tiles_once [OF ork_slice_matmul_tiles [OF 2(1) r]])
qed

text \<open>
  C1. Slicing is exact: for caps with positive multiples and M step, the partial products of the
  tiles of \<open>ork_slice_matmul\<close>, accumulated per output cell in any commutative ring (the int32
  wrap-around included), give the matrix product of the unsliced operation.
\<close>

theorem slice_matmul_exact:
  fixes A B :: "int \<Rightarrow> int \<Rightarrow> 'a::comm_ring_1"
  assumes "slice_caps_ok c" and "ork_slice_matmul K N M (Some c) cap = Inr ts"
    and "0 \<le> m" "m < M" "0 \<le> n" "n < N"
  shows "run_tiles A B ts m n = (\<Sum>k\<in>{0..<K}. A m k * B k n)"
  using assms by (intro i8t.run_exact [of "(c, cap)"]) (simp_all add: i8_plan_Some)

theorem slice_matmul_exact_witness:
  "run_tiles (\<lambda>m k. of_int (m + 2 * k) :: 32 word) (\<lambda>k n. of_int (k * n - 3))
     [\<lparr>tl_k0 = 0, tl_k1 = 2, tl_n0 = 0, tl_n1 = 1, tl_m0 = 0, tl_m1 = 3\<rparr>,
      \<lparr>tl_k0 = 2, tl_k1 = 4, tl_n0 = 0, tl_n1 = 1, tl_m0 = 0, tl_m1 = 3\<rparr>] 1 0
   = (\<Sum>k\<in>{0..<4}. of_int (1 + 2 * k) * of_int (k * 0 - 3))"
proof -
  have ok: "slice_caps_ok \<lparr>sc_kmax = 3, sc_kmul = 2, sc_nmax = 4, sc_nmul = 1, sc_mmax = 8\<rparr>"
    by (simp add: slice_caps_ok_def)
  have run: "ork_slice_matmul 4 1 3 (Some \<lparr>sc_kmax = 3, sc_kmul = 2, sc_nmax = 4, sc_nmul = 1, sc_mmax = 8\<rparr>) 5 =
     Inr [\<lparr>tl_k0 = 0, tl_k1 = 2, tl_n0 = 0, tl_n1 = 1, tl_m0 = 0, tl_m1 = 3\<rparr>,
      \<lparr>tl_k0 = 2, tl_k1 = 4, tl_n0 = 0, tl_n1 = 1, tl_m0 = 0, tl_m1 = 3\<rparr>]"
    by code_simp
  show ?thesis by (rule slice_matmul_exact [OF ok run]) simp_all
qed

text \<open>
  C2. Every tile stays inside the hardware limits it was cut for: the K-slice, N-tile and M-tile
  never exceed the caps, every K boundary is a multiple of \<open>kmul\<close> and every N boundary of \<open>nmul\<close>.
\<close>

theorem slice_matmul_within_caps:
  assumes "slice_caps_ok c" "sc_kmul c \<le> sc_kmax c" "sc_nmul c \<le> sc_nmax c"
    and r: "ork_slice_matmul K N M (Some c) cap = Inr ts" and t: "t \<in> set ts"
  shows "tl_k1 t - tl_k0 t \<le> sc_kmax c \<and> tl_n1 t - tl_n0 t \<le> sc_nmax c \<and> tl_m1 t - tl_m0 t \<le> sc_mmax c \<and>
    sc_kmul c dvd tl_k0 t \<and> sc_kmul c dvd tl_k1 t \<and> sc_nmul c dvd tl_n0 t \<and> sc_nmul c dvd tl_n1 t"
proof -
  define b ks ns where "b = Suc (nat cap)" and "ks = ork_slice_step (sc_kmax c) (sc_kmul c)"
    and "ns = ork_slice_step (sc_nmax c) (sc_nmul c)"
  note inr = ork_slice_matmul_Inr [OF r]
  have pos: "0 < sc_kmul c" "0 < sc_nmul c" "0 < sc_mmax c" "0 < ks" "0 < ns"
    using assms(1) by (simp_all add: slice_caps_ok_def ks_def ns_def ork_slice_step_pos)
  have mem: "(tl_m0 t, tl_m1 t) \<in> set (loop_upto b (sc_mmax c) M 0)"
    "(tl_n0 t, tl_n1 t) \<in> set (loop_upto b ns N 0)" "(tl_k0 t, tl_k1 t) \<in> set (loop_upto b ks K 0)"
    using t unfolding inr(6) set_slice_tiles by (simp_all add: b_def ks_def ns_def)
  have "ks \<le> sc_kmax c" "ns \<le> sc_nmax c"
    using assms(2,3) pos by (simp_all add: ks_def ns_def ork_slice_step_le)
  moreover have "sc_kmul c dvd K" "sc_nmul c dvd N"
    using inr pos by (simp_all add: c_mod_nonneg dvd_eq_mod_eq_0)
  moreover have "sc_kmul c dvd ks" "sc_nmul c dvd ns" by (simp_all add: ks_def ns_def ork_slice_step_dvd)
  ultimately show ?thesis
    using loop_upto_width [OF pos(3) mem(1)] loop_upto_width [OF pos(5) mem(2)] loop_upto_width [OF pos(4) mem(3)]
      loop_upto_dvd [OF pos(5) _ _ _ mem(2), of "sc_nmul c"] loop_upto_dvd [OF pos(4) _ _ _ mem(3), of "sc_kmul c"]
    by auto
qed

theorem slice_matmul_within_caps_witness:
  "\<exists>ts. ork_slice_matmul 4608 16 65 (Some ork_slice_caps_rk3588) 8 = Inr ts \<and>
    (\<forall>t\<in>set ts. tl_k1 t - tl_k0 t \<le> 4096 \<and> tl_m1 t - tl_m0 t \<le> 64 \<and> 512 dvd tl_k0 t)"
proof -
  have ok: "slice_caps_ok ork_slice_caps_rk3588" "sc_kmul ork_slice_caps_rk3588 \<le> sc_kmax ork_slice_caps_rk3588"
    "sc_nmul ork_slice_caps_rk3588 \<le> sc_nmax ork_slice_caps_rk3588"
    by (simp_all add: slice_caps_ok_def ork_slice_caps_rk3588_def)
  obtain ts where r: "ork_slice_matmul 4608 16 65 (Some ork_slice_caps_rk3588) 8 = Inr ts"
  proof -
    have "\<exists>ts. ork_slice_matmul 4608 16 65 (Some ork_slice_caps_rk3588) 8 = Inr ts"
      by (simp add: ork_slice_matmul_def ork_slice_caps_rk3588_def c_mod_nonneg ork_slice_step_def Let_def
          slice_tiles_def eval_nat_numeral)
    with that show ?thesis by blast
  qed
  from slice_matmul_within_caps [OF ok r] r show ?thesis
    by (auto simp: ork_slice_caps_rk3588_def)
qed

text \<open>The tile count: the \<open>-1\<close> of the C is exactly the plan that does not fit.\<close>

lemma ork_slice_matmul_count:
  assumes "slice_caps_ok c" and r: "ork_slice_matmul K N M (Some c) cap = Inr ts"
  shows "int (length ts) = ceil_div M (sc_mmax c) *
    (ceil_div N (ork_slice_step (sc_nmax c) (sc_nmul c)) * ork_slice_kparts K c)"
proof -
  have L: "int (length (loop_upto b st hi 0)) = ceil_div hi st" if "0 < st" "0 < hi" "tiles 0 hi (loop_upto b st hi 0)" for b st hi
    using that by (rule loop_upto_tiles_length)
  show ?thesis
    using assms(1) ork_slice_matmul_Inr [OF r] ork_slice_matmul_tiles [OF assms]
    by (simp add: length_slice_tiles L slice_caps_ok_def ork_slice_step_pos ork_slice_kparts_def ceil_div_def Let_def
        del: loop_upto.simps)
qed

end
