(* ===== verification/Slice_F16.thy ===== *)
theory Slice_F16
  imports Slice
begin

section \<open>The fp16 tiler: \<open>include/ork_slice_f16.h\<close>\<close>

text \<open>
  The M ceiling is the callback \<open>mmax\<close> of the K-slice and the N-tile (its \<open>ud\<close> argument is the
  closure). The two loops of \<open>ork_slice_f16_check\<close> have no bound of their own, so the check is a
  partial function: \<open>None\<close> is a loop that never ends, which positive multiples rule out.
\<close>

record ork_slice_f16_caps =
  fc_kmax :: int
  fc_kmul :: int
  fc_nmax :: int
  fc_nmul :: int
  fc_mmax :: "(int \<Rightarrow> int \<Rightarrow> int) option"

definition ork_slice_f16_caps_rk3588 :: ork_slice_f16_caps where
  "ork_slice_f16_caps_rk3588 = \<lparr>fc_kmax = 2048, fc_kmul = 32, fc_nmax = 8192, fc_nmul = 16, fc_mmax = None\<rparr>"

partial_function (option) f16_check_n :: "(int \<Rightarrow> int \<Rightarrow> int) \<Rightarrow> int \<Rightarrow> int \<Rightarrow> int \<Rightarrow> int \<Rightarrow> int option" where
  "f16_check_n f kp ns N n0 =
     (if n0 < N then
        (let nt = (if N - n0 < ns then N - n0 else ns)
         in if f kp nt < 1 then Some (-4) else f16_check_n f kp ns N (n0 + ns))
      else Some 0)"

partial_function (option) f16_check_k :: "(int \<Rightarrow> int \<Rightarrow> int) \<Rightarrow> int \<Rightarrow> int \<Rightarrow> int \<Rightarrow> int \<Rightarrow> int \<Rightarrow> int option" where
  "f16_check_k f ks K ns N k0 =
     (if k0 < K then
        Option.bind (f16_check_n f (if K - k0 < ks then K - k0 else ks) ns N 0)
          (\<lambda>rc. if rc \<noteq> 0 then Some rc else f16_check_k f ks K ns N (k0 + ks))
      else Some 0)"

definition ork_slice_f16_check :: "int \<Rightarrow> int \<Rightarrow> ork_slice_f16_caps option \<Rightarrow> int option" where
  "ork_slice_f16_check K N cp =
     (case cp of None \<Rightarrow> Some (-2)
      | Some c \<Rightarrow>
        if K \<le> 0 \<or> N \<le> 0 then Some (-2)
        else if c_mod K (fc_kmul c) \<noteq> 0 \<or> c_mod N (fc_nmul c) \<noteq> 0 then Some (-2)
        else (case fc_mmax c of None \<Rightarrow> Some (-3)
              | Some f \<Rightarrow> f16_check_k f (ork_slice_step (fc_kmax c) (fc_kmul c)) K
                           (ork_slice_step (fc_nmax c) (fc_nmul c)) N 0))"

text \<open>
  The planner runs N, K, M. The (N-tile, K-slice) pairs in order, then one M loop per pair whose
  step is the callback's answer for that pair.
\<close>

definition f16_pairs :: "int \<Rightarrow> int \<Rightarrow> int \<Rightarrow> int \<Rightarrow> (ival \<times> ival) list" where
  "f16_pairs K ks N ns = concat (map (\<lambda>n. map (Pair n) (loop_upto (nat K) ks K 0)) (loop_upto (nat N) ns N 0))"

definition iv_len :: "ival \<Rightarrow> int" where
  "iv_len iv = snd iv - fst iv"

fun f16_emit :: "(int \<Rightarrow> int \<Rightarrow> int) \<Rightarrow> int \<Rightarrow> int \<Rightarrow> (ival \<times> ival) list \<Rightarrow> ork_tile list \<Rightarrow> int + ork_tile list" where
  "f16_emit f M cap [] out = Inr out"
| "f16_emit f M cap ((n, k) # ps) out =
     (let ms = f (iv_len k) (iv_len n) in
      if ms < 1 then Inl (-4)
      else let new = map (\<lambda>m. tile_of m n k) (loop_upto (nat M) ms M 0)
           in if cap < int (length out + length new) then Inl (-1)
              else f16_emit f M cap ps (out @ new))"

definition ork_slice_f16_matmul ::
    "int \<Rightarrow> int \<Rightarrow> int \<Rightarrow> ork_slice_f16_caps option \<Rightarrow> int \<Rightarrow> (int + ork_tile list) option" where
  "ork_slice_f16_matmul K N M cp cap =
     Option.bind (ork_slice_f16_check K N cp) (\<lambda>rc.
       if rc \<noteq> 0 then Some (Inl rc)
       else if M \<le> 0 \<or> cap \<le> 0 then Some (Inl (-2))
       else (case cp of None \<Rightarrow> Some (Inl (-2))
             | Some c \<Rightarrow> (case fc_mmax c of None \<Rightarrow> Some (Inl (-3))
                | Some f \<Rightarrow> Some (f16_emit f M cap
                    (f16_pairs K (ork_slice_step (fc_kmax c) (fc_kmul c)) N (ork_slice_step (fc_nmax c) (fc_nmul c))) []))))"

text \<open>Program count: \<open>n += (M + ms - 1) / ms\<close> over the same pairs.\<close>

fun f16_count :: "(int \<Rightarrow> int \<Rightarrow> int) \<Rightarrow> int \<Rightarrow> (ival \<times> ival) list \<Rightarrow> int \<Rightarrow> int" where
  "f16_count f M [] acc = (if acc > 0x7fffffff then -1 else acc)"
| "f16_count f M ((n, k) # ps) acc =
     (let ms = f (iv_len k) (iv_len n) in
      if ms < 1 then -4 else f16_count f M ps (acc + c_div (M + ms - 1) ms))"

definition ork_slice_f16_count :: "int \<Rightarrow> int \<Rightarrow> int \<Rightarrow> ork_slice_f16_caps option \<Rightarrow> int option" where
  "ork_slice_f16_count K N M cp =
     Option.bind (ork_slice_f16_check K N cp) (\<lambda>rc.
       if rc \<noteq> 0 then Some rc
       else if M \<le> 0 then Some (-2)
       else (case cp of None \<Rightarrow> Some (-2)
             | Some c \<Rightarrow> (case fc_mmax c of None \<Rightarrow> Some (-3)
                | Some f \<Rightarrow> Some (f16_count f M
                    (f16_pairs K (ork_slice_step (fc_kmax c) (fc_kmul c)) N (ork_slice_step (fc_nmax c) (fc_nmul c))) 0))))"

subsection \<open>The check\<close>

text \<open>With a positive step each loop ends, and answers for exactly the intervals it visits.\<close>

lemma iv_len_round:
  "0 < st \<Longrightarrow> lo < hi \<Longrightarrow> (if hi - lo < st then hi - lo else st) = iv_len (lo, if lo + st < hi then lo + st else hi)"
  by (auto simp: iv_len_def)

lemma f16_check_n_list:
  assumes "0 < ns"
  shows "nat (N - n0) \<le> b \<Longrightarrow> f16_check_n f kp ns N n0 =
    Some (if list_ex (\<lambda>n. f kp (iv_len n) < 1) (loop_upto b ns N n0) then -4 else 0)"
proof (induction b arbitrary: n0)
  case 0
  then show ?case by (subst f16_check_n.simps) simp
next
  case (Suc b)
  show ?case
  proof (cases "n0 < N")
    case True
    with Suc assms have "f16_check_n f kp ns N (n0 + ns) =
        Some (if list_ex (\<lambda>n. f kp (iv_len n) < 1) (loop_upto b ns N (n0 + ns)) then -4 else 0)"
      by (intro Suc.IH) linarith
    then show ?thesis
      by (subst f16_check_n.simps) (simp add: True iv_len_round [OF assms True])
  qed (subst f16_check_n.simps, simp)
qed

lemma f16_check_k_list:
  assumes "0 < ns" "0 < ks"
  shows "nat (K - k0) \<le> b \<Longrightarrow> f16_check_k f ks K ns N k0 =
    Some (if list_ex (\<lambda>k. list_ex (\<lambda>n. f (iv_len k) (iv_len n) < 1) (loop_upto (nat N) ns N 0)) (loop_upto b ks K k0)
          then -4 else 0)"
proof (induction b arbitrary: k0)
  case 0
  then show ?case by (subst f16_check_k.simps) simp
next
  case (Suc b)
  show ?case
  proof (cases "k0 < K")
    case True
    with Suc assms have "f16_check_k f ks K ns N (k0 + ks) =
        Some (if list_ex (\<lambda>k. list_ex (\<lambda>n. f (iv_len k) (iv_len n) < 1) (loop_upto (nat N) ns N 0))
            (loop_upto b ks K (k0 + ks)) then -4 else 0)"
      by (intro Suc.IH) linarith
    then show ?thesis
      using f16_check_n_list [OF assms(1), of N 0 "nat N" f]
      by (subst f16_check_k.simps) (simp add: True iv_len_round [OF assms(2) True])
  qed (subst f16_check_k.simps, simp)
qed

definition f16_caps_ok :: "ork_slice_f16_caps \<Rightarrow> bool" where
  "f16_caps_ok c \<longleftrightarrow> 0 < fc_kmul c \<and> 0 < fc_nmul c"

lemma f16_steps_pos:
  "f16_caps_ok c \<Longrightarrow> 0 < ork_slice_step (fc_kmax c) (fc_kmul c) \<and> 0 < ork_slice_step (fc_nmax c) (fc_nmul c)"
  by (simp add: f16_caps_ok_def ork_slice_step_pos)

lemma set_f16_pairs:
  "(n, k) \<in> set (f16_pairs K ks N ns) \<longleftrightarrow> n \<in> set (loop_upto (nat N) ns N 0) \<and> k \<in> set (loop_upto (nat K) ks K 0)"
  by (auto simp: f16_pairs_def)

lemma slice_f16_check_total_aux:
  assumes "f16_caps_ok c"
  shows "ork_slice_f16_check K N (Some c) = Some (
    if K \<le> 0 \<or> N \<le> 0 \<or> \<not> fc_kmul c dvd K \<or> \<not> fc_nmul c dvd N then -2
    else case fc_mmax c of None \<Rightarrow> -3
      | Some f \<Rightarrow> if \<exists>(n, k)\<in>set (f16_pairs K (ork_slice_step (fc_kmax c) (fc_kmul c)) N (ork_slice_step (fc_nmax c) (fc_nmul c))).
                     f (iv_len k) (iv_len n) < 1 then -4 else 0)"
  using assms f16_steps_pos [OF assms]
    f16_check_k_list [of "ork_slice_step (fc_nmax c) (fc_nmul c)" "ork_slice_step (fc_kmax c) (fc_kmul c)" K 0 "nat K" _ N]
  by (simp add: ork_slice_f16_check_def f16_caps_ok_def c_mod_nonneg dvd_eq_mod_eq_0 list_ex_iff
      split: option.splits) (force simp: set_f16_pairs)

text \<open>
  C3. The check always ends for positive multiples, and its code says which rule refused the
  shape: -2 for a shape that is not positive or not aligned, -3 for a missing callback, -4 when
  the callback refuses some (K-slice, N-tile) pair of the decomposition, 0 otherwise.
\<close>

theorem slice_f16_check_total:
  assumes "f16_caps_ok c"
  shows "ork_slice_f16_check K N (Some c) = Some (
    if K \<le> 0 \<or> N \<le> 0 \<or> \<not> fc_kmul c dvd K \<or> \<not> fc_nmul c dvd N then -2
    else case fc_mmax c of None \<Rightarrow> -3
      | Some f \<Rightarrow> if \<exists>(n, k)\<in>set (f16_pairs K (ork_slice_step (fc_kmax c) (fc_kmul c)) N (ork_slice_step (fc_nmax c) (fc_nmul c))).
                     f (iv_len k) (iv_len n) < 1 then -4 else 0)"
  by (rule slice_f16_check_total_aux [OF assms])

theorem slice_f16_check_total_witness:
  "ork_slice_f16_check 64 16 (Some (ork_slice_f16_caps_rk3588\<lparr>fc_mmax := Some (\<lambda>k n. 128 - k)\<rparr>)) = Some 0"
  using slice_f16_check_total [of "ork_slice_f16_caps_rk3588\<lparr>fc_mmax := Some (\<lambda>k n. 128 - k)\<rparr>" 64 16]
  by (simp add: f16_caps_ok_def ork_slice_f16_caps_rk3588_def f16_pairs_def ork_slice_step_def iv_len_def
      eval_nat_numeral)

subsection \<open>The plan\<close>

text \<open>The tiles of one pair, and the whole plan when no limit is hit.\<close>

definition f16_block :: "(int \<Rightarrow> int \<Rightarrow> int) \<Rightarrow> int \<Rightarrow> ival \<times> ival \<Rightarrow> ork_tile list" where
  "f16_block f M p = map (\<lambda>m. tile_of m (fst p) (snd p)) (loop_upto (nat M) (f (iv_len (snd p)) (iv_len (fst p))) M 0)"

definition f16_refused :: "(int \<Rightarrow> int \<Rightarrow> int) \<Rightarrow> (ival \<times> ival) list \<Rightarrow> bool" where
  "f16_refused f ps \<longleftrightarrow> (\<exists>(n, k)\<in>set ps. f (iv_len k) (iv_len n) < 1)"

lemma f16_emit_eq:
  "\<not> f16_refused f ps \<Longrightarrow> int (length out) \<le> cap \<Longrightarrow> f16_emit f M cap ps out =
     (let ts = out @ concat (map (f16_block f M) ps) in if cap < int (length ts) then Inl (-1) else Inr ts)"
proof (induction f M cap ps out rule: f16_emit.induct)
  case (2 f M cap n k ps out)
  then have nr: "\<not> f (iv_len k) (iv_len n) < 1" "\<not> f16_refused f ps" by (auto simp: f16_refused_def)
  show ?case
  proof (cases "cap < int (length out + length (f16_block f M (n, k)))")
    case True
    then show ?thesis using nr by (simp add: Let_def f16_block_def)
  next
    case False
    then show ?thesis using nr 2 by (simp add: Let_def f16_block_def)
  qed
qed (simp add: Let_def)

lemma f16_block_length:
  "0 < M \<Longrightarrow> \<not> f (iv_len k) (iv_len n) < 1 \<Longrightarrow>
    int (length (f16_block f M (n, k))) = c_div (M + f (iv_len k) (iv_len n) - 1) (f (iv_len k) (iv_len n))"
  using loop_upto_length [of "f (iv_len k) (iv_len n)" M 0 "nat M"]
  by (simp add: f16_block_def ceil_div_def)

lemma f16_count_eq:
  "0 < M \<Longrightarrow> \<not> f16_refused f ps \<Longrightarrow> f16_count f M ps acc =
     (let n = acc + int (length (concat (map (f16_block f M) ps))) in if n > 0x7fffffff then -1 else n)"
proof (induction f M ps acc rule: f16_count.induct)
  case (2 f M n k ps acc)
  then have nr: "\<not> f (iv_len k) (iv_len n) < 1" "\<not> f16_refused f ps" by (auto simp: f16_refused_def)
  with 2 f16_block_length [of M f k n] show ?case by (simp add: Let_def ac_simps)
qed (simp add: Let_def)

abbreviation f16_pairs_of :: "ork_slice_f16_caps \<Rightarrow> int \<Rightarrow> int \<Rightarrow> (ival \<times> ival) list" where
  "f16_pairs_of c K N \<equiv>
     f16_pairs K (ork_slice_step (fc_kmax c) (fc_kmul c)) N (ork_slice_step (fc_nmax c) (fc_nmul c))"

lemma f16_check_zero:
  assumes "f16_caps_ok c" and "ork_slice_f16_check K N (Some c) = Some 0"
  shows "0 < K" "0 < N" "fc_kmul c dvd K" "fc_nmul c dvd N"
    "\<exists>f. fc_mmax c = Some f \<and> \<not> f16_refused f (f16_pairs_of c K N)"
  using assms(2) unfolding slice_f16_check_total_aux [OF assms(1)] f16_refused_def
  by (auto split: if_splits option.splits)

lemma f16_matmul_cases:
  assumes ok: "f16_caps_ok c" and M: "0 < M" "0 < cap"
  shows "ork_slice_f16_matmul K N M (Some c) cap = Some (
    case ork_slice_f16_check K N (Some c) of None \<Rightarrow> Inl 0
    | Some rc \<Rightarrow> if rc \<noteq> 0 then Inl rc
        else let ts = concat (map (f16_block (the (fc_mmax c)) M) (f16_pairs_of c K N))
             in if cap < int (length ts) then Inl (-1) else Inr ts)"
proof -
  obtain rc where rc: "ork_slice_f16_check K N (Some c) = Some rc"
    using slice_f16_check_total_aux [OF ok] by blast
  show ?thesis
  proof (cases "rc = 0")
    case True
    with rc obtain f where f: "fc_mmax c = Some f" "\<not> f16_refused f (f16_pairs_of c K N)"
      using f16_check_zero(5) [OF ok] by auto
    with rc True M show ?thesis
      by (simp add: ork_slice_f16_matmul_def f16_emit_eq)
  next
    case False
    with rc show ?thesis by (simp add: ork_slice_f16_matmul_def)
  qed
qed

lemma f16_matmul_Inr:
  assumes "f16_caps_ok c" and "ork_slice_f16_matmul K N M (Some c) cap = Some (Inr ts)"
  shows "0 < K" "0 < N" "0 < M" "0 < cap"
    "\<exists>f. fc_mmax c = Some f \<and> \<not> f16_refused f (f16_pairs_of c K N) \<and> ts = concat (map (f16_block f M) (f16_pairs_of c K N))"
proof -
  show Mc: "0 < M" "0 < cap"
    using assms(2) by (auto simp: ork_slice_f16_matmul_def split: Option.bind_splits if_splits)
  have chk: "ork_slice_f16_check K N (Some c) = Some 0"
    using assms(2) unfolding f16_matmul_cases [OF assms(1) Mc]
    by (auto split: option.splits if_splits)
  note z = f16_check_zero [OF assms(1) chk]
  show "0 < K" "0 < N" by (fact z(1,2))+
  show "\<exists>f. fc_mmax c = Some f \<and> \<not> f16_refused f (f16_pairs_of c K N) \<and> ts = concat (map (f16_block f M) (f16_pairs_of c K N))"
    using assms(2) z(5) unfolding f16_matmul_cases [OF assms(1) Mc] chk
    by (auto simp: Let_def split: if_splits)
qed

text \<open>Coverage of the plan.\<close>

lemma f16_block_once:
  assumes "0 < M" "\<not> f (iv_len (snd p)) (iv_len (fst p)) < 1" "0 \<le> m" "m < M"
  shows "length (filter (in_tile m n k) (f16_block f M p)) = (if hit k (snd p) then if hit n (fst p) then 1 else 0 else 0)"
proof -
  let ?ms = "loop_upto (nat M) (f (iv_len (snd p)) (iv_len (fst p))) M 0"
  have "tiles 0 M ?ms" using assms by (intro loop_upto_tiles) simp_all
  moreover have "length (filter (in_tile m n k) (f16_block f M p))
      = (\<Sum>x\<leftarrow>?ms. if hit m x then (if hit k (snd p) then if hit n (fst p) then 1 else 0 else 0) else 0)"
    unfolding f16_block_def by (induction ?ms) (auto simp: in_tile_of length_filter_sum comp_def)
  ultimately show ?thesis using assms(3,4) by (simp only: tiles_hit)
qed

definition f16_plan :: "ork_slice_f16_caps \<times> int \<Rightarrow> int \<Rightarrow> int \<Rightarrow> int \<Rightarrow> ork_tile list option" where
  "f16_plan cc K N M =
     (case ork_slice_f16_matmul K N M (Some (fst cc)) (snd cc) of Some (Inr ts) \<Rightarrow> Some ts | _ \<Rightarrow> None)"

lemma f16_plan_Some:
  "f16_plan cc K N M = Some ts \<longleftrightarrow> ork_slice_f16_matmul K N M (Some (fst cc)) (snd cc) = Some (Inr ts)"
  by (auto simp: f16_plan_def split: option.splits sum.splits)

lemma f16_pairs_tiles:
  assumes "f16_caps_ok c" "0 < K" "0 < N"
  shows "tiles 0 K (loop_upto (nat K) (ork_slice_step (fc_kmax c) (fc_kmul c)) K 0)"
    "tiles 0 N (loop_upto (nat N) (ork_slice_step (fc_nmax c) (fc_nmul c)) N 0)"
  using assms f16_steps_pos [OF assms(1)] by (auto intro!: loop_upto_tiles simp del: loop_upto.simps)

lemma f16_block_mem:
  "t \<in> set (concat (map (f16_block f M) ps)) \<longleftrightarrow>
     (\<exists>(n, k)\<in>set ps. (tl_m0 t, tl_m1 t) \<in> set (loop_upto (nat M) (f (iv_len k) (iv_len n)) M 0) \<and>
        n = (tl_n0 t, tl_n1 t) \<and> k = (tl_k0 t, tl_k1 t))"
  by (auto simp: f16_block_def tile_of_eq image_iff split: prod.splits) (force simp: tile_of_eq)+

interpretation f16t: tiler f16_plan "\<lambda>cc. f16_caps_ok (fst cc)"
proof (unfold_locales, goal_cases)
  case (1 cc K N M ts t)
  then have r: "ork_slice_f16_matmul K N M (Some (fst cc)) (snd cc) = Some (Inr ts)" by (simp add: f16_plan_Some)
  note inr = f16_matmul_Inr [OF 1(1) r]
  obtain f where f: "\<not> f16_refused f (f16_pairs_of (fst cc) K N)"
    and ts: "ts = concat (map (f16_block f M) (f16_pairs_of (fst cc) K N))" using inr(5) by blast
  obtain n k where nk: "(n, k) \<in> set (f16_pairs_of (fst cc) K N)"
    and m: "(tl_m0 t, tl_m1 t) \<in> set (loop_upto (nat M) (f (iv_len k) (iv_len n)) M 0)"
    and eq: "n = (tl_n0 t, tl_n1 t)" "k = (tl_k0 t, tl_k1 t)"
    using 1(3) unfolding ts f16_block_mem by blast
  have "0 < f (iv_len k) (iv_len n)" using f nk by (force simp: f16_refused_def)
  from loop_upto_width [OF this m] show ?case
    using nk eq tiles_bounds [OF f16_pairs_tiles(1) [OF 1(1) inr(1,2)], of "tl_k0 t" "tl_k1 t"]
      tiles_bounds [OF f16_pairs_tiles(2) [OF 1(1) inr(1,2)], of "tl_n0 t" "tl_n1 t"]
    by (simp add: tile_within_def set_f16_pairs)
next
  case (2 cc K N M ts m n k)
  then have r: "ork_slice_f16_matmul K N M (Some (fst cc)) (snd cc) = Some (Inr ts)" by (simp add: f16_plan_Some)
  note inr = f16_matmul_Inr [OF 2(1) r]
  obtain f where f: "\<not> f16_refused f (f16_pairs_of (fst cc) K N)"
    and ts: "ts = concat (map (f16_block f M) (f16_pairs_of (fst cc) K N))" using inr(5) by blast
  have "length (filter (in_tile m n k) ts) =
      (\<Sum>p\<leftarrow>f16_pairs_of (fst cc) K N. if hit k (snd p) then if hit n (fst p) then 1 else 0 else 0)"
    unfolding ts length_filter_concat_map
    using f inr(3) 2(3,4) by (intro sum_list_cong_set f16_block_once) (auto simp: f16_refused_def)
  also have "\<dots> = 1"
    unfolding f16_pairs_def
    by (simp only: sum_list_concat_map map_map comp_def fst_conv snd_conv
        tiles_hit [OF f16_pairs_tiles(1) [OF 2(1) inr(1,2)] 2(7,8)]
        tiles_hit [OF f16_pairs_tiles(2) [OF 2(1) inr(1,2)] 2(5,6)])
  finally show ?case .
qed

text \<open>
  C4. A plan of \<open>ork_slice_f16_matmul\<close> covers every multiply-accumulate of the matmul exactly
  once, inside the shape, whatever the callback: no partial product is lost or counted twice.
\<close>

theorem slice_f16_covers_once:
  assumes "f16_caps_ok c" and "ork_slice_f16_matmul K N M (Some c) cap = Some (Inr ts)"
    and "0 \<le> m" "m < M" "0 \<le> n" "n < N" "0 \<le> k" "k < K"
  shows "length (filter (in_tile m n k) ts) = 1"
  using assms by (intro f16t.plan_once [of "(c, cap)" K N M]) (simp_all add: f16_plan_Some)

theorem slice_f16_covers_once_witness:
  "\<exists>ts. ork_slice_f16_matmul 64 32 3 (Some \<lparr>fc_kmax = 32, fc_kmul = 32, fc_nmax = 16, fc_nmul = 16,
      fc_mmax = Some (\<lambda>k n. 2)\<rparr>) 20 = Some (Inr ts) \<and> length ts = 8 \<and> length (filter (in_tile 2 17 40) ts) = 1"
proof -
  let ?c = "\<lparr>fc_kmax = 32, fc_kmul = 32, fc_nmax = 16, fc_nmul = 16, fc_mmax = Some (\<lambda>k n. 2)\<rparr>"
  have ok: "f16_caps_ok ?c" by (simp add: f16_caps_ok_def)
  have "ork_slice_f16_matmul 64 32 3 (Some ?c) 20 =
    Some (Inr (concat (map (f16_block (\<lambda>k n. 2) 3) (f16_pairs_of ?c 64 32))))"
    using f16_matmul_cases [OF ok, of 3 20 64 32] slice_f16_check_total_aux [OF ok, of 64 32]
    by (simp add: f16_pairs_def ork_slice_step_def f16_block_def eval_nat_numeral)
  moreover have "length (concat (map (f16_block (\<lambda>k n. 2) 3) (f16_pairs_of ?c 64 32))) = 8"
    by (simp add: f16_pairs_def ork_slice_step_def f16_block_def eval_nat_numeral)
  ultimately show ?thesis
    using slice_f16_covers_once [OF ok, of 64 32 3 20 _ 2 17 40] by simp
qed

text \<open>
  C5. No tile of a plan is taller than the callback allows for its own K-slice and N-tile, which
  is why the runtime never has to clamp one.
\<close>

theorem slice_f16_respects_mmax:
  assumes "f16_caps_ok c" and r: "ork_slice_f16_matmul K N M (Some c) cap = Some (Inr ts)" and "t \<in> set ts"
    and "fc_mmax c = Some f"
  shows "tl_m1 t - tl_m0 t \<le> f (tl_k1 t - tl_k0 t) (tl_n1 t - tl_n0 t)"
proof -
  obtain n k where nk: "(n, k) \<in> set (f16_pairs_of c K N)" "\<not> f16_refused f (f16_pairs_of c K N)"
    and m: "(tl_m0 t, tl_m1 t) \<in> set (loop_upto (nat M) (f (iv_len k) (iv_len n)) M 0)"
    and eq: "n = (tl_n0 t, tl_n1 t)" "k = (tl_k0 t, tl_k1 t)"
    using f16_matmul_Inr(5) [OF assms(1) r] assms(3,4) f16_block_mem by fastforce
  then have "0 < f (iv_len k) (iv_len n)" by (force simp: f16_refused_def)
  from loop_upto_width [OF this m] eq show ?thesis by (simp add: iv_len_def)
qed

theorem slice_f16_respects_mmax_witness:
  "tl_m1 (tile_of (0, 3) (0, 16) (0, 32)) - tl_m0 (tile_of (0, 3) (0, 16) (0, 32)) \<le> (5 :: int)"
proof -
  let ?c = "\<lparr>fc_kmax = 32, fc_kmul = 32, fc_nmax = 16, fc_nmul = 16, fc_mmax = Some (\<lambda>k n. 5)\<rparr>"
  have ok: "f16_caps_ok ?c" by (simp add: f16_caps_ok_def)
  have "ork_slice_f16_matmul 32 16 3 (Some ?c) 20 = Some (Inr [tile_of (0, 3) (0, 16) (0, 32)])"
    using f16_matmul_cases [OF ok, of 3 20 32 16] slice_f16_check_total_aux [OF ok, of 32 16]
    by (simp add: f16_pairs_def ork_slice_step_def f16_block_def eval_nat_numeral)
  from slice_f16_respects_mmax [OF ok this, of "tile_of (0, 3) (0, 16) (0, 32)" "\<lambda>k n. 5"] show ?thesis by simp
qed

text \<open>
  \<open>ork_slice_f16_count\<close> is the length of the plan, without building it: for any buffer the
  planner fails with -1 exactly when the count exceeds the buffer, and otherwise both give the
  same error code or the plan has that many tiles.
\<close>

theorem slice_f16_count_is_length:
  assumes "f16_caps_ok c" and "0 < M" "0 < cap" "cap \<le> 0x7fffffff"
  shows "case ork_slice_f16_matmul K N M (Some c) cap of
      None \<Rightarrow> False
    | Some (Inr ts) \<Rightarrow> ork_slice_f16_count K N M (Some c) = Some (int (length ts))
    | Some (Inl e) \<Rightarrow> ork_slice_f16_count K N M (Some c) = Some e \<or>
        (e = -1 \<and> (\<exists>n > cap. ork_slice_f16_count K N M (Some c) = Some n))"
proof -
  obtain rc where rc: "ork_slice_f16_check K N (Some c) = Some rc"
    using slice_f16_check_total_aux [OF assms(1)] by blast
  show ?thesis
  proof (cases "rc = 0")
    case True
    with rc obtain f where f: "fc_mmax c = Some f" "\<not> f16_refused f (f16_pairs_of c K N)"
      using f16_check_zero(5) [OF assms(1)] by auto
    show ?thesis
      using rc True f assms
      by (simp add: f16_matmul_cases ork_slice_f16_count_def f16_count_eq Let_def)
  next
    case False
    with rc assms show ?thesis by (simp add: f16_matmul_cases ork_slice_f16_count_def)
  qed
qed

theorem slice_f16_count_is_length_witness:
  "ork_slice_f16_count 64 32 3 (Some \<lparr>fc_kmax = 32, fc_kmul = 32, fc_nmax = 16, fc_nmul = 16,
      fc_mmax = Some (\<lambda>k n. 2)\<rparr>) = Some 8"
proof -
  let ?c = "\<lparr>fc_kmax = 32, fc_kmul = 32, fc_nmax = 16, fc_nmul = 16, fc_mmax = Some (\<lambda>k n. 2)\<rparr>"
  have ok: "f16_caps_ok ?c" by (simp add: f16_caps_ok_def)
  have "ork_slice_f16_matmul 64 32 3 (Some ?c) 20 =
    Some (Inr (concat (map (f16_block (\<lambda>k n. 2) 3) (f16_pairs_of ?c 64 32))))"
    using f16_matmul_cases [OF ok, of 3 20 64 32] slice_f16_check_total_aux [OF ok, of 64 32]
    by (simp add: f16_pairs_def ork_slice_step_def f16_block_def eval_nat_numeral)
  moreover have "length (concat (map (f16_block (\<lambda>k n. 2) 3) (f16_pairs_of ?c 64 32))) = 8"
    by (simp add: f16_pairs_def ork_slice_step_def f16_block_def eval_nat_numeral)
  ultimately show ?thesis
    using slice_f16_count_is_length [OF ok, of 3 20 64 32] by simp
qed

end
