(* ===== verification/Soc.thy ===== *)
theory Soc
  imports Prelude
begin

section \<open>The SoC table: \<open>src/soc.h\<close>, \<open>src/soc.c\<close>, \<open>src/soc/*.c\<close>\<close>

text \<open>
  One record per chip and the registry in its order. The device tree file is an argument:
  \<open>None\<close> when it cannot be opened, otherwise its bytes, of which 511 are read.
\<close>

record ork_soc =
  soc_id :: string
  soc_card :: string
  soc_cores :: int
  soc_cbuf_elems :: int
  soc_nmax :: int
  soc_ks :: int
  soc_validated :: bool

definition ork_soc_rk3588 :: ork_soc where
  "ork_soc_rk3588 = \<lparr>soc_id = ''rk3588'', soc_card = ''/dev/dri/card1'', soc_cores = 3,
     soc_cbuf_elems = 57344, soc_nmax = 8192, soc_ks = 2048, soc_validated = True\<rparr>"

definition ork_soc_rk3576 :: ork_soc where
  "ork_soc_rk3576 = \<lparr>soc_id = ''rk3576'', soc_card = ''/dev/dri/card1'', soc_cores = 2,
     soc_cbuf_elems = 32768, soc_nmax = 8192, soc_ks = 2048, soc_validated = False\<rparr>"

definition soc_table :: "ork_soc list" where
  "soc_table = [ork_soc_rk3588, ork_soc_rk3576]"

definition ork_soc_by_id :: "string option \<Rightarrow> ork_soc option" where
  "ork_soc_by_id i = (case i of None \<Rightarrow> None | Some s \<Rightarrow> find (\<lambda>soc. s = soc_id soc) soc_table)"

text \<open>\<open>strstr\<close>: does \<open>pat\<close> occur in \<open>s\<close>?\<close>

fun starts_with :: "string \<Rightarrow> string \<Rightarrow> bool" where
  "starts_with [] s = True"
| "starts_with (p # ps) [] = False"
| "starts_with (p # ps) (c # cs) = (p = c \<and> starts_with ps cs)"

fun strstr :: "string \<Rightarrow> string \<Rightarrow> bool" where
  "strstr [] pat = starts_with pat []"
| "strstr (c # cs) pat = (starts_with pat (c # cs) \<or> strstr cs pat)"

text \<open>
  The list of NUL-terminated strings in the buffer, as the loop
  \<open>for (off = 0; off < n; off += strlen(buf+off)+1)\<close> walks it.
\<close>

function nul_strings :: "string \<Rightarrow> string list" where
  "nul_strings buf =
     (if buf = [] then []
      else takeWhile (\<lambda>c. c \<noteq> CHR 0x00) buf # nul_strings (drop (Suc (length (takeWhile (\<lambda>c. c \<noteq> CHR 0x00) buf))) buf))"
  by pat_completeness auto
termination
  by (relation "measure length") auto

declare nul_strings.simps [simp del]

definition ork_soc_detect :: "string option \<Rightarrow> ork_soc option" where
  "ork_soc_detect file =
     (case file of None \<Rightarrow> None
      | Some bytes \<Rightarrow>
          find (\<lambda>soc. list_ex (\<lambda>s. strstr s (soc_id soc)) (nul_strings (take 511 bytes))) soc_table)"

lemma soc_by_id_self: "soc \<in> set soc_table \<Longrightarrow> ork_soc_by_id (Some (soc_id soc)) = Some soc"
  by (auto simp: soc_table_def ork_soc_by_id_def ork_soc_rk3588_def ork_soc_rk3576_def)

lemma soc_detect_in_table: "ork_soc_detect f = Some soc \<Longrightarrow> soc \<in> set soc_table"
  by (auto simp: ork_soc_detect_def find_Some_iff split: option.splits)

lemma soc_by_id_in_table: "ork_soc_by_id i = Some soc \<Longrightarrow> soc \<in> set soc_table \<and> i = Some (soc_id soc)"
  by (auto simp: ork_soc_by_id_def find_Some_iff split: option.splits)

lemma soc_table_caps:
  "soc \<in> set soc_table \<Longrightarrow> 0 < soc_cores soc \<and> soc_cores soc \<le> 3 \<and> soc_nmax soc = 8192 \<and> soc_ks soc = 2048 \<and> 0 < soc_cbuf_elems soc"
  by (auto simp: soc_table_def ork_soc_rk3588_def ork_soc_rk3576_def)

end
