(* ===== verification/F16_Envelope.thy ===== *)
theory F16_Envelope
  imports Slice_F16 Soc
begin

section \<open>The fp16 M-tile envelope: \<open>src/npu/f16/regcmd.c\<close> and \<open>src/npu/f16/plan.c\<close>\<close>

text \<open>
  How many rows one fp16 program may carry: the schedule predicate, the measured ceiling, the CBUF
  bank split the register 0x1040 will hold, the legality test on it, the narrow-N guard, and the
  tile choosers built on them. \<open>ORK_F16_MTILE\<close> is the argument \<open>ovr\<close>: \<open>None\<close> when the variable
  is not set, otherwise its value as \<open>atoi\<close> reads it. The doubles of the source are exact here
  (\<open>K/256.0\<close>, \<open>15.0*scale\<close> and \<open>177.0-15.0*(scale-1.0)\<close> are multiples of 1/256 far below
  \<open>2^53\<close>), so a conversion to \<open>int\<close> is a truncating division by 256.
\<close>

definition orki_f16_sched :: "int \<Rightarrow> bool" where
  "orki_f16_sched K \<longleftrightarrow> and K (K - 1) = 0 \<and> 128 \<le> K \<and> K < 2048"

definition orki_f16_mcap :: "int option \<Rightarrow> int \<Rightarrow> bool \<Rightarrow> int" where
  "orki_f16_mcap ovr K sched =
     (let cap = (if K < 1 then 1
                 else if \<not> sched then c_div 16384 K
                 else if K = 128 then 256
                 else if K = 256 \<or> K = 512 \<or> K = 1024 then c_div 180224 K
                 else c_div 16384 K);
          cap = (case ovr of None \<Rightarrow> cap | Some v \<Rightarrow> if 0 < v then v else cap)
      in if cap < 1 then 1 else cap)"

definition f16_base :: "int \<Rightarrow> int" where
  "f16_base K = c_div (177 * 256 - 15 * (K - 256)) 256"

definition f16_slope :: "int \<Rightarrow> int" where
  "f16_slope K = c_div (15 * K) 256"

text \<open>The value of 0x1040 and its two bank fields (\<open>v & 0xf\<close>, \<open>(v >> 4) & 0xf\<close>).\<close>

definition f16_split_value :: "int \<Rightarrow> int \<Rightarrow> bool \<Rightarrow> int" where
  "f16_split_value K mc sched =
     (if sched then
        let mg = c_div (mc + 63) 64; mg = (if mg < 1 then 1 else mg);
            v = f16_base K - f16_slope K * (mg - 1)
        in if v < 0x1b then 0x1b else v
      else 0xb1)"

definition f16_bank_split :: "int \<Rightarrow> int \<Rightarrow> bool \<Rightarrow> int \<times> int" where
  "f16_bank_split K mc sched =
     (let v = f16_split_value K mc sched in (v mod 16, (v div 16) mod 16))"

definition orki_f16_mc_ok :: "int \<Rightarrow> int \<Rightarrow> bool \<Rightarrow> int \<Rightarrow> bool" where
  "orki_f16_mc_ok K N sched mc =
     (if mc < 1 \<or> K < 1 \<or> N < 1 then False
      else
        let (D, W) = f16_bank_split K mc sched;
            dreq = c_div (mc * K * 2 + 32767) 32768;
            wreq = c_div (K * N * 2 + 32767) 32768;
            wuse = (if wreq < W then wreq else W)
        in dreq \<le> D \<and> D + wuse \<le> 12)"

text \<open>The loop \<open>for (mg = 1; mg <= 16; mg++) { if (v < 0x20) break; mgmax = mg; }\<close>.\<close>

fun narrown_groups :: "int \<Rightarrow> int \<Rightarrow> int list \<Rightarrow> int \<Rightarrow> int" where
  "narrown_groups base slope [] mgmax = mgmax"
| "narrown_groups base slope (mg # mgs) mgmax =
     (if base - slope * (mg - 1) < 0x20 then mgmax else narrown_groups base slope mgs mg)"

definition f16_mcap_narrown :: "int option \<Rightarrow> int \<Rightarrow> bool \<Rightarrow> int \<Rightarrow> int" where
  "f16_mcap_narrown ovr K sched N =
     (let cap = orki_f16_mcap ovr K sched in
      if \<not> sched \<or> K < 1 \<or> N < 1 then cap
      else if K * N * 2 > 4 * 32768 then cap
      else if f16_slope K < 1 then cap
      else
        let mgmax = narrown_groups (f16_base K) (f16_slope K) [1..16] 0
        in if mgmax < 1 then cap else let ncap = mgmax * 64 in if ncap < cap then ncap else cap)"

text \<open>\<open>while (cap > 1 && !ok(cap)) cap--\<close>\<close>

function mcap_down :: "(int \<Rightarrow> bool) \<Rightarrow> int \<Rightarrow> int" where
  "mcap_down ok cap = (if 1 < cap \<and> \<not> ok cap then mcap_down ok (cap - 1) else cap)"
  by pat_completeness auto
termination
  by (relation "measure (\<lambda>(ok, cap). nat cap)") auto

declare mcap_down.simps [simp del]

definition orki_f16_mcap_n :: "int option \<Rightarrow> int \<Rightarrow> bool \<Rightarrow> int \<Rightarrow> int" where
  "orki_f16_mcap_n ovr K sched N = mcap_down (orki_f16_mc_ok K N sched) (f16_mcap_narrown ovr K sched N)"

text \<open>Downward search for a tile whose remainder is legal too; 0 when there is none.\<close>

function mtile_down :: "(int \<Rightarrow> bool) \<Rightarrow> int \<Rightarrow> int \<Rightarrow> int" where
  "mtile_down ok M t =
     (if t < 1 then 0
      else if \<not> ok t then mtile_down ok M (t - 1)
      else if c_mod M t = 0 \<or> ok (c_mod M t) then t
      else mtile_down ok M (t - 1))"
  by pat_completeness auto
termination
  by (relation "measure (\<lambda>(ok, M, t). nat t)") auto

declare mtile_down.simps [simp del]

definition orki_f16_mtile_n :: "int option \<Rightarrow> int \<Rightarrow> int \<Rightarrow> int \<Rightarrow> int" where
  "orki_f16_mtile_n ovr K M N =
     (let sched = orki_f16_sched K; cap = orki_f16_mcap_n ovr K sched N in
      if M < 1 \<or> cap < 1 then 0
      else mtile_down (orki_f16_mc_ok K N sched) M (if M < cap then M else cap))"

definition orki_f16_mcpad :: "int \<Rightarrow> int \<Rightarrow> bool \<Rightarrow> int \<Rightarrow> int \<Rightarrow> int" where
  "orki_f16_mcpad K N sched mc cap =
     (case find (orki_f16_mc_ok K N sched) [mc..cap] of None \<Rightarrow> 0 | Some t \<Rightarrow> t)"

text \<open>\<open>ORK_F16_KTILE\<close>, the fp16 K-slice: a positive multiple of 32 or the default 1024.\<close>

definition orki_f16_ks :: "int option \<Rightarrow> int" where
  "orki_f16_ks env =
     (let kt = (case env of None \<Rightarrow> 0 | Some v \<Rightarrow> v);
          kt = (if kt \<noteq> 0 \<and> (kt < 32 \<or> c_mod kt 32 \<noteq> 0) then 0 else kt)
      in if 0 < kt then kt else 1024)"

text \<open>\<open>npu.c\<close>'s chunk rule for the K-sliced run loop (\<open>dt\<close> 0 is fp16; \<open>RB\<close> the row budget).\<close>

function pow2_upto :: "int \<Rightarrow> int \<Rightarrow> int" where
  "pow2_upto R p = (if 0 < p \<and> p * 2 \<le> R then pow2_upto R (p * 2) else p)"
  by pat_completeness auto
termination
  by (relation "measure (\<lambda>(R, p). nat (R - p))") auto

declare pow2_upto.simps [simp del]

definition orki_run_loop_chunk :: "int option \<Rightarrow> int \<Rightarrow> int \<Rightarrow> int \<Rightarrow> int \<Rightarrow> int" where
  "orki_run_loop_chunk ovr dt Kp Nc RB =
     (if Kp < 1 then 1
      else
        let sched = (if dt \<noteq> 0 then Kp = 1024 \<or> Kp = 512 else orki_f16_sched Kp);
            R = c_div RB Kp; R = (if R < 1 then 1 else R); R = pow2_upto R 1;
            chunk = (if sched then 4 * R else c_div (c_div RB 2) Kp);
            chunk = (if chunk < 1 then 1 else chunk);
            chunk = (if dt = 0 then orki_f16_mcap_n ovr Kp sched Nc else chunk);
            chunk = (if \<not> sched then
                       let cap = c_div 32768 Kp; cap = (if cap < 1 then 1 else cap)
                       in if cap < chunk then cap else chunk
                     else chunk)
        in if chunk < 1 then 1 else chunk)"

subsection \<open>The schedule window\<close>

lemma pow2_and_pred:
  assumes "2 ^ n < K" "K < 2 ^ Suc n"
  shows "and K (K - 1) \<noteq> (0 :: int)"
proof -
  have "bit K n" "bit (K - 1) n"
    using assms by (simp_all add: bit_iff_odd div_pos_geq [of "2 ^ n"] div_pos_pos_trivial)
  then have "bit (and K (K - 1)) n" by (simp add: bit_and_iff)
  then show ?thesis by auto
qed

lemma orki_f16_sched_iff: "orki_f16_sched K \<longleftrightarrow> K \<in> {128, 256, 512, 1024}"
proof
  assume s: "orki_f16_sched K"
  have "\<not> (128 < K \<and> K < 256)" "\<not> (256 < K \<and> K < 512)" "\<not> (512 < K \<and> K < 1024)" "\<not> (1024 < K \<and> K < 2048)"
    using s pow2_and_pred [of 7 K] pow2_and_pred [of 8 K] pow2_and_pred [of 9 K] pow2_and_pred [of 10 K]
    by (auto simp: orki_f16_sched_def)
  with s show "K \<in> {128, 256, 512, 1024}" by (auto simp: orki_f16_sched_def)
qed (auto simp: orki_f16_sched_def)

subsection \<open>The bank split\<close>

lemma f16_base_slope [simp]:
  "f16_base 128 = 184" "f16_slope 128 = 7" "f16_base 256 = 177" "f16_slope 256 = 15"
  "f16_base 512 = 162" "f16_slope 512 = 30" "f16_base 1024 = 132" "f16_slope 1024 = 60"
  by (simp_all add: f16_base_def f16_slope_def)

definition f16_group :: "int \<Rightarrow> int" where
  "f16_group mc = (mc - 1) div 64"

lemma f16_group_nonneg: "1 \<le> mc \<Longrightarrow> 0 \<le> f16_group mc"
  by (simp add: f16_group_def pos_imp_zdiv_nonneg_iff)

lemma f16_split_value_group:
  assumes "1 \<le> mc"
  shows "f16_split_value K mc True = max 0x1b (f16_base K - f16_slope K * f16_group mc)"
proof -
  have "(mc + 63) div 64 = f16_group mc + 1" by (simp add: f16_group_def)
  with f16_group_nonneg [OF assms] assms show ?thesis
    by (simp add: f16_split_value_def Let_def c_div_nonneg max_def)
qed

text \<open>On K = 256, 512 and 1024 every split partitions the 12 banks of the CBUF.\<close>

lemma split_sum:
  assumes "K = 256 \<or> K = 512 \<or> K = 1024" "1 \<le> mc" "f16_bank_split K mc True = (D, W)"
  shows "D + W = 12 \<and> 1 \<le> D \<and> D \<le> 11"
proof -
  let ?g = "f16_group mc"
  have g: "0 \<le> ?g" by (rule f16_group_nonneg [OF assms(2)])
  have v: "D = max 0x1b (f16_base K - f16_slope K * ?g) mod 16"
    "W = max 0x1b (f16_base K - f16_slope K * ?g) div 16 mod 16"
    using assms(3) by (simp_all add: f16_bank_split_def Let_def f16_split_value_group [OF assms(2)])
  show ?thesis
  proof (cases "?g \<le> 10")
    case True
    with g have "?g = 0 \<or> ?g = 1 \<or> ?g = 2 \<or> ?g = 3 \<or> ?g = 4 \<or> ?g = 5 \<or> ?g = 6 \<or> ?g = 7
      \<or> ?g = 8 \<or> ?g = 9 \<or> ?g = 10" by presburger
    with assms(1) show ?thesis unfolding v by (auto simp: max_def)
  next
    case False
    with assms(1) have "max 0x1b (f16_base K - f16_slope K * ?g) = 0x1b" by (auto simp: max_def)
    then show ?thesis unfolding v by simp
  qed
qed

lemma split_unsched [simp]: "f16_bank_split K mc False = (1, 11)"
  by (simp add: f16_bank_split_def f16_split_value_def)

text \<open>On K = 128 the invariant is lost: the four splits of its measured prefix.\<close>

lemma int_div_eq:
  fixes a b q :: int
  assumes "b * q \<le> a" "a < b * q + b"
  shows "a div b = q"
  using assms by (intro int_div_pos_eq [where r = "a - b * q"]) auto

lemma f16_group_cases:
  assumes "1 \<le> mc" "mc \<le> 256"
  shows "f16_group mc = (if mc \<le> 64 then 0 else if mc \<le> 128 then 1 else if mc \<le> 192 then 2 else 3)"
  using assms by (auto simp: f16_group_def intro!: int_div_eq)

lemma split_128:
  assumes "1 \<le> mc" "mc \<le> 256"
  shows "f16_bank_split 128 mc True =
    (if mc \<le> 64 then (8, 11) else if mc \<le> 128 then (1, 11) else if mc \<le> 192 then (10, 10) else (3, 10))"
  using assms f16_group_cases [OF assms]
  by (simp add: f16_bank_split_def f16_split_value_group)

subsection \<open>The legality test in closed form\<close>

lemma bank_count: "(b + 32767) div 32768 \<le> D \<longleftrightarrow> b \<le> D * (32768 :: int)"
  using int_le_div_iff [of 32768 "D + 1" "b + 32767"] by (simp add: not_le [symmetric]) linarith

lemma mc_ok_iff:
  assumes "1 \<le> K" "1 \<le> N" "1 \<le> mc" "f16_bank_split K mc sched = (D, W)"
  shows "orki_f16_mc_ok K N sched mc \<longleftrightarrow>
    mc * K \<le> D * 16384 \<and> D + min ((K * N * 2 + 32767) div 32768) W \<le> 12"
proof -
  have p: "0 \<le> mc * K * 2" "0 \<le> K * N * 2" using assms by auto
  have "c_div (mc * K * 2 + 32767) 32768 \<le> D \<longleftrightarrow> mc * K * 2 \<le> D * 32768"
    using p(1) by (simp add: c_div_nonneg bank_count)
  then show ?thesis
    using assms p by (auto simp: orki_f16_mc_ok_def c_div_nonneg min_def Let_def)
qed

lemma mc_ok_wide:
  assumes "K = 256 \<or> K = 512 \<or> K = 1024" "1 \<le> N" "1 \<le> mc"
  shows "orki_f16_mc_ok K N True mc \<longleftrightarrow> mc * K \<le> fst (f16_bank_split K mc True) * 16384"
proof -
  obtain D W where s: "f16_bank_split K mc True = (D, W)" by fastforce
  show ?thesis
    using split_sum [OF assms(1,3) s] assms mc_ok_iff [OF _ _ assms(3) s, of N] s by auto
qed

lemma mc_ok_unsched:
  assumes "1 \<le> K" "1 \<le> N" "1 \<le> mc"
  shows "orki_f16_mc_ok K N False mc \<longleftrightarrow> mc * K \<le> 16384"
  using mc_ok_iff [OF assms split_unsched] by auto

lemma mc_ok_128:
  assumes "1 \<le> N" "1 \<le> mc" "mc \<le> 256"
  shows "orki_f16_mc_ok 128 N True mc \<longleftrightarrow>
    (if mc \<le> 64 then N \<le> 512 else if mc \<le> 128 then True else if mc \<le> 192 then N \<le> 256 else N \<le> 1152)"
proof -
  let ?w = "(128 * N * 2 + 32767) div 32768"
  have w: "?w \<le> 4 \<longleftrightarrow> N \<le> 512" "?w \<le> 2 \<longleftrightarrow> N \<le> 256" "?w \<le> 9 \<longleftrightarrow> N \<le> 1152"
    using assms(1) by (simp_all add: bank_count)
  obtain D W where s: "f16_bank_split 128 mc True = (D, W)" by fastforce
  have "D = fst (f16_bank_split 128 mc True)" "W = snd (f16_bank_split 128 mc True)" by (simp_all add: s)
  then have DW: "D = (if mc \<le> 64 then 8 else if mc \<le> 128 then 1 else if mc \<le> 192 then 10 else 3)"
    "W = (if mc \<le> 64 then 11 else if mc \<le> 128 then 11 else if mc \<le> 192 then 10 else 10)"
    by (simp_all add: split_128 [OF assms(2,3)])
  have "orki_f16_mc_ok 128 N True mc \<longleftrightarrow> mc * 128 \<le> D * 16384 \<and> D + min ?w W \<le> 12"
    using mc_ok_iff [OF _ assms(1,2) s] by simp
  then show ?thesis using DW w assms by auto
qed

subsection \<open>The two downward searches\<close>

lemma mcap_down_props:
  "1 \<le> cap \<Longrightarrow> 1 \<le> mcap_down ok cap \<and> mcap_down ok cap \<le> cap
     \<and> (ok (mcap_down ok cap) \<or> mcap_down ok cap = 1)
     \<and> (\<forall>s. mcap_down ok cap < s \<and> s \<le> cap \<longrightarrow> \<not> ok s)"
proof (induction ok cap rule: mcap_down.induct)
  case (1 ok cap)
  show ?case
  proof (cases "1 < cap \<and> \<not> ok cap")
    case True
    then have e: "mcap_down ok cap = mcap_down ok (cap - 1)" by (subst mcap_down.simps) simp
    have "\<not> ok s" if "mcap_down ok cap < s" "s \<le> cap" for s
      using that True "1.IH" e by (cases "s = cap") auto
    with True "1.IH" e show ?thesis by auto
  next
    case False
    then have "mcap_down ok cap = cap" by (subst mcap_down.simps) auto
    with False 1(2) show ?thesis by auto
  qed
qed

lemma mcap_down_eqI:
  assumes "1 \<le> t" "t \<le> cap" "ok t \<or> t = 1" "\<And>s. t < s \<Longrightarrow> s \<le> cap \<Longrightarrow> \<not> ok s"
  shows "mcap_down ok cap = t"
  using mcap_down_props [of cap ok] assms by (smt (verit))

lemma mcap_down_id: "ok cap \<Longrightarrow> mcap_down ok cap = cap"
  by (subst mcap_down.simps) simp

lemma mtile_down_props:
  "mtile_down ok M t0 = t \<Longrightarrow> 0 < t \<Longrightarrow>
     t \<le> t0 \<and> ok t \<and> (c_mod M t = 0 \<or> ok (c_mod M t))
     \<and> (\<forall>s. t < s \<and> s \<le> t0 \<longrightarrow> \<not> (ok s \<and> (c_mod M s = 0 \<or> ok (c_mod M s))))"
proof (induction ok M t0 rule: mtile_down.induct)
  case (1 ok M t0)
  show ?case
  proof (cases "t0 < 1 \<or> ok t0 \<and> (c_mod M t0 = 0 \<or> ok (c_mod M t0))")
    case True
    then have "mtile_down ok M t0 = (if t0 < 1 then 0 else t0)" by (subst mtile_down.simps) auto
    with True "1.prems" show ?thesis by (auto split: if_splits)
  next
    case False
    then have e: "mtile_down ok M t0 = mtile_down ok M (t0 - 1)" by (subst mtile_down.simps) auto
    have ih: "t \<le> t0 - 1 \<and> ok t \<and> (c_mod M t = 0 \<or> ok (c_mod M t))
     \<and> (\<forall>s. t < s \<and> s \<le> t0 - 1 \<longrightarrow> \<not> (ok s \<and> (c_mod M s = 0 \<or> ok (c_mod M s))))"
      using "1.IH" "1.prems" False e by (cases "ok t0") auto
    have "\<not> (ok s \<and> (c_mod M s = 0 \<or> ok (c_mod M s)))" if "t < s" "s \<le> t0" for s
      using that ih False by (cases "s = t0") auto
    with ih show ?thesis by auto
  qed
qed

lemma mtile_down_zero:
  "mtile_down ok M t0 = 0 \<Longrightarrow> 1 \<le> s \<Longrightarrow> s \<le> t0 \<Longrightarrow> \<not> (ok s \<and> (c_mod M s = 0 \<or> ok (c_mod M s)))"
proof (induction ok M t0 rule: mtile_down.induct)
  case (1 ok M t0)
  show ?case
  proof (cases "t0 < 1 \<or> ok t0 \<and> (c_mod M t0 = 0 \<or> ok (c_mod M t0))")
    case True
    then have "mtile_down ok M t0 = (if t0 < 1 then 0 else t0)" by (subst mtile_down.simps) auto
    with True "1.prems" show ?thesis by (auto split: if_splits)
  next
    case False
    then have e: "mtile_down ok M t0 = mtile_down ok M (t0 - 1)" by (subst mtile_down.simps) auto
    show ?thesis using "1.IH" "1.prems" False e by (cases "s = t0"; cases "ok t0") auto
  qed
qed

lemma mtile_down_nonneg: "0 \<le> mtile_down ok M t0"
proof (induction ok M t0 rule: mtile_down.induct)
  case (1 ok M t0)
  then show ?case by (subst mtile_down.simps) (cases "ok t0"; auto)
qed

subsection \<open>The ceiling in closed form\<close>

lemma narrown_groups_eval:
  "narrown_groups 184 7 [1..16] 0 = 16" "narrown_groups 177 15 [1..16] 0 = 10"
  "narrown_groups 162 30 [1..16] 0 = 5" "narrown_groups 132 60 [1..16] 0 = 2"
  by code_simp+

lemma mcap_narrown_wide:
  assumes "1 \<le> N"
  shows "f16_mcap_narrown None 256 True N = (if 256 < N then 704 else 640)"
    "f16_mcap_narrown None 512 True N = (if 128 < N then 352 else 320)"
    "f16_mcap_narrown None 1024 True N = (if 64 < N then 176 else 128)"
    "f16_mcap_narrown None 128 True N = 256"
  using assms by (auto simp: f16_mcap_narrown_def orki_f16_mcap_def Let_def narrown_groups_eval)

lemma mcap_narrown_unsched:
  "1 \<le> K \<Longrightarrow> K \<le> 16384 \<Longrightarrow> f16_mcap_narrown None K False N = 16384 div K"
  using int_le_div_iff [of K 1 16384]
  by (auto simp: f16_mcap_narrown_def orki_f16_mcap_def c_div_nonneg Let_def)

lemma ok_at_narrown:
  assumes "1 \<le> N" "K = 256 \<or> K = 512 \<or> K = 1024"
  shows "orki_f16_mc_ok K N True (f16_mcap_narrown None K True N)"
  using assms
  by (auto simp: mcap_narrown_wide mc_ok_wide f16_bank_split_def f16_split_value_group f16_group_def Let_def)

lemma mcap_n_wide:
  assumes "1 \<le> N" "K = 256 \<or> K = 512 \<or> K = 1024"
  shows "orki_f16_mcap_n None K True N = f16_mcap_narrown None K True N"
  unfolding orki_f16_mcap_n_def by (rule mcap_down_id) (rule ok_at_narrown [OF assms])

lemma mcap_n_128:
  assumes "1 \<le> N"
  shows "orki_f16_mcap_n None 128 True N = (if N \<le> 1152 then 256 else 128)"
  unfolding orki_f16_mcap_n_def mcap_narrown_wide [OF assms]
  by (rule mcap_down_eqI) (use assms in \<open>auto simp: mc_ok_128 split: if_splits\<close>)

lemma mcap_n_unsched:
  assumes "1 \<le> K" "K \<le> 16384" "1 \<le> N"
  shows "orki_f16_mcap_n None K False N = 16384 div K"
proof -
  have "1 \<le> 16384 div K" using assms int_le_div_iff [of K 1 16384] by simp
  moreover have "16384 div K * K \<le> 16384" using assms int_le_div_iff [of K "16384 div K" 16384] by simp
  ultimately have "orki_f16_mc_ok K N False (16384 div K)" using assms by (simp add: mc_ok_unsched)
  then show ?thesis
    unfolding orki_f16_mcap_n_def mcap_narrown_unsched [OF assms(1,2)] by (rule mcap_down_id)
qed

text \<open>C7: the ceiling every run path and the planner read is exactly the measured envelope of the
  source's comments: 704/352/176 rows at K = 256/512/1024 (640/320/128 once the weight is at most
  four banks), 256 or 128 at K = 128 depending on N, and one bank of activations, 16384/K rows,
  outside the schedule window.\<close>

theorem f16_mcap_n_closed_form:
  assumes "1 \<le> N" "1 \<le> K" "K \<le> 16384"
  shows "orki_f16_mcap_n None K (orki_f16_sched K) N =
    (if K = 256 then if 256 < N then 704 else 640
     else if K = 512 then if 128 < N then 352 else 320
     else if K = 1024 then if 64 < N then 176 else 128
     else if K = 128 then if N \<le> 1152 then 256 else 128
     else 16384 div K)"
proof (cases "orki_f16_sched K")
  case True
  then have "K = 128 \<or> K = 256 \<or> K = 512 \<or> K = 1024" by (simp add: orki_f16_sched_iff)
  with assms(1) show ?thesis
    by (elim disjE) (simp_all add: orki_f16_sched_iff mcap_n_128 mcap_n_wide mcap_narrown_wide)
next
  case False
  then show ?thesis using assms by (auto simp: orki_f16_sched_iff mcap_n_unsched)
qed

theorem f16_mcap_n_closed_form_witness: "orki_f16_mcap_n None 1024 (orki_f16_sched 1024) 16 = 128"
  using f16_mcap_n_closed_form [of 16 1024] by simp

lemma mcap_n_legal_aux:
  assumes "1 \<le> N" "1 \<le> K" "K \<le> 16384"
  shows "orki_f16_mc_ok K N (orki_f16_sched K) (orki_f16_mcap_n None K (orki_f16_sched K) N)"
proof (cases "orki_f16_sched K")
  case True
  then consider "K = 128" | "K = 256 \<or> K = 512 \<or> K = 1024" by (auto simp: orki_f16_sched_iff)
  then show ?thesis
  proof cases
    case 1
    with assms(1) True show ?thesis by (simp add: mcap_n_128 mc_ok_128)
  next
    case 2
    with assms(1) True ok_at_narrown mcap_n_wide show ?thesis by auto
  qed
next
  case False
  have "1 \<le> 16384 div K" "16384 div K * K \<le> 16384"
    using assms int_le_div_iff [of K 1 16384] int_le_div_iff [of K "16384 div K" 16384] by simp_all
  then show ?thesis using False assms by (simp add: mcap_n_unsched mc_ok_unsched)
qed

lemma mcap_n_pos: "1 \<le> orki_f16_mcap_n ovr K s N"
proof -
  have "1 \<le> f16_mcap_narrown ovr K s N"
    by (auto simp: f16_mcap_narrown_def orki_f16_mcap_def Let_def)
  then show ?thesis unfolding orki_f16_mcap_n_def using mcap_down_props by blast
qed

text \<open>C8: a program of exactly the ceiling's height is legal: its activations fit the DATA banks the
  register will name, and its weight window does not wrap into them.\<close>

theorem f16_mcap_n_legal:
  assumes "1 \<le> N" "1 \<le> K" "K \<le> 16384"
  shows "orki_f16_mc_ok K N (orki_f16_sched K) (orki_f16_mcap_n None K (orki_f16_sched K) N)"
  by (rule mcap_n_legal_aux [OF assms])

theorem f16_mcap_n_legal_witness:
  "orki_f16_mc_ok 128 2048 (orki_f16_sched 128) (orki_f16_mcap_n None 128 (orki_f16_sched 128) 2048)"
  by (rule f16_mcap_n_legal) simp_all

subsection \<open>The narrow-N guard\<close>

lemma split_value_antimono_wide:
  assumes "K = 256 \<or> K = 512 \<or> K = 1024" "1 \<le> mc" "f16_base K - f16_slope K * f16_group mc \<ge> 0x20"
  shows "0x20 \<le> f16_split_value K mc True"
  using assms by (simp add: f16_split_value_group)

text \<open>C9: when the weight of a scheduled K fits four CBUF banks (the regime in which a single
  WEIGHT bank hangs the submit), no program at or below the ceiling is emitted with fewer than two
  WEIGHT banks.\<close>

theorem f16_narrow_keeps_two_weight_banks:
  assumes "orki_f16_sched K" "1 \<le> N" "K * N * 2 \<le> 4 * 32768"
    "1 \<le> mc" "mc \<le> orki_f16_mcap_n None K True N"
  shows "2 \<le> snd (f16_bank_split K mc True)"
proof -
  consider "K = 128" | "K = 256 \<or> K = 512 \<or> K = 1024"
    using assms(1) by (auto simp: orki_f16_sched_iff)
  then show ?thesis
  proof cases
    case 1
    then have "mc \<le> 256" using assms by (simp add: mcap_n_128 split: if_splits)
    with 1 assms(4) show ?thesis by (simp add: split_128)
  next
    case 2
    have le: "mc \<le> (if K = 256 then 640 else if K = 512 then 320 else 128)"
      using 2 assms by (auto simp: mcap_n_wide mcap_narrown_wide split: if_splits)
    then have g: "f16_group mc \<le> (if K = 256 then 9 else if K = 512 then 4 else 1)"
      using 2 zdiv_mono1 [of "mc - 1" 639 64] zdiv_mono1 [of "mc - 1" 319 64] zdiv_mono1 [of "mc - 1" 127 64]
      by (auto simp: f16_group_def split: if_splits)
    have v: "0x20 \<le> f16_split_value K mc True" and hi: "f16_split_value K mc True < 0x100"
      using 2 g f16_group_nonneg [OF assms(4)] by (auto simp: f16_split_value_group [OF assms(4)])
    have "2 \<le> f16_split_value K mc True div 16"
      using v int_le_div_iff [of 16 2] by simp
    moreover have "f16_split_value K mc True div 16 < 16" using hi by simp
    ultimately show ?thesis by (simp add: f16_bank_split_def Let_def)
  qed
qed

theorem f16_narrow_keeps_two_weight_banks_witness: "2 \<le> snd (f16_bank_split 1024 128 True)"
proof (rule f16_narrow_keeps_two_weight_banks)
  show "(128 :: int) \<le> orki_f16_mcap_n None 1024 True 16"
    by (simp add: mcap_n_wide mcap_narrown_wide)
qed (simp_all add: orki_f16_sched_iff)

subsection \<open>The uniform tile\<close>

text \<open>C10: the chunk a uniform tiler may use is legal, not above M or the ceiling, and leaves a
  legal remainder, and no larger one does; it is 0 exactly when no chunk up to the ceiling has a
  legal remainder.\<close>

theorem f16_mtile_n_correct:
  fixes ovr K M N
  assumes "1 \<le> M"
  defines "t \<equiv> orki_f16_mtile_n ovr K M N"
    and "ok \<equiv> orki_f16_mc_ok K N (orki_f16_sched K)"
    and "cap \<equiv> min M (orki_f16_mcap_n ovr K (orki_f16_sched K) N)"
  shows "(0 < t \<longrightarrow> t \<le> cap \<and> ok t \<and> (M mod t = 0 \<or> ok (M mod t))
            \<and> (\<forall>s. t < s \<and> s \<le> cap \<longrightarrow> \<not> (ok s \<and> (M mod s = 0 \<or> ok (M mod s)))))
       \<and> (t \<le> 0 \<longrightarrow> t = 0 \<and> (\<forall>s. 1 \<le> s \<and> s \<le> cap \<longrightarrow> \<not> (ok s \<and> (M mod s = 0 \<or> ok (M mod s)))))"
proof -
  have t: "t = mtile_down ok M cap"
    using mcap_n_pos [of ovr K "orki_f16_sched K" N] assms(1)
    by (simp add: t_def ok_def cap_def orki_f16_mtile_n_def Let_def min_def)
  have cm: "c_mod M s = M mod s" if "1 \<le> s" for s using that assms(1) by (simp add: c_mod_nonneg)
  show ?thesis
  proof (cases "0 < t")
    case True
    note p = mtile_down_props [OF t [symmetric] True]
    have "M mod s \<noteq> 0 \<and> \<not> ok (M mod s)" if "t < s" "s \<le> cap" "ok s" for s
      using p that True cm [of s] by auto
    with p True cm [of t] show ?thesis by auto
  next
    case False
    then have z: "mtile_down ok M cap = 0" using mtile_down_nonneg [of ok M cap] t by simp
    have "\<not> (ok s \<and> (M mod s = 0 \<or> ok (M mod s)))" if "1 \<le> s" "s \<le> cap" for s
      using mtile_down_zero [OF z that] cm [OF that(1)] by simp
    with z t False show ?thesis by auto
  qed
qed

theorem f16_mtile_n_correct_witness:
  "orki_f16_mc_ok 128 1024 (orki_f16_sched 128) 96 \<and> orki_f16_mtile_n None 128 288 1024 \<le> 256"
proof -
  have "orki_f16_mtile_n None 128 288 1024 \<le> min 288 (orki_f16_mcap_n None 128 (orki_f16_sched 128) 1024)
        \<or> orki_f16_mtile_n None 128 288 1024 \<le> 0"
    using f16_mtile_n_correct [of 288 None 128 1024] by auto
  then show ?thesis by (auto simp: orki_f16_sched_iff mcap_n_128 mc_ok_128)
qed

text \<open>C11: the programs the uniform tiling of M by that chunk emits, the remainder included, are
  all legal and cover [0, M) in order.\<close>

theorem f16_uniform_tiling_legal:
  assumes "1 \<le> M" "0 < orki_f16_mtile_n ovr K M N"
  shows "tiles 0 M (loop_upto (nat M) (orki_f16_mtile_n ovr K M N) M 0) \<and>
    (\<forall>(a, b) \<in> set (loop_upto (nat M) (orki_f16_mtile_n ovr K M N) M 0).
       orki_f16_mc_ok K N (orki_f16_sched K) (b - a))"
proof -
  let ?t = "orki_f16_mtile_n ovr K M N"
  have t: "mtile_down (orki_f16_mc_ok K N (orki_f16_sched K)) M
      (min M (orki_f16_mcap_n ovr K (orki_f16_sched K) N)) = ?t"
    using mcap_n_pos [of ovr K "orki_f16_sched K" N] assms(1)
    by (simp add: orki_f16_mtile_n_def Let_def min_def)
  have ok: "orki_f16_mc_ok K N (orki_f16_sched K) ?t"
    "M mod ?t = 0 \<or> orki_f16_mc_ok K N (orki_f16_sched K) (M mod ?t)"
    using mtile_down_props [OF t assms(2)] assms by (auto simp: c_mod_nonneg)
  have "orki_f16_mc_ok K N (orki_f16_sched K) (b - a)"
    if "(a, b) \<in> set (loop_upto (nat M) ?t M 0)" for a b
    using loop_upto_mod [OF assms(2) that] ok by auto
  with assms show ?thesis by (auto intro: loop_upto_tiles)
qed

theorem f16_uniform_tiling_legal_witness:
  "\<exists>t. t = orki_f16_mtile_n None 256 704 1024 \<and> tiles 0 704 (loop_upto 704 t 704 0)"
proof -
  have "orki_f16_mtile_n None 256 704 1024 = 704"
    by (simp add: orki_f16_mtile_n_def orki_f16_sched_iff mcap_n_wide mcap_narrown_wide mtile_down.simps
        mc_ok_wide f16_bank_split_def f16_split_value_group f16_group_def Let_def c_mod_def)
  then show ?thesis using f16_uniform_tiling_legal [of 704 None 256 1024] by simp
qed

subsection \<open>The padded height\<close>

lemma find_upto_Some: "find p [a..b] = Some t \<Longrightarrow> a \<le> t \<and> t \<le> b \<and> p t \<and> (\<forall>s. a \<le> s \<and> s < t \<longrightarrow> \<not> p s)"
proof -
  assume "find p [a..b] = Some t"
  then obtain i where i: "i < length [a..b]" "p ([a..b] ! i)" "t = [a..b] ! i" "\<forall>j<i. \<not> p ([a..b] ! j)"
    by (auto simp: find_Some_iff)
  have t: "t = a + int i" using i by simp
  have "\<not> p s" if "a \<le> s" "s < t" for s
    using i(4) [rule_format, of "nat (s - a)"] that t i(1) by simp
  with i t show ?thesis by auto
qed

lemma find_upto_None: "find p [a..b] = None \<longleftrightarrow> (\<forall>s. a \<le> s \<and> s \<le> b \<longrightarrow> \<not> p s)"
  by (auto simp: find_None_iff)

text \<open>The padding rule returns the smallest legal program height that holds the rows, and 0
  exactly when no legal height up to the cap holds them.\<close>

theorem f16_mcpad_least:
  fixes K N s mc cap
  assumes "1 \<le> mc"
  defines "p \<equiv> orki_f16_mcpad K N s mc cap"
  shows "(p \<noteq> 0 \<longrightarrow> mc \<le> p \<and> p \<le> cap \<and> orki_f16_mc_ok K N s p
            \<and> (\<forall>t. mc \<le> t \<and> t < p \<longrightarrow> \<not> orki_f16_mc_ok K N s t))
       \<and> (p = 0 \<longleftrightarrow> (\<forall>t. mc \<le> t \<and> t \<le> cap \<longrightarrow> \<not> orki_f16_mc_ok K N s t))"
proof (cases "find (orki_f16_mc_ok K N s) [mc..cap]")
  case None
  then show ?thesis unfolding p_def orki_f16_mcpad_def by (simp add: None find_upto_None [symmetric])
next
  case (Some t)
  note f = find_upto_Some [OF Some]
  have "p = t" unfolding p_def orki_f16_mcpad_def by (simp add: Some)
  with f assms(1) show ?thesis by auto
qed

theorem f16_mcpad_least_witness: "orki_f16_mcpad 128 1024 True 32 128 = 65"
proof -
  have ok: "orki_f16_mc_ok 128 1024 True t \<longleftrightarrow> 64 < t \<and> t \<le> 128" if "32 \<le> t" "t \<le> 128" for t
    using that by (simp add: mc_ok_128)
  let ?p = "orki_f16_mcpad 128 1024 True 32 128"
  have nz: "?p \<noteq> 0"
    using f16_mcpad_least [of 32 128 1024 True 128] ok [of 65] by force
  have p: "32 \<le> ?p \<and> ?p \<le> 128 \<and> orki_f16_mc_ok 128 1024 True ?p
      \<and> (\<forall>t. 32 \<le> t \<and> t < ?p \<longrightarrow> \<not> orki_f16_mc_ok 128 1024 True t)"
    using f16_mcpad_least [of 32 128 1024 True 128] nz by simp
  with ok [of ?p] have "64 < ?p" by blast
  moreover have "\<not> 65 < ?p" using p ok [of 65] by force
  ultimately show ?thesis by simp
qed

end
