(* ===== verification/Run_Loop.thy ===== *)
theory Run_Loop
  imports F16_Envelope
begin

section \<open>The single-core K-sliced run loop: \<open>orki_run\<close> in \<open>src/npu.c\<close>\<close>

text \<open>
  The tail of \<open>orki_run\<close> cuts a [M,K]x[K,N] product into N-tiles, K-slices and M-chunks, stages
  the chunk's rows in the activation buffer \<open>Af\<close>, runs one NPU program into \<open>Cc\<close> and adds the
  rows it keeps into the host result \<open>cres\<close>; a separate pass before it sizes \<open>Af\<close> and \<open>Cc\<close>.
  Buffers are flat arrays of elements (\<open>int \<Rightarrow> 'v\<close>), as in the source. The NPU itself is the
  parameter \<open>npu\<close>: from the datatype, the program's height, Kp and Nc, the activation buffer and the
  weight slice it gives the contents of \<open>Cc\<close>. \<open>dt\<close> is 0 for fp16 and 1 for int8.
\<close>

record loop_dims =
  ld_dt :: int
  ld_M :: int
  ld_K :: int
  ld_N :: int
  ld_KS :: int
  ld_NMAX :: int
  ld_RB :: int

text \<open>\<open>int Kp=(K-k0<KS)?(K-k0):KS\<close> and its twin for the N-tile.\<close>

definition slice_len :: "int \<Rightarrow> int \<Rightarrow> int \<Rightarrow> int" where
  "slice_len whole step x0 = (if whole - x0 < step then whole - x0 else step)"

text \<open>The sizing pass: the rows of the tallest program at one (K-slice, N-tile), and the two maxima
  over all of them, folded in the order of the loops.\<close>

definition sized_rows :: "int option \<Rightarrow> loop_dims \<Rightarrow> int \<Rightarrow> int \<Rightarrow> int" where
  "sized_rows ovr d Kp Nc =
     (let chunk = orki_run_loop_chunk ovr (ld_dt d) Kp Nc (ld_RB d);
          rows = (if chunk < ld_M d then chunk else ld_M d)
      in if ld_dt d = 0 then
           let rem = (if c_mod (ld_M d) chunk \<noteq> 0 then c_mod (ld_M d) chunk else chunk);
               rem = (if rem > ld_M d then ld_M d else rem);
               p = orki_f16_mcpad Kp Nc (orki_f16_sched Kp) rem chunk
           in if p > rows then p else rows
         else rows)"

definition elem_size :: "int \<Rightarrow> int" where
  "elem_size dt = (if dt \<noteq> 0 then 1 else 2)"

definition size_step :: "int option \<Rightarrow> loop_dims \<Rightarrow> int \<times> int \<Rightarrow> int \<times> int \<Rightarrow> int \<times> int" where
  "size_step ovr d kn mx =
     (let Kp = slice_len (ld_K d) (ld_KS d) (fst kn); Nc = slice_len (ld_N d) (ld_NMAX d) (snd kn);
          rows = sized_rows ovr d Kp Nc;
          o1 = rows * Nc * 4; sz = rows * Kp * elem_size (ld_dt d)
      in (if o1 > fst mx then o1 else fst mx, if sz > snd mx then sz else snd mx))"

definition starts :: "int \<Rightarrow> int \<Rightarrow> int list" where
  "starts hi st = map fst (loop_upto (nat hi) st hi 0)"

definition run_loop_sizes :: "int option \<Rightarrow> loop_dims \<Rightarrow> int \<times> int" where
  "run_loop_sizes ovr d =
     fold (size_step ovr d)
       (List.concat (map (\<lambda>k0. map (\<lambda>n0. (k0, n0)) (starts (ld_N d) (ld_NMAX d))) (starts (ld_K d) (ld_KS d))))
       (0, 0)"

text \<open>One program of the emitting loop, and its two extent checks.\<close>

record prog =
  p_ks :: int
  p_k0 :: int
  p_Kp :: int
  p_n0 :: int
  p_Nc :: int
  p_m0 :: int
  p_mc :: int
  p_mch :: int

definition prog_height :: "int option \<Rightarrow> loop_dims \<Rightarrow> int \<Rightarrow> int \<Rightarrow> int \<Rightarrow> int \<Rightarrow> int" where
  "prog_height ovr d Kp Nc chunk mc =
     (if ld_dt d = 0 then orki_f16_mcpad Kp Nc (orki_f16_sched Kp) mc chunk else mc)"

definition tile_progs :: "int option \<Rightarrow> loop_dims \<Rightarrow> int \<Rightarrow> int \<Rightarrow> int \<Rightarrow> int \<Rightarrow> prog list" where
  "tile_progs ovr d ns ks n0 k0 =
     (let Nc = slice_len (ld_N d) (ld_NMAX d) n0; Kp = slice_len (ld_K d) (ld_KS d) k0;
          chunk = orki_run_loop_chunk ovr (ld_dt d) Kp Nc (ld_RB d)
      in map (\<lambda>(a, b). \<lparr>p_ks = ks, p_k0 = k0, p_Kp = Kp, p_n0 = n0, p_Nc = Nc, p_m0 = a, p_mc = b - a,
                p_mch = prog_height ovr d Kp Nc chunk (b - a)\<rparr>)
             (loop_upto (nat (ld_M d)) chunk (ld_M d) 0))"

definition loop_progs :: "int option \<Rightarrow> loop_dims \<Rightarrow> nat \<Rightarrow> nat \<Rightarrow> prog list" where
  "loop_progs ovr d Sn Sk =
     List.concat (map (\<lambda>ns. List.concat (map (\<lambda>ks.
         tile_progs ovr d (int ns) (int ks) (int ns * ld_NMAX d) (int ks * ld_KS d)) [0..<Sk])) [0..<Sn])"

definition extent_ok :: "loop_dims \<Rightarrow> int \<Rightarrow> int \<Rightarrow> prog \<Rightarrow> bool" where
  "extent_ok d afsz ccsz p \<longleftrightarrow>
     p_mch p * p_Kp p * elem_size (ld_dt d) \<le> afsz \<and> p_mch p * p_Nc p * 4 \<le> ccsz"

subsection \<open>The sizing pass covers every program\<close>

lemma loop_upto_starts:
  "0 < st \<Longrightarrow> i < n \<Longrightarrow> lo + int i * st < hi \<Longrightarrow> lo + int i * st \<in> fst ` set (loop_upto n st hi lo)"
proof (induction n st hi lo arbitrary: i rule: loop_upto.induct)
  case (2 b st hi lo)
  have lt: "lo < hi" using "2.prems" by (smt (verit) mult_nonneg_nonneg of_nat_0_le_iff)
  show ?case
  proof (cases i)
    case 0
    with lt show ?thesis by simp
  next
    case (Suc j)
    have "lo + st + int j * st \<in> fst ` set (loop_upto b st hi (lo + st))"
      using 2 lt Suc by (simp add: algebra_simps)
    with lt Suc show ?thesis by (simp add: algebra_simps)
  qed
qed simp

lemma in_starts: "0 < st \<Longrightarrow> int i * st < hi \<Longrightarrow> int i * st \<in> set (starts hi st)"
proof -
  assume a: "0 < st" "int i * st < hi"
  have "int i \<le> int i * st" using a(1) by (simp add: mult_le_cancel_left1)
  with a have "i < nat hi" by linarith
  with a loop_upto_starts [of st i "nat hi" 0 hi] show ?thesis by (simp add: starts_def)
qed

lemma fold_size_mono:
  "fst mx \<le> fst (fold (size_step ovr d) xs mx) \<and> snd mx \<le> snd (fold (size_step ovr d) xs mx)"
proof (induction xs arbitrary: mx)
  case (Cons x xs)
  have "fst mx \<le> fst (size_step ovr d x mx) \<and> snd mx \<le> snd (size_step ovr d x mx)"
    by (simp add: size_step_def Let_def)
  with Cons [of "size_step ovr d x mx"] show ?case by auto
qed simp

lemma fold_size_ge:
  "(k0, n0) \<in> set xs \<Longrightarrow>
     sized_rows ovr d (slice_len (ld_K d) (ld_KS d) k0) (slice_len (ld_N d) (ld_NMAX d) n0)
       * slice_len (ld_N d) (ld_NMAX d) n0 * 4 \<le> fst (fold (size_step ovr d) xs mx)
   \<and> sized_rows ovr d (slice_len (ld_K d) (ld_KS d) k0) (slice_len (ld_N d) (ld_NMAX d) n0)
       * slice_len (ld_K d) (ld_KS d) k0 * elem_size (ld_dt d) \<le> snd (fold (size_step ovr d) xs mx)"
proof (induction xs arbitrary: mx)
  case (Cons x xs)
  show ?case
  proof (cases "x = (k0, n0)")
    case True
    have "sized_rows ovr d (slice_len (ld_K d) (ld_KS d) k0) (slice_len (ld_N d) (ld_NMAX d) n0)
       * slice_len (ld_N d) (ld_NMAX d) n0 * 4 \<le> fst (size_step ovr d x mx)
      \<and> sized_rows ovr d (slice_len (ld_K d) (ld_KS d) k0) (slice_len (ld_N d) (ld_NMAX d) n0)
       * slice_len (ld_K d) (ld_KS d) k0 * elem_size (ld_dt d) \<le> snd (size_step ovr d x mx)"
      using True by (simp add: size_step_def Let_def)
    with fold_size_mono [of "size_step ovr d x mx" ovr d xs] show ?thesis by auto
  next
    case False
    with Cons show ?thesis by auto
  qed
qed simp

lemma run_loop_chunk_pos: "1 \<le> orki_run_loop_chunk ovr dt Kp Nc RB"
  by (auto simp: orki_run_loop_chunk_def Let_def)

lemma height_le_sized:
  assumes "1 \<le> ld_M d" "(a, b) \<in> set (loop_upto (nat (ld_M d)) chunk (ld_M d) 0)"
    "chunk = orki_run_loop_chunk ovr (ld_dt d) Kp Nc (ld_RB d)"
  shows "prog_height ovr d Kp Nc chunk (b - a) \<le> sized_rows ovr d Kp Nc"
proof -
  have c1: "1 \<le> chunk" by (simp add: assms(3) run_loop_chunk_pos)
  then have w: "b - a = chunk \<or> b - a = ld_M d mod chunk \<and> ld_M d mod chunk \<noteq> 0"
    using loop_upto_mod [OF _ assms(2)] by simp
  have bd: "1 \<le> b - a" "b - a \<le> chunk" "b - a \<le> ld_M d"
    using loop_upto_width [OF _ assms(2)] c1 by auto
  have pad: "orki_f16_mcpad Kp Nc s mc chunk \<le> chunk" for s mc
  proof (cases "find (orki_f16_mc_ok Kp Nc s) [mc..chunk]")
    case (Some t)
    with find_upto_Some [OF Some] show ?thesis by (simp add: orki_f16_mcpad_def)
  qed (use c1 in \<open>simp add: orki_f16_mcpad_def\<close>)
  have cm: "c_mod (ld_M d) chunk = ld_M d mod chunk" using assms(1) c1 by (simp add: c_mod_nonneg)
  show ?thesis
  proof (cases "ld_dt d = 0")
    case True
    have ch: "orki_run_loop_chunk ovr 0 Kp Nc (ld_RB d) = chunk" using assms(3) True by simp
    show ?thesis
    proof (cases "b - a = chunk")
      case True': True
      have "prog_height ovr d Kp Nc chunk (b - a) \<le> chunk" using pad True by (simp add: prog_height_def)
      also have "\<dots> \<le> (if chunk < ld_M d then chunk else ld_M d)" using True' bd by simp
      also have "\<dots> \<le> sized_rows ovr d Kp Nc" by (simp add: sized_rows_def Let_def True ch)
      finally show ?thesis .
    next
      case False
      with w have r: "b - a = ld_M d mod chunk" "ld_M d mod chunk \<noteq> 0" by auto
      then have "\<not> ld_M d mod chunk > ld_M d" using bd by simp
      with r True show ?thesis
        by (simp add: prog_height_def sized_rows_def Let_def ch cm)
    qed
  next
    case False
    with bd show ?thesis by (auto simp: prog_height_def sized_rows_def Let_def assms(3) [symmetric])
  qed
qed

lemma in_loop_progs:
  assumes "p \<in> set (loop_progs ovr d Sn Sk)"
  obtains ns ks a b where "ns < Sn" "ks < Sk"
    "(a, b) \<in> set (loop_upto (nat (ld_M d)) (orki_run_loop_chunk ovr (ld_dt d) (p_Kp p) (p_Nc p) (ld_RB d)) (ld_M d) 0)"
    "p_ks p = int ks" "p_k0 p = int ks * ld_KS d" "p_n0 p = int ns * ld_NMAX d" "p_m0 p = a" "p_mc p = b - a"
    "p_Nc p = slice_len (ld_N d) (ld_NMAX d) (p_n0 p)" "p_Kp p = slice_len (ld_K d) (ld_KS d) (p_k0 p)"
    "p_mch p = prog_height ovr d (p_Kp p) (p_Nc p)
        (orki_run_loop_chunk ovr (ld_dt d) (p_Kp p) (p_Nc p) (ld_RB d)) (b - a)"
  using assms by (auto simp: loop_progs_def tile_progs_def Let_def)

text \<open>\<open>Sn\<close> and \<open>Sk\<close> are the slice counts the weight was packed with.\<close>

definition slice_count :: "int \<Rightarrow> int \<Rightarrow> nat" where
  "slice_count whole step = nat (ceil_div whole step)"

lemma slice_count_lt:
  assumes "0 < step" "0 < whole" "i < slice_count whole step"
  shows "int i * step < whole"
proof -
  have "int i + 1 \<le> (whole + step - 1) div step"
    using assms by (simp add: slice_count_def ceil_div_def c_div_nonneg)
  then have "(int i + 1) * step \<le> whole + step - 1" using int_le_div_iff [OF assms(1)] by blast
  then show ?thesis by (simp add: algebra_simps)
qed

lemma slice_count_mem:
  assumes "0 < step" "0 \<le> x" "x < whole"
  shows "nat (x div step) < slice_count whole step"
proof -
  have "x div step * step \<le> x" using assms(1) int_le_div_iff [of step "x div step" x] by simp
  then have "(x div step + 1) * step \<le> whole + step - 1" using assms by (simp add: algebra_simps)
  then have "x div step + 1 \<le> (whole + step - 1) div step" using int_le_div_iff [OF assms(1)] by blast
  moreover have "0 \<le> x div step" using assms by (simp add: pos_imp_zdiv_nonneg_iff)
  ultimately show ?thesis using assms by (simp add: slice_count_def ceil_div_def c_div_nonneg)
qed

lemma sizing_covers_aux:
  assumes "1 \<le> ld_M d" "1 \<le> ld_K d" "1 \<le> ld_N d" "1 \<le> ld_KS d" "1 \<le> ld_NMAX d"
    "p \<in> set (loop_progs ovr d (slice_count (ld_N d) (ld_NMAX d)) (slice_count (ld_K d) (ld_KS d)))"
  shows "extent_ok d (snd (run_loop_sizes ovr d)) (fst (run_loop_sizes ovr d)) p"
proof -
  from assms(6) obtain ns ks a b where p: "ns < slice_count (ld_N d) (ld_NMAX d)"
    "ks < slice_count (ld_K d) (ld_KS d)"
    "(a, b) \<in> set (loop_upto (nat (ld_M d)) (orki_run_loop_chunk ovr (ld_dt d) (p_Kp p) (p_Nc p) (ld_RB d)) (ld_M d) 0)"
    "p_k0 p = int ks * ld_KS d" "p_n0 p = int ns * ld_NMAX d"
    "p_Nc p = slice_len (ld_N d) (ld_NMAX d) (p_n0 p)" "p_Kp p = slice_len (ld_K d) (ld_KS d) (p_k0 p)"
    "p_mch p = prog_height ovr d (p_Kp p) (p_Nc p)
        (orki_run_loop_chunk ovr (ld_dt d) (p_Kp p) (p_Nc p) (ld_RB d)) (b - a)"
    by (rule in_loop_progs)
  have n0: "p_n0 p < ld_N d" and k0: "p_k0 p < ld_K d"
    using slice_count_lt p(1,2,4,5) assms by simp_all
  then have pos: "0 \<le> p_Nc p" "0 \<le> p_Kp p * elem_size (ld_dt d)"
    using assms p(6,7) by (auto simp: slice_len_def elem_size_def)
  have h: "p_mch p \<le> sized_rows ovr d (p_Kp p) (p_Nc p)"
    unfolding p(8) by (rule height_le_sized [OF assms(1) p(3)]) simp
  have "(p_k0 p, p_n0 p) \<in> set (List.concat (map (\<lambda>k0. map (\<lambda>n0. (k0, n0)) (starts (ld_N d) (ld_NMAX d)))
      (starts (ld_K d) (ld_KS d))))"
    using in_starts [of "ld_NMAX d" ns "ld_N d"] in_starts [of "ld_KS d" ks "ld_K d"] n0 k0 p(4,5) assms by auto
  from fold_size_ge [OF this, of ovr d "(0, 0)"]
  have s: "sized_rows ovr d (p_Kp p) (p_Nc p) * p_Nc p * 4 \<le> fst (run_loop_sizes ovr d)"
    "sized_rows ovr d (p_Kp p) (p_Nc p) * (p_Kp p * elem_size (ld_dt d)) \<le> snd (run_loop_sizes ovr d)"
    unfolding run_loop_sizes_def p(6) [symmetric] p(7) [symmetric] by (auto simp: mult.assoc)
  show ?thesis
    using mult_right_mono [OF h pos(1)] mult_right_mono [OF h pos(2)] s
    by (simp add: extent_ok_def mult.assoc)
qed

text \<open>C13: the buffers the sizing pass asks for hold every program the emitting loop builds, padding
  rows included, so neither extent check of \<open>orki_run\<close> fires on buffers of those sizes.\<close>

theorem run_loop_sizing_covers:
  assumes "1 \<le> ld_M d" "1 \<le> ld_K d" "1 \<le> ld_N d" "1 \<le> ld_KS d" "1 \<le> ld_NMAX d"
    "p \<in> set (loop_progs ovr d (slice_count (ld_N d) (ld_NMAX d)) (slice_count (ld_K d) (ld_KS d)))"
  shows "extent_ok d (snd (run_loop_sizes ovr d)) (fst (run_loop_sizes ovr d)) p"
  by (rule sizing_covers_aux [OF assms])

lemma loop_progs_nonempty:
  "0 < Sn \<Longrightarrow> 0 < Sk \<Longrightarrow> 1 \<le> ld_M d \<Longrightarrow> \<exists>p. p \<in> set (loop_progs ovr d Sn Sk)"
proof -
  assume a: "0 < Sn" "0 < Sk" "1 \<le> ld_M d"
  have "tile_progs ovr d 0 0 0 0 \<noteq> []"
    using loop_upto_nonempty [of 0 "ld_M d" "nat (ld_M d)"] a by (simp add: tile_progs_def Let_def)
  then obtain p where "p \<in> set (tile_progs ovr d 0 0 0 0)" using list.set_sel(1) by blast
  with a have "p \<in> set (loop_progs ovr d Sn Sk)"
    by (auto simp: loop_progs_def intro!: bexI [of _ 0])
  then show ?thesis by blast
qed

theorem run_loop_sizing_covers_witness:
  "\<exists>d p. ld_M d = 33 \<and> ld_K d = 1100 \<and> p \<in> set (loop_progs None d 1 2)
     \<and> extent_ok d (snd (run_loop_sizes None d)) (fst (run_loop_sizes None d)) p"
proof -
  let ?d = "\<lparr>ld_dt = 0, ld_M = 33, ld_K = 1100, ld_N = 64, ld_KS = 1024, ld_NMAX = 4096, ld_RB = 32768\<rparr>"
  have c: "slice_count 64 4096 = 1" "slice_count 1100 1024 = 2"
    by (simp_all add: slice_count_def ceil_div_def)
  obtain p where p: "p \<in> set (loop_progs None ?d 1 2)"
    using loop_progs_nonempty [of 1 2 ?d None] by auto
  then have "extent_ok ?d (snd (run_loop_sizes None ?d)) (fst (run_loop_sizes None ?d)) p"
    using run_loop_sizing_covers [of ?d p None] c by simp
  with p show ?thesis by (intro exI [of _ ?d] exI [of _ p]) simp
qed

subsection \<open>Running the programs\<close>

text \<open>\<open>memcpy\<close> of \<open>len\<close> elements, and the gather of the chunk's rows, one \<open>memcpy\<close> per row.\<close>

definition copy_run :: "(int \<Rightarrow> 'v) \<Rightarrow> int \<Rightarrow> (int \<Rightarrow> 'v) \<Rightarrow> int \<Rightarrow> int \<Rightarrow> int \<Rightarrow> 'v" where
  "copy_run dst q src p len = (\<lambda>i. if q \<le> i \<and> i < q + len then src (p + (i - q)) else dst i)"

definition add_run :: "(int \<Rightarrow> 'v::plus) \<Rightarrow> int \<Rightarrow> (int \<Rightarrow> 'v) \<Rightarrow> int \<Rightarrow> int \<Rightarrow> int \<Rightarrow> 'v" where
  "add_run dst q src p len = (\<lambda>i. if q \<le> i \<and> i < q + len then dst i + src (p + (i - q)) else dst i)"

definition gather_rows :: "loop_dims \<Rightarrow> (int \<Rightarrow> 'v) \<Rightarrow> prog \<Rightarrow> (int \<Rightarrow> 'v) \<Rightarrow> int \<Rightarrow> 'v" where
  "gather_rows d A p af =
     fold (\<lambda>r af. copy_run af (r * p_Kp p) A ((p_m0 p + r) * ld_K d + p_k0 p) (p_Kp p)) [0..p_mc p - 1] af"

text \<open>The K-slice accumulate: slice 0 stores, the others add.\<close>

definition accumulate_rows :: "loop_dims \<Rightarrow> prog \<Rightarrow> (int \<Rightarrow> 'v::plus) \<Rightarrow> (int \<Rightarrow> 'v) \<Rightarrow> int \<Rightarrow> 'v" where
  "accumulate_rows d p cc cres =
     fold (\<lambda>r cres.
        let q = (p_m0 p + r) * ld_N d + p_n0 p in
        if p_ks p = 0 then copy_run cres q cc (r * p_Nc p) (p_Nc p)
        else add_run cres q cc (r * p_Nc p) (p_Nc p)) [0..p_mc p - 1] cres"

record 'v rl_state =
  rl_af :: "int \<Rightarrow> 'v"
  rl_cres :: "int \<Rightarrow> 'v"

text \<open>One round of the innermost loop: refuse a tile with no legal height, check both extents, gather,
  run, accumulate. \<open>W k0 n0\<close> is the packed weight slice; a submit that fails gives \<open>None\<close>.\<close>

definition run_prog ::
  "(prog \<Rightarrow> (int \<Rightarrow> 'v) \<Rightarrow> 'w \<Rightarrow> (int \<Rightarrow> 'v) option) \<Rightarrow> loop_dims \<Rightarrow> int \<Rightarrow> int \<Rightarrow> (int \<Rightarrow> int \<Rightarrow> 'w) \<Rightarrow>
     (int \<Rightarrow> 'v) \<Rightarrow> prog \<Rightarrow> ('v::plus) rl_state \<Rightarrow> 'v rl_state option" where
  "run_prog npu d afsz ccsz W A p s =
     (if ld_dt d = 0 \<and> p_mch p < 1 then None
      else if \<not> extent_ok d afsz ccsz p then None
      else
        let af = gather_rows d A p (rl_af s) in
        case npu p af (W (p_k0 p) (p_n0 p)) of
          None \<Rightarrow> None
        | Some cc \<Rightarrow> Some \<lparr>rl_af = af, rl_cres = accumulate_rows d p cc (rl_cres s)\<rparr>)"

fun run_progs where
  "run_progs npu d afsz ccsz W A [] s = Some s"
| "run_progs npu d afsz ccsz W A (p # ps) s =
     (case run_prog npu d afsz ccsz W A p s of None \<Rightarrow> None | Some s' \<Rightarrow> run_progs npu d afsz ccsz W A ps s')"

text \<open>The whole path: size the buffers (growing them to the maxima), clear \<open>cres\<close>, run.\<close>

definition orki_run_loop ::
  "int option \<Rightarrow> (prog \<Rightarrow> (int \<Rightarrow> 'v) \<Rightarrow> 'w \<Rightarrow> (int \<Rightarrow> 'v) option) \<Rightarrow> loop_dims \<Rightarrow> nat \<Rightarrow> nat \<Rightarrow> (int \<Rightarrow> int \<Rightarrow> 'w) \<Rightarrow>
     (int \<Rightarrow> 'v) \<Rightarrow> (int \<Rightarrow> 'v) \<Rightarrow> int \<Rightarrow> int \<Rightarrow> (int \<Rightarrow> ('v::{plus,zero})) option" where
  "orki_run_loop ovr npu d Sn Sk W A af0 afsz ccsz =
     (let (maxout, maxaf) = run_loop_sizes ovr d;
          ccsz = (if ccsz < maxout then maxout else ccsz);
          afsz = (if afsz < maxaf then maxaf else afsz)
      in map_option rl_cres
           (run_progs npu d afsz ccsz W A (loop_progs ovr d Sn Sk) \<lparr>rl_af = af0, rl_cres = (\<lambda>_. 0)\<rparr>))"

lemma row_window:
  fixes N m n R n0 Nc :: int
  assumes "0 \<le> n" "n < N" "0 \<le> n0" "n0 + Nc \<le> N"
  shows "R * N + n0 \<le> m * N + n \<and> m * N + n < R * N + n0 + Nc \<longleftrightarrow> R = m \<and> n0 \<le> n \<and> n < n0 + Nc"
proof -
  have "R = m" if "R * N + n0 \<le> m * N + n" "m * N + n < R * N + n0 + Nc"
  proof (rule ccontr)
    assume "R \<noteq> m"
    then consider "R + 1 \<le> m" | "m + 1 \<le> R" by linarith
    then show False
    proof cases
      case 1
      then have "(R + 1) * N \<le> m * N" using assms by (intro mult_right_mono) auto
      with that assms show False by (simp add: algebra_simps)
    next
      case 2
      then have "(m + 1) * N \<le> R * N" using assms by (intro mult_right_mono) auto
      with that assms show False by (simp add: algebra_simps)
    qed
  qed
  then show ?thesis by auto
qed

lemma upto_snoc: "[0..int (Suc k) - 1] = [0..int k - 1] @ [int k]"
  using upto_rec2 [of 0 "int k"] by simp

lemma gather_nth:
  assumes "0 \<le> r" "r < p_mc p" "0 \<le> j" "j < p_Kp p"
  shows "gather_rows d A p af (r * p_Kp p + j) = A ((p_m0 p + r) * ld_K d + p_k0 p + j)"
proof -
  have "fold (\<lambda>r af. copy_run af (r * p_Kp p) A ((p_m0 p + r) * ld_K d + p_k0 p) (p_Kp p)) [0..int k - 1] af (r * p_Kp p + j)
      = (if r < int k then A ((p_m0 p + r) * ld_K d + p_k0 p + j) else af (r * p_Kp p + j))" for k
  proof (induction k)
    case 0
    with assms(1) show ?case by simp
  next
    case (Suc k)
    then show ?case
      using row_window [of j "p_Kp p" 0 "p_Kp p" "int k" r] assms
      by (auto simp del: of_nat_Suc simp: upto_snoc copy_run_def algebra_simps)
  qed
  from this [of "nat (p_mc p)"] show ?thesis using assms by (simp add: gather_rows_def)
qed

definition hits :: "int \<Rightarrow> int \<Rightarrow> prog \<Rightarrow> bool" where
  "hits m n p \<longleftrightarrow> p_m0 p \<le> m \<and> m < p_m0 p + p_mc p \<and> p_n0 p \<le> n \<and> n < p_n0 p + p_Nc p"

lemma accumulate_nth:
  assumes "0 \<le> n" "n < ld_N d" "0 \<le> p_n0 p" "p_n0 p + p_Nc p \<le> ld_N d" "0 \<le> p_mc p"
  shows "accumulate_rows d p cc cres (m * ld_N d + n) =
    (if hits m n p then
       if p_ks p = 0 then cc ((m - p_m0 p) * p_Nc p + (n - p_n0 p))
       else cres (m * ld_N d + n) + cc ((m - p_m0 p) * p_Nc p + (n - p_n0 p))
     else cres (m * ld_N d + n))"
proof -
  define f where "f = (\<lambda>r cres. let q = (p_m0 p + r) * ld_N d + p_n0 p in
        if p_ks p = 0 then copy_run cres q cc (r * p_Nc p) (p_Nc p)
        else add_run cres q cc (r * p_Nc p) (p_Nc p))"
  have step: "f (int k) g (m * ld_N d + n) =
      (if m = p_m0 p + int k \<and> p_n0 p \<le> n \<and> n < p_n0 p + p_Nc p then
         if p_ks p = 0 then cc (int k * p_Nc p + (n - p_n0 p)) else g (m * ld_N d + n) + cc (int k * p_Nc p + (n - p_n0 p))
       else g (m * ld_N d + n))" for k g
    using row_window [OF assms(1-4), of "p_m0 p + int k" m]
    by (auto simp: f_def Let_def copy_run_def add_run_def algebra_simps)
  have "fold f [0..int k - 1] cres (m * ld_N d + n) =
     (if p_m0 p \<le> m \<and> m < p_m0 p + int k \<and> p_n0 p \<le> n \<and> n < p_n0 p + p_Nc p then
       if p_ks p = 0 then cc ((m - p_m0 p) * p_Nc p + (n - p_n0 p))
       else cres (m * ld_N d + n) + cc ((m - p_m0 p) * p_Nc p + (n - p_n0 p))
     else cres (m * ld_N d + n))" for k
  proof (induction k)
    case (Suc k)
    then show ?case
      unfolding upto_snoc fold_append o_apply fold.simps id_apply step by auto
  qed auto
  from this [of "nat (p_mc p)"] show ?thesis
    using assms(5) by (simp add: accumulate_rows_def hits_def f_def)
qed

text \<open>What the model asks of the hardware: a program inside the envelope computes \<open>dot\<close> of each staged
  row with each column of its weight slice.\<close>

definition prog_legal :: "int option \<Rightarrow> loop_dims \<Rightarrow> prog \<Rightarrow> bool" where
  "prog_legal ovr d p \<longleftrightarrow>
     1 \<le> p_mch p \<and> p_mch p \<le> orki_run_loop_chunk ovr (ld_dt d) (p_Kp p) (p_Nc p) (ld_RB d)
     \<and> (ld_dt d = 0 \<longrightarrow> orki_f16_mc_ok (p_Kp p) (p_Nc p) (orki_f16_sched (p_Kp p)) (p_mch p))"

definition npu_computes ::
  "(int \<Rightarrow> (int \<Rightarrow> 'v) \<Rightarrow> 'w \<Rightarrow> int \<Rightarrow> 'v) \<Rightarrow> int option \<Rightarrow> loop_dims \<Rightarrow>
     (prog \<Rightarrow> (int \<Rightarrow> 'v) \<Rightarrow> 'w \<Rightarrow> (int \<Rightarrow> 'v) option) \<Rightarrow> bool" where
  "npu_computes dot ovr d npu \<longleftrightarrow>
     (\<forall>p af w. prog_legal ovr d p \<longrightarrow>
        (\<exists>cc. npu p af w = Some cc \<and>
          (\<forall>r c. 0 \<le> r \<longrightarrow> r < p_mch p \<longrightarrow> 0 \<le> c \<longrightarrow> c < p_Nc p \<longrightarrow>
             cc (r * p_Nc p + c) = dot (p_Kp p) (\<lambda>j. af (r * p_Kp p + j)) w c)))"

definition dot_local :: "(int \<Rightarrow> (int \<Rightarrow> 'v) \<Rightarrow> 'w \<Rightarrow> int \<Rightarrow> 'v) \<Rightarrow> bool" where
  "dot_local dot \<longleftrightarrow> (\<forall>Kp f g w c. (\<forall>j. 0 \<le> j \<longrightarrow> j < Kp \<longrightarrow> f j = g j) \<longrightarrow> dot Kp f w c = dot Kp g w c)"

text \<open>The partial product of one K-slice for one output element, and the host's sum over the slices.\<close>

definition slice_dot where
  "slice_dot dot d W A m n ks =
     dot (slice_len (ld_K d) (ld_KS d) (int ks * ld_KS d)) (\<lambda>j. A (m * ld_K d + int ks * ld_KS d + j))
       (W (int ks * ld_KS d) (n div ld_NMAX d * ld_NMAX d)) (n - n div ld_NMAX d * ld_NMAX d)"

definition host_sum :: "(nat \<Rightarrow> 'v::{plus,zero}) \<Rightarrow> nat \<Rightarrow> 'v" where
  "host_sum f Sk = fold (\<lambda>ks acc. if ks = 0 then f ks else acc + f ks) [0..<Sk] 0"

text \<open>On fp16 the chunk is the measured ceiling itself: the default-template cap never lowers it.\<close>

lemma run_chunk_f16:
  assumes "1 \<le> Nc" "1 \<le> Kp" "Kp \<le> 16384"
  shows "orki_run_loop_chunk None 0 Kp Nc RB = orki_f16_mcap_n None Kp (orki_f16_sched Kp) Nc"
proof (cases "orki_f16_sched Kp")
  case True
  with assms mcap_n_pos [of None Kp True Nc] show ?thesis by (simp add: orki_run_loop_chunk_def Let_def)
next
  case False
  have "16384 div Kp \<le> 32768 div Kp" "1 \<le> 16384 div Kp"
    using assms int_le_div_iff [of Kp 1 16384] by (simp_all add: zdiv_mono1)
  with False assms show ?thesis
    by (simp add: orki_run_loop_chunk_def Let_def mcap_n_unsched c_div_nonneg)
qed

lemma progs_legal:
  assumes "1 \<le> ld_M d" "1 \<le> ld_K d" "1 \<le> ld_N d" "1 \<le> ld_KS d" "ld_KS d \<le> 16384" "1 \<le> ld_NMAX d"
    "p \<in> set (loop_progs None d (slice_count (ld_N d) (ld_NMAX d)) (slice_count (ld_K d) (ld_KS d)))"
  shows "prog_legal None d p \<and> 0 \<le> p_mc p \<and> p_mc p \<le> p_mch p \<and> 0 \<le> p_n0 p
    \<and> p_n0 p + p_Nc p \<le> ld_N d \<and> 0 \<le> p_m0 p \<and> p_m0 p + p_mc p \<le> ld_M d"
proof -
  from assms(7) obtain ns ks a b where p: "ns < slice_count (ld_N d) (ld_NMAX d)"
    "ks < slice_count (ld_K d) (ld_KS d)"
    "(a, b) \<in> set (loop_upto (nat (ld_M d)) (orki_run_loop_chunk None (ld_dt d) (p_Kp p) (p_Nc p) (ld_RB d)) (ld_M d) 0)"
    "p_k0 p = int ks * ld_KS d" "p_n0 p = int ns * ld_NMAX d" "p_m0 p = a" "p_mc p = b - a"
    "p_Nc p = slice_len (ld_N d) (ld_NMAX d) (p_n0 p)" "p_Kp p = slice_len (ld_K d) (ld_KS d) (p_k0 p)"
    "p_mch p = prog_height None d (p_Kp p) (p_Nc p)
        (orki_run_loop_chunk None (ld_dt d) (p_Kp p) (p_Nc p) (ld_RB d)) (b - a)"
    by (rule in_loop_progs)
  let ?ch = "orki_run_loop_chunk None (ld_dt d) (p_Kp p) (p_Nc p) (ld_RB d)"
  have k: "p_n0 p < ld_N d" "p_k0 p < ld_K d" using slice_count_lt p(1,2,4,5) assms by simp_all
  have n0: "0 \<le> p_n0 p" "p_n0 p + p_Nc p \<le> ld_N d" "1 \<le> p_Nc p" and Kp: "1 \<le> p_Kp p" "p_Kp p \<le> 16384"
    using assms p(5,8,9) k by (auto simp: slice_len_def)
  have w: "0 \<le> a" "1 \<le> b - a" "b - a \<le> ?ch" "b \<le> ld_M d"
    using loop_upto_width [OF _ p(3)] run_loop_chunk_pos [of None "ld_dt d" "p_Kp p" "p_Nc p" "ld_RB d"] by auto
  have "p_mc p \<le> p_mch p \<and> p_mch p \<le> ?ch
      \<and> (ld_dt d = 0 \<longrightarrow> orki_f16_mc_ok (p_Kp p) (p_Nc p) (orki_f16_sched (p_Kp p)) (p_mch p))"
  proof (cases "ld_dt d = 0")
    case True
    have ok: "orki_f16_mc_ok (p_Kp p) (p_Nc p) (orki_f16_sched (p_Kp p)) ?ch"
      using run_chunk_f16 [OF n0(3) Kp] mcap_n_legal_aux [OF n0(3) Kp] True by simp
    show ?thesis
    proof (cases "find (orki_f16_mc_ok (p_Kp p) (p_Nc p) (orki_f16_sched (p_Kp p))) [b - a..?ch]")
      case None
      with ok w show ?thesis by (auto simp: find_upto_None)
    next
      case (Some t)
      with find_upto_Some [OF Some] p(7,10) True show ?thesis by (simp add: prog_height_def orki_f16_mcpad_def)
    qed
  next
    case False
    with p(7,10) w show ?thesis by (simp add: prog_height_def)
  qed
  with w n0 p(6,7) show ?thesis by (auto simp: prog_legal_def)
qed

lemma run_prog_nth:
  assumes "npu_computes dot None d npu" "dot_local dot" "prog_legal None d p" "0 \<le> p_mc p" "p_mc p \<le> p_mch p"
    "extent_ok d afsz ccsz p" "0 \<le> p_n0 p" "p_n0 p + p_Nc p \<le> ld_N d"
  shows "\<exists>s'. run_prog npu d afsz ccsz W A p s = Some s' \<and>
    (\<forall>m n. 0 \<le> n \<longrightarrow> n < ld_N d \<longrightarrow> rl_cres s' (m * ld_N d + n) =
       (if hits m n p then
          let v = dot (p_Kp p) (\<lambda>j. A (m * ld_K d + p_k0 p + j)) (W (p_k0 p) (p_n0 p)) (n - p_n0 p)
          in if p_ks p = 0 then v else rl_cres s (m * ld_N d + n) + v
        else rl_cres s (m * ld_N d + n)))"
proof -
  let ?af = "gather_rows d A p (rl_af s)" and ?w = "W (p_k0 p) (p_n0 p)"
  obtain cc where cc: "npu p ?af ?w = Some cc"
    "\<And>r c. 0 \<le> r \<Longrightarrow> r < p_mch p \<Longrightarrow> 0 \<le> c \<Longrightarrow> c < p_Nc p \<Longrightarrow>
       cc (r * p_Nc p + c) = dot (p_Kp p) (\<lambda>j. ?af (r * p_Kp p + j)) ?w c"
    using assms(1,3) unfolding npu_computes_def by meson
  have v: "cc ((m - p_m0 p) * p_Nc p + (n - p_n0 p))
      = dot (p_Kp p) (\<lambda>j. A (m * ld_K d + p_k0 p + j)) ?w (n - p_n0 p)" if "hits m n p" for m n
  proof -
    have h: "0 \<le> m - p_m0 p" "m - p_m0 p < p_mc p" "0 \<le> n - p_n0 p" "n - p_n0 p < p_Nc p"
      using that by (auto simp: hits_def)
    have "dot (p_Kp p) (\<lambda>j. ?af ((m - p_m0 p) * p_Kp p + j)) ?w (n - p_n0 p)
        = dot (p_Kp p) (\<lambda>j. A (m * ld_K d + p_k0 p + j)) ?w (n - p_n0 p)"
      by (rule assms(2) [unfolded dot_local_def, rule_format])
        (simp add: gather_nth [OF h(1,2)])
    with cc(2) [OF h(1) _ h(3,4)] h assms(5) show ?thesis by simp
  qed
  have "\<not> p_mch p < 1" using assms(3) by (simp add: prog_legal_def)
  then have "run_prog npu d afsz ccsz W A p s
      = Some \<lparr>rl_af = ?af, rl_cres = accumulate_rows d p cc (rl_cres s)\<rparr>"
    using assms(6) cc(1) by (simp add: run_prog_def)
  then show ?thesis using accumulate_nth [OF _ _ assms(7,8,4), of _ cc "rl_cres s"] v by (simp add: Let_def)
qed

definition prog_val where
  "prog_val dot d W A m n p = dot (p_Kp p) (\<lambda>j. A (m * ld_K d + p_k0 p + j)) (W (p_k0 p) (p_n0 p)) (n - p_n0 p)"

lemma run_progs_nth:
  assumes "npu_computes dot None d npu" "dot_local dot"
    "\<And>p. p \<in> set ps \<Longrightarrow> prog_legal None d p \<and> 0 \<le> p_mc p \<and> p_mc p \<le> p_mch p \<and> extent_ok d afsz ccsz p
       \<and> 0 \<le> p_n0 p \<and> p_n0 p + p_Nc p \<le> ld_N d"
  shows "\<exists>s'. run_progs npu d afsz ccsz W A ps s = Some s' \<and>
    (\<forall>m n. 0 \<le> n \<longrightarrow> n < ld_N d \<longrightarrow> rl_cres s' (m * ld_N d + n) =
       fold (\<lambda>p acc. if p_ks p = 0 then prog_val dot d W A m n p else acc + prog_val dot d W A m n p)
         (filter (hits m n) ps) (rl_cres s (m * ld_N d + n)))"
  using assms(3)
proof (induction ps arbitrary: s)
  case (Cons p ps)
  obtain s1 where s1: "run_prog npu d afsz ccsz W A p s = Some s1"
    "\<forall>m n. 0 \<le> n \<longrightarrow> n < ld_N d \<longrightarrow> rl_cres s1 (m * ld_N d + n) =
       (if hits m n p then let v = prog_val dot d W A m n p
          in if p_ks p = 0 then v else rl_cres s (m * ld_N d + n) + v
        else rl_cres s (m * ld_N d + n))"
    using run_prog_nth [OF assms(1,2), of p afsz ccsz W A s] Cons.prems [of p] unfolding prog_val_def by auto
  obtain s' where "run_progs npu d afsz ccsz W A ps s1 = Some s'"
    "\<forall>m n. 0 \<le> n \<longrightarrow> n < ld_N d \<longrightarrow> rl_cres s' (m * ld_N d + n) =
       fold (\<lambda>p acc. if p_ks p = 0 then prog_val dot d W A m n p else acc + prog_val dot d W A m n p)
         (filter (hits m n) ps) (rl_cres s1 (m * ld_N d + n))"
    using Cons.IH [of s1] Cons.prems by auto
  with s1 show ?case by (auto simp: Let_def)
qed simp

lemma tiles_filter_single:
  assumes "tiles lo hi xs" "lo \<le> x" "x < hi"
  shows "\<exists>a b. filter (\<lambda>(a, b). a \<le> x \<and> x < b) xs = [(a, b)] \<and> (a, b) \<in> set xs \<and> a \<le> x \<and> x < b"
proof -
  obtain ab where ab: "filter (\<lambda>(a, b). a \<le> x \<and> x < b) xs = [ab]"
    using tiles_filter_length [OF assms] by (metis One_nat_def Suc_length_conv length_0_conv)
  then have "ab \<in> {ab \<in> set xs. (\<lambda>(a, b). a \<le> x \<and> x < b) ab}" by (metis list.set_intros(1) set_filter)
  with ab show ?thesis by (cases ab) auto
qed

lemma tile_progs_hits:
  assumes "0 \<le> m" "m < ld_M d" "1 \<le> ld_M d"
  shows "\<exists>p. filter (hits m n) (tile_progs ovr d ns ks n0 k0) =
      (if n0 \<le> n \<and> n < n0 + slice_len (ld_N d) (ld_NMAX d) n0 then [p] else [])
    \<and> p_ks p = ks \<and> p_k0 p = k0 \<and> p_n0 p = n0 \<and> p_Kp p = slice_len (ld_K d) (ld_KS d) k0"
proof -
  let ?Nc = "slice_len (ld_N d) (ld_NMAX d) n0" and ?Kp = "slice_len (ld_K d) (ld_KS d) k0"
  let ?ch = "orki_run_loop_chunk ovr (ld_dt d) ?Kp ?Nc (ld_RB d)"
  let ?mk = "\<lambda>(a, b). \<lparr>p_ks = ks, p_k0 = k0, p_Kp = ?Kp, p_n0 = n0, p_Nc = ?Nc, p_m0 = a, p_mc = b - a,
                p_mch = prog_height ovr d ?Kp ?Nc ?ch (b - a)\<rparr>"
  let ?xs = "loop_upto (nat (ld_M d)) ?ch (ld_M d) 0"
  have tp: "tile_progs ovr d ns ks n0 k0 = map ?mk ?xs" by (simp add: tile_progs_def Let_def)
  have h: "hits m n \<circ> ?mk = (\<lambda>(a, b). (n0 \<le> n \<and> n < n0 + ?Nc) \<and> a \<le> m \<and> m < b)"
    by (auto simp: hits_def fun_eq_iff)
  have "tiles 0 (ld_M d) ?xs"
    using run_loop_chunk_pos [of ovr "ld_dt d" ?Kp ?Nc "ld_RB d"] assms by (intro loop_upto_tiles) auto
  from tiles_filter_single [OF this assms(1,2)] obtain a b
    where ab: "filter (\<lambda>(a, b). a \<le> m \<and> m < b) ?xs = [(a, b)]" by blast
  show ?thesis
  proof (cases "n0 \<le> n \<and> n < n0 + ?Nc")
    case True
    with ab show ?thesis unfolding tp filter_map h by (intro exI [of _ "?mk (a, b)"]) simp
  next
    case False
    then show ?thesis unfolding tp filter_map h by (intro exI [of _ "?mk (a, b)"]) (auto simp: case_prod_unfold)
  qed
qed

lemma concat_pick:
  assumes "a < S" "\<And>i. i < S \<Longrightarrow> i \<noteq> a \<Longrightarrow> f i = []"
  shows "concat (map f [0..<S]) = f a"
proof -
  have "concat (map f [0..<k]) = (if a < k then f a else [])" if "k \<le> S" for k
    using that by (induction k) (use assms in \<open>auto simp: less_Suc_eq\<close>)
  with assms(1) show ?thesis by simp
qed

lemma in_slice_iff:
  assumes "1 \<le> step" "0 \<le> n" "n < whole"
  shows "int i * step \<le> n \<and> n < int i * step + slice_len whole step (int i * step) \<longleftrightarrow> i = nat (n div step)"
proof
  assume a: "int i * step \<le> n \<and> n < int i * step + slice_len whole step (int i * step)"
  then have "n < int i * step + step" by (auto simp: slice_len_def split: if_splits)
  with a have "n div step = int i" by (intro int_div_eq) (auto simp: mult.commute)
  then show "i = nat (n div step)" by simp
next
  assume "i = nat (n div step)"
  then have i: "int i = n div step" using assms by (simp add: pos_imp_zdiv_nonneg_iff)
  have "n div step * step \<le> n" using assms int_le_div_iff [of step "n div step" n] by simp
  moreover have "n < n div step * step + step"
    using assms int_le_div_iff [of step "n div step + 1" n] by (simp add: algebra_simps)
  ultimately show "int i * step \<le> n \<and> n < int i * step + slice_len whole step (int i * step)"
    using assms unfolding i slice_len_def by auto
qed

lemma loop_progs_hits:
  assumes "1 \<le> ld_M d" "1 \<le> ld_NMAX d" "0 \<le> m" "m < ld_M d" "0 \<le> n" "n < ld_N d"
  obtains P where "filter (hits m n) (loop_progs ovr d (slice_count (ld_N d) (ld_NMAX d)) Sk) = map P [0..<Sk]"
    "\<And>ks. p_ks (P ks) = int ks \<and> p_k0 (P ks) = int ks * ld_KS d \<and> p_n0 (P ks) = n div ld_NMAX d * ld_NMAX d
       \<and> p_Kp (P ks) = slice_len (ld_K d) (ld_KS d) (int ks * ld_KS d)"
proof -
  let ?t = "\<lambda>ns ks. tile_progs ovr d (int ns) (int ks) (int ns * ld_NMAX d) (int ks * ld_KS d)"
  let ?a = "nat (n div ld_NMAX d)"
  have ia: "int ?a = n div ld_NMAX d" using assms by (simp add: pos_imp_zdiv_nonneg_iff)
  have "\<forall>ks. \<exists>p. filter (hits m n) (?t ?a ks) = [p] \<and> p_ks p = int ks \<and> p_k0 p = int ks * ld_KS d
      \<and> p_n0 p = int ?a * ld_NMAX d \<and> p_Kp p = slice_len (ld_K d) (ld_KS d) (int ks * ld_KS d)"
    using tile_progs_hits [OF assms(3,4,1)] in_slice_iff [OF assms(2,5,6), of ?a] by (metis (no_types, lifting))
  then obtain P where P: "\<And>ks. filter (hits m n) (?t ?a ks) = [P ks]"
    "\<And>ks. p_ks (P ks) = int ks \<and> p_k0 (P ks) = int ks * ld_KS d
      \<and> p_n0 (P ks) = int ?a * ld_NMAX d \<and> p_Kp (P ks) = slice_len (ld_K d) (ld_KS d) (int ks * ld_KS d)"
    by metis
  have other: "filter (hits m n) (?t ns ks) = []" if "ns \<noteq> ?a" for ns ks
    using tile_progs_hits [OF assms(3,4,1), of n ovr "int ns" "int ks" "int ns * ld_NMAX d" "int ks * ld_KS d"]
      in_slice_iff [OF assms(2,5,6), of ns] that by auto
  have "filter (hits m n) (loop_progs ovr d (slice_count (ld_N d) (ld_NMAX d)) Sk)
     = concat (map (\<lambda>ns. concat (map (\<lambda>ks. filter (hits m n) (?t ns ks)) [0..<Sk]))
         [0..<slice_count (ld_N d) (ld_NMAX d)])"
    by (simp add: loop_progs_def filter_concat map_concat o_def)
  also have "\<dots> = concat (map (\<lambda>ks. filter (hits m n) (?t ?a ks)) [0..<Sk])"
    using slice_count_mem [of "ld_NMAX d" n "ld_N d"] assms other by (intro concat_pick) auto
  also have "\<dots> = map P [0..<Sk]" by (simp only: P(1) concat_map_singleton)
  finally show ?thesis using that [of P] P(2) ia by simp
qed

lemma run_loop_product_aux:
  assumes "1 \<le> ld_M d" "1 \<le> ld_K d" "1 \<le> ld_N d" "1 \<le> ld_KS d" "ld_KS d \<le> 16384" "1 \<le> ld_NMAX d"
    "npu_computes dot None d npu" "dot_local dot"
  shows "\<exists>C. orki_run_loop None npu d (slice_count (ld_N d) (ld_NMAX d)) (slice_count (ld_K d) (ld_KS d))
        W A af0 afsz ccsz = Some C \<and>
    (\<forall>m n. 0 \<le> m \<longrightarrow> m < ld_M d \<longrightarrow> 0 \<le> n \<longrightarrow> n < ld_N d \<longrightarrow>
       C (m * ld_N d + n) = host_sum (slice_dot dot d W A m n) (slice_count (ld_K d) (ld_KS d)))"
proof -
  let ?Sn = "slice_count (ld_N d) (ld_NMAX d)" and ?Sk = "slice_count (ld_K d) (ld_KS d)"
  let ?ps = "loop_progs None d ?Sn ?Sk"
  obtain maxout maxaf where sz: "run_loop_sizes None d = (maxout, maxaf)" by fastforce
  define cs where "cs = (if ccsz < maxout then maxout else ccsz)"
  define as where "as = (if afsz < maxaf then maxaf else afsz)"
  have ext: "extent_ok d as cs p" if "p \<in> set ?ps" for p
    using sizing_covers_aux [OF assms(1-4,6) that] sz by (auto simp: extent_ok_def cs_def as_def)
  have "\<exists>s'. run_progs npu d as cs W A ?ps \<lparr>rl_af = af0, rl_cres = (\<lambda>_. 0)\<rparr> = Some s' \<and>
    (\<forall>m n. 0 \<le> n \<longrightarrow> n < ld_N d \<longrightarrow> rl_cres s' (m * ld_N d + n) =
       fold (\<lambda>p acc. if p_ks p = 0 then prog_val dot d W A m n p else acc + prog_val dot d W A m n p)
         (filter (hits m n) ?ps) 0)"
    using run_progs_nth [OF assms(7,8), of ?ps as cs W A "\<lparr>rl_af = af0, rl_cres = (\<lambda>_. 0)\<rparr>"]
      progs_legal [OF assms(1-6)] ext by simp
  then obtain s' where s': "run_progs npu d as cs W A ?ps \<lparr>rl_af = af0, rl_cres = (\<lambda>_. 0)\<rparr> = Some s'"
    "\<And>m n. 0 \<le> n \<Longrightarrow> n < ld_N d \<Longrightarrow> rl_cres s' (m * ld_N d + n) =
       fold (\<lambda>p acc. if p_ks p = 0 then prog_val dot d W A m n p else acc + prog_val dot d W A m n p)
         (filter (hits m n) ?ps) 0" by blast
  have "rl_cres s' (m * ld_N d + n) = host_sum (slice_dot dot d W A m n) ?Sk"
    if mn: "0 \<le> m" "m < ld_M d" "0 \<le> n" "n < ld_N d" for m n
  proof -
    obtain P where P: "filter (hits m n) ?ps = map P [0..<?Sk]"
      "\<And>ks. p_ks (P ks) = int ks \<and> p_k0 (P ks) = int ks * ld_KS d \<and> p_n0 (P ks) = n div ld_NMAX d * ld_NMAX d
       \<and> p_Kp (P ks) = slice_len (ld_K d) (ld_KS d) (int ks * ld_KS d)"
      using loop_progs_hits [OF assms(1,6) mn] by blast
    then have "prog_val dot d W A m n (P ks) = slice_dot dot d W A m n ks" for ks
      by (simp add: prog_val_def slice_dot_def add.assoc)
    with P s'(2) [OF mn(3,4)] show ?thesis by (simp add: host_sum_def fold_map o_def cong: if_cong)
  qed
  with s'(1) sz show ?thesis by (simp add: orki_run_loop_def Let_def cs_def as_def)
qed

text \<open>C14: over any NPU that computes a program inside the envelope, the K-sliced run loop succeeds at
  every M, K and N and leaves in each element of C the sum, in slice order, of the K-slice partial
  products of its own row and column, whatever the staging buffers held before.\<close>

theorem run_loop_correct:
  assumes "1 \<le> ld_M d" "1 \<le> ld_K d" "1 \<le> ld_N d" "1 \<le> ld_KS d" "ld_KS d \<le> 16384" "1 \<le> ld_NMAX d"
    "npu_computes dot None d npu" "dot_local dot"
  shows "\<exists>C. orki_run_loop None npu d (slice_count (ld_N d) (ld_NMAX d)) (slice_count (ld_K d) (ld_KS d))
        W A af0 afsz ccsz = Some C \<and>
    (\<forall>m n. 0 \<le> m \<longrightarrow> m < ld_M d \<longrightarrow> 0 \<le> n \<longrightarrow> n < ld_N d \<longrightarrow>
       C (m * ld_N d + n) = host_sum (slice_dot dot d W A m n) (slice_count (ld_K d) (ld_KS d)))"
  by (rule run_loop_product_aux [OF assms])

subsection \<open>Integer products\<close>

text \<open>In a commutative ring (the int32 accumulator is the ring of 32-bit words) the slices' sum is the
  whole inner product.\<close>

definition sum_dot :: "int \<Rightarrow> (int \<Rightarrow> 'v::comm_ring_1) \<Rightarrow> (int \<Rightarrow> int \<Rightarrow> 'v) \<Rightarrow> int \<Rightarrow> 'v" where
  "sum_dot Kp f w c = (\<Sum>j\<in>{0..<Kp}. f j * w j c)"

definition weight_slice :: "loop_dims \<Rightarrow> (int \<Rightarrow> 'v) \<Rightarrow> int \<Rightarrow> int \<Rightarrow> int \<Rightarrow> int \<Rightarrow> 'v" where
  "weight_slice d B k0 n0 = (\<lambda>j c. B ((k0 + j) * ld_N d + (n0 + c)))"

lemma host_sum_ring: "host_sum f Sk = (\<Sum>ks<Sk. f ks :: 'v::comm_monoid_add)"
  unfolding host_sum_def by (induction Sk) (auto simp: add.commute)

lemma sum_slices:
  fixes g :: "int \<Rightarrow> 'v::comm_monoid_add"
  assumes "1 \<le> st" "0 \<le> whole"
  shows "(\<Sum>i<S. \<Sum>j\<in>{0..<slice_len whole st (int i * st)}. g (int i * st + j)) = (\<Sum>k\<in>{0..<min whole (int S * st)}. g k)"
proof (induction S)
  case (Suc S)
  let ?o = "int S * st"
  have o: "0 \<le> ?o" using assms by simp
  have shift: "(\<Sum>j\<in>{0..<l}. g (?o + j)) = (\<Sum>k\<in>{?o..<?o + l}. g k)" for l
    by (rule sum.reindex_bij_witness [of _ "\<lambda>k. k - ?o" "\<lambda>j. ?o + j"]) auto
  show ?case
  proof (cases "?o < whole")
    case True
    have e: "min whole (int (Suc S) * st) = ?o + slice_len whole st ?o"
      by (auto simp: slice_len_def min_def algebra_simps)
    have p: "0 \<le> slice_len whole st ?o" using True assms by (simp add: slice_len_def)
    have "{0..<?o + slice_len whole st ?o} = {0..<?o} \<union> {?o..<?o + slice_len whole st ?o}"
      using o p by auto
    then have "(\<Sum>k\<in>{0..<?o + slice_len whole st ?o}. g k)
        = (\<Sum>k\<in>{0..<?o}. g k) + (\<Sum>k\<in>{?o..<?o + slice_len whole st ?o}. g k)"
      by (simp add: sum.union_disjoint)
    with Suc True show ?thesis by (simp add: e shift del: of_nat_Suc)
  next
    case False
    then have "slice_len whole st ?o \<le> 0" using assms by (simp add: slice_len_def)
    moreover have "min whole (int (Suc S) * st) = whole" "min whole ?o = whole"
      using False assms by (auto simp: algebra_simps)
    ultimately show ?thesis using Suc by (simp del: of_nat_Suc)
  qed
qed (use assms in simp)

lemma slice_count_covers:
  assumes "1 \<le> st" "1 \<le> whole"
  shows "whole \<le> int (slice_count whole st) * st"
proof -
  have "whole + st - 1 < ((whole + st - 1) div st + 1) * st"
    using int_le_div_iff [of st "(whole + st - 1) div st + 1" "whole + st - 1"] assms by simp
  moreover have "0 \<le> (whole + st - 1) div st" using assms by (simp add: pos_imp_zdiv_nonneg_iff)
  ultimately show ?thesis
    using assms by (simp add: slice_count_def ceil_div_def c_div_nonneg algebra_simps)
qed

lemma sum_dot_local: "dot_local sum_dot"
  unfolding dot_local_def sum_dot_def by (auto intro!: sum.cong)

text \<open>C15: on integer operands the run loop computes C = A B in the accumulator's ring: on int8 the
  exact product modulo 2^32.\<close>

theorem run_loop_integer_product:
  fixes A B :: "int \<Rightarrow> 'v::comm_ring_1"
  assumes "1 \<le> ld_M d" "1 \<le> ld_K d" "1 \<le> ld_N d" "1 \<le> ld_KS d" "ld_KS d \<le> 16384" "1 \<le> ld_NMAX d"
    "npu_computes sum_dot None d npu"
  shows "\<exists>C. orki_run_loop None npu d (slice_count (ld_N d) (ld_NMAX d)) (slice_count (ld_K d) (ld_KS d))
        (weight_slice d B) A af0 afsz ccsz = Some C \<and>
    (\<forall>m n. 0 \<le> m \<longrightarrow> m < ld_M d \<longrightarrow> 0 \<le> n \<longrightarrow> n < ld_N d \<longrightarrow>
       C (m * ld_N d + n) = (\<Sum>k\<in>{0..<ld_K d}. A (m * ld_K d + k) * B (k * ld_N d + n)))"
proof -
  have "host_sum (slice_dot sum_dot d (weight_slice d B) A m n) (slice_count (ld_K d) (ld_KS d))
      = (\<Sum>k\<in>{0..<ld_K d}. A (m * ld_K d + k) * B (k * ld_N d + n))" for m n
    using sum_slices [of "ld_KS d" "ld_K d" "\<lambda>k. A (m * ld_K d + k) * B (k * ld_N d + n)"
        "slice_count (ld_K d) (ld_KS d)"] slice_count_covers [of "ld_KS d" "ld_K d"] assms
    by (simp add: host_sum_ring slice_dot_def sum_dot_def weight_slice_def min_absorb1 add.assoc)
  with run_loop_product_aux [OF assms sum_dot_local, of "weight_slice d B" A af0 afsz ccsz] show ?thesis
    by simp
qed

text \<open>A model NPU for the witnesses: it computes every program it is given.\<close>

definition ref_npu :: "prog \<Rightarrow> (int \<Rightarrow> 32 word) \<Rightarrow> (int \<Rightarrow> int \<Rightarrow> 32 word) \<Rightarrow> (int \<Rightarrow> 32 word) option" where
  "ref_npu p af w =
     Some (\<lambda>i. sum_dot (p_Kp p) (\<lambda>j. af (i div p_Nc p * p_Kp p + j)) w (i mod p_Nc p))"

lemma ref_npu_computes: "npu_computes sum_dot ovr d ref_npu"
  unfolding npu_computes_def
proof (intro allI impI exI conjI)
  fix p af w r c
  assume "0 \<le> r" "r < p_mch p" "0 \<le> c" "c < p_Nc p"
  then have "(r * p_Nc p + c) div p_Nc p = r" "(r * p_Nc p + c) mod p_Nc p = c" by auto
  then show "(\<lambda>i. sum_dot (p_Kp p) (\<lambda>j. af (i div p_Nc p * p_Kp p + j)) w (i mod p_Nc p)) (r * p_Nc p + c)
      = sum_dot (p_Kp p) (\<lambda>j. af (r * p_Kp p + j)) w c" by simp
qed (simp add: ref_npu_def)

definition demo_dims :: loop_dims where
  "demo_dims = \<lparr>ld_dt = 0, ld_M = 33, ld_K = 1100, ld_N = 64, ld_KS = 1024, ld_NMAX = 4096, ld_RB = 32768\<rparr>"

theorem run_loop_correct_witness:
  "\<exists>C. orki_run_loop None ref_npu demo_dims 1 2 (weight_slice demo_dims (\<lambda>_. 1)) (\<lambda>_. 1) (\<lambda>_. 7) 0 0 = Some C"
  using run_loop_correct [of demo_dims sum_dot ref_npu "weight_slice demo_dims (\<lambda>_. 1)" "\<lambda>_. 1" "\<lambda>_. 7" 0 0]
    ref_npu_computes [of None demo_dims] sum_dot_local
  by (auto simp: demo_dims_def slice_count_def ceil_div_def)

theorem run_loop_integer_product_witness:
  "\<exists>C. orki_run_loop None ref_npu demo_dims 1 2 (weight_slice demo_dims (\<lambda>_. 1)) (\<lambda>_. 1) (\<lambda>_. 7) 0 0 = Some C
     \<and> (\<forall>m n. 0 \<le> m \<longrightarrow> m < 33 \<longrightarrow> 0 \<le> n \<longrightarrow> n < 64 \<longrightarrow> C (m * 64 + n) = 1100)"
  using run_loop_integer_product [of demo_dims ref_npu "\<lambda>_. 1" "\<lambda>_. 1" "\<lambda>_. 7" 0 0]
    ref_npu_computes [of None demo_dims]
  by (auto simp: demo_dims_def slice_count_def ceil_div_def)

end
