(* ===== verification/Pool.thy ===== *)
theory Pool
  imports Prelude
begin

section \<open>Exclusive resource pools\<close>

text \<open>
  The contract of a pool of interchangeable resources that several holders draw from: what a take and
  a give change, and the exclusivity that follows when every holder takes and gives through it. The
  daemon's IOMMU domains and the slots of its work queue are its two instances.
\<close>

locale pool =
  fixes ok :: "'p \<Rightarrow> bool"
    and U :: "'r set"
    and free_in :: "'p \<Rightarrow> 'r \<Rightarrow> bool"
    and take_one :: "'p \<Rightarrow> ('r \<times> 'p) option"
    and give :: "'r \<Rightarrow> 'p \<Rightarrow> 'p"
  assumes take_ok: "ok p \<Longrightarrow> take_one p = Some (r, p') \<Longrightarrow> ok p' \<and> r \<in> U \<and> free_in p r"
    and take_free: "ok p \<Longrightarrow> take_one p = Some (r, p') \<Longrightarrow> x \<in> U \<Longrightarrow> free_in p' x \<longleftrightarrow> free_in p x \<and> x \<noteq> r"
    and take_none: "ok p \<Longrightarrow> take_one p = None \<longleftrightarrow> (\<forall>x \<in> U. \<not> free_in p x)"
    and give_ok: "ok p \<Longrightarrow> r \<in> U \<Longrightarrow> ok (give r p)"
    and give_free: "ok p \<Longrightarrow> r \<in> U \<Longrightarrow> x \<in> U \<Longrightarrow> free_in (give r p) x \<longleftrightarrow> free_in p x \<or> x = r"
begin

text \<open>\<open>exclusive p H\<close>: the resources out of the pool are exactly those held, each by one holder.\<close>

definition exclusive :: "'p \<Rightarrow> ('i \<Rightarrow> 'r set) \<Rightarrow> bool" where
  "exclusive p H \<longleftrightarrow> ok p \<and> (\<forall>i. H i \<subseteq> U) \<and> (\<forall>x \<in> U. free_in p x \<longleftrightarrow> (\<forall>i. x \<notin> H i))
     \<and> (\<forall>i j x. x \<in> H i \<longrightarrow> x \<in> H j \<longrightarrow> i = j)"

lemma exclusive_take:
  assumes "exclusive p H" "take_one p = Some (r, p')"
  shows "exclusive p' (H(i := insert r (H i)))"
proof -
  have e: "ok p" "r \<in> U" "free_in p r" "ok p'" using assms take_ok by (auto simp: exclusive_def)
  then have "\<forall>j. r \<notin> H j" using assms(1) by (auto simp: exclusive_def)
  with assms e take_free [OF e(1) assms(2)] show ?thesis by (auto simp: exclusive_def)
qed

lemma exclusive_give:
  assumes "exclusive p H" "r \<in> H i"
  shows "exclusive (give r p) (H(i := H i - {r}))"
proof -
  have e: "ok p" "r \<in> U" using assms by (auto simp: exclusive_def)
  with assms give_ok [OF e] give_free [OF e] show ?thesis by (auto simp: exclusive_def)
qed

text \<open>Giving back a list of resources, and a holder whose place another takes.\<close>

lemma exclusive_give_all:
  "exclusive p H \<Longrightarrow> set rs \<subseteq> H i \<Longrightarrow> distinct rs \<Longrightarrow> exclusive (fold give rs p) (H(i := H i - set rs))"
proof (induction rs arbitrary: p H)
  case (Cons r rs)
  have "exclusive (give r p) (H(i := H i - {r}))" using Cons.prems by (intro exclusive_give) auto
  moreover have "set rs \<subseteq> (H(i := H i - {r})) i" "distinct rs" using Cons.prems by auto
  ultimately have "exclusive (fold give rs (give r p)) ((H(i := H i - {r}))(i := (H(i := H i - {r})) i - set rs))"
    by (rule Cons.IH)
  moreover have "(H(i := H i - {r}))(i := (H(i := H i - {r})) i - set rs) = H(i := H i - set (r # rs))"
    by (auto simp: fun_eq_iff)
  ultimately show ?case by (simp only: fold.simps o_apply)
qed simp

lemma exclusive_move:
  assumes "exclusive p H" "H i = {}" "i \<noteq> j"
  shows "exclusive p (H(i := H j, j := {}))"
proof -
  define t where "t k = (if k = i then j else if k = j then i else k)" for k
  have tt: "t (t k) = k" for k by (simp add: t_def)
  have e: "(H(i := H j, j := {})) = (\<lambda>k. H (t k))" using assms by (auto simp: t_def fun_eq_iff)
  have "(\<forall>k. x \<notin> H k) \<longleftrightarrow> (\<forall>k. x \<notin> H (t k))" for x by (metis tt)
  moreover have "k = l" if "x \<in> H (t k)" "x \<in> H (t l)" for k l x
    using that assms(1) tt unfolding exclusive_def by metis
  ultimately show ?thesis using assms(1) unfolding exclusive_def e by simp
qed

lemma exclusive_disjoint: "exclusive p H \<Longrightarrow> x \<in> H i \<Longrightarrow> x \<in> H j \<Longrightarrow> i = j"
  by (auto simp: exclusive_def)

lemma exclusive_no_leak: "exclusive p H \<Longrightarrow> (\<forall>i. H i = {}) \<Longrightarrow> x \<in> U \<Longrightarrow> free_in p x"
  by (auto simp: exclusive_def)

end

end
