(* ===== verification/Orkd_Wire.thy ===== *)
theory Orkd_Wire
  imports Prelude
begin

section \<open>The daemon's wire format: \<open>src/orkd_proto.h\<close>\<close>

text \<open>
  The protocol's structs are packed (\<open>#pragma pack(push, 1)\<close>) and little-endian, so a struct is the
  concatenation of its fields, and one table of field widths per struct gives its encoder, its
  decoder and its size. A \<open>double\<close> is carried as its 64-bit pattern.
\<close>

type_synonym byte = "8 word"

fun le_dec :: "byte list \<Rightarrow> nat" where
  "le_dec [] = 0"
| "le_dec (b # bs) = unat b + 256 * le_dec bs"

fun le_enc :: "nat \<Rightarrow> nat \<Rightarrow> byte list" where
  "le_enc 0 v = []"
| "le_enc (Suc k) v = of_nat v # le_enc k (v div 256)"

fun parse :: "nat list \<Rightarrow> byte list \<Rightarrow> nat list" where
  "parse [] bs = []"
| "parse (w # ws) bs = le_dec (take w bs) # parse ws (drop w bs)"

fun unparse :: "nat list \<Rightarrow> nat list \<Rightarrow> byte list" where
  "unparse (w # ws) (v # vs) = le_enc w v @ unparse ws vs"
| "unparse ws vs = []"

lemma le_enc_length [simp]: "length (le_enc k v) = k"
  by (induction k arbitrary: v) auto

lemma le_dec_enc: "le_dec (le_enc k v) = v mod 256 ^ k"
proof (induction k arbitrary: v)
  case (Suc k)
  have "v mod (256 * 256 ^ k) = 256 * (v div 256 mod 256 ^ k) + v mod 256" by (rule mod_mult2_eq)
  then show ?case by (simp add: Suc unat_of_nat)
qed simp

lemma unparse_length: "length ws = length vs \<Longrightarrow> length (unparse ws vs) = sum_list ws"
  by (induction ws vs rule: list_induct2) auto

lemma parse_length [simp]: "length (parse ws bs) = length ws"
  by (induction ws arbitrary: bs) auto

lemma parse_unparse:
  "length ws = length vs \<Longrightarrow> list_all2 (\<lambda>w v. v < 256 ^ w) ws vs \<Longrightarrow> parse ws (unparse ws vs @ rest) = vs"
  by (induction ws vs rule: list_induct2) (auto simp: le_dec_enc)

subsection \<open>Message types, data types and error codes\<close>

datatype msg_type = HELLO | WELCOME | BYE | PING | PONG | PACK | PACK_OK | RUN | RUN_OK | FREE
  | DMABUF_PROBE | DMABUF_OK | RUN_ZC | RUN_ZC2 | SDP | SDP_OK | CHAIN | CHAIN_OK | SEQ | SEQ_OK
  | RING_SETUP | RING_OK | DOM_REQ | DOM_OK | DOM_REL | IMPORT | IMPORT_OK | FFN | FFN_OK
  | KV_ALLOC | KV_ALLOC_OK | KV_APPEND | KV_APPEND_OK | ATTN | ATTN_OK | ATTN_RR | ATTN_RR_OK
  | LAYER | LAYER_OK | ERROR

fun msg_code :: "msg_type \<Rightarrow> nat" where
  "msg_code HELLO = 1" | "msg_code WELCOME = 2" | "msg_code BYE = 3" | "msg_code PING = 4" | "msg_code PONG = 5"
| "msg_code PACK = 16" | "msg_code PACK_OK = 17" | "msg_code RUN = 18" | "msg_code RUN_OK = 19" | "msg_code FREE = 20"
| "msg_code DMABUF_PROBE = 32" | "msg_code DMABUF_OK = 33" | "msg_code RUN_ZC = 34" | "msg_code RUN_ZC2 = 35"
| "msg_code SDP = 36" | "msg_code SDP_OK = 37" | "msg_code CHAIN = 38" | "msg_code CHAIN_OK = 39"
| "msg_code SEQ = 40" | "msg_code SEQ_OK = 41" | "msg_code RING_SETUP = 42" | "msg_code RING_OK = 43"
| "msg_code DOM_REQ = 44" | "msg_code DOM_OK = 45" | "msg_code DOM_REL = 46"
| "msg_code IMPORT = 47" | "msg_code IMPORT_OK = 48" | "msg_code FFN = 49" | "msg_code FFN_OK = 50"
| "msg_code KV_ALLOC = 51" | "msg_code KV_ALLOC_OK = 52" | "msg_code KV_APPEND = 53" | "msg_code KV_APPEND_OK = 54"
| "msg_code ATTN = 55" | "msg_code ATTN_OK = 56" | "msg_code ATTN_RR = 57" | "msg_code ATTN_RR_OK = 58"
| "msg_code LAYER = 59" | "msg_code LAYER_OK = 60" | "msg_code ERROR = 255"

definition all_msgs :: "msg_type list" where
  "all_msgs = [HELLO, WELCOME, BYE, PING, PONG, PACK, PACK_OK, RUN, RUN_OK, FREE, DMABUF_PROBE, DMABUF_OK,
     RUN_ZC, RUN_ZC2, SDP, SDP_OK, CHAIN, CHAIN_OK, SEQ, SEQ_OK, RING_SETUP, RING_OK, DOM_REQ, DOM_OK,
     DOM_REL, IMPORT, IMPORT_OK, FFN, FFN_OK, KV_ALLOC, KV_ALLOC_OK, KV_APPEND, KV_APPEND_OK, ATTN,
     ATTN_OK, ATTN_RR, ATTN_RR_OK, LAYER, LAYER_OK, ERROR]"

definition decode_msg :: "nat \<Rightarrow> msg_type option" where
  "decode_msg c = find (\<lambda>m. msg_code m = c) all_msgs"

lemma decode_msg_code [simp]: "decode_msg (msg_code m) = Some m"
  by (cases m) (simp_all add: decode_msg_def all_msgs_def)

definition DT_I8 :: nat where "DT_I8 = 1"
definition DT_F16 :: nat where "DT_F16 = 2"
definition DT_I4 :: nat where "DT_I4 = 3"

datatype orkd_err = EOK | ENOSYS | EPROTO | EBADH | ENPU | EOOM

fun err_code :: "orkd_err \<Rightarrow> nat" where
  "err_code EOK = 0" | "err_code ENOSYS = 1" | "err_code EPROTO = 2" | "err_code EBADH = 3"
| "err_code ENPU = 4" | "err_code EOOM = 5"

subsection \<open>The structs\<close>

text \<open>Field widths, in declaration order.\<close>

definition hdr_w :: "nat list" where "hdr_w = [4, 4, 8]"
definition hello_w :: "nat list" where "hello_w = [4, 4]"
definition welcome_w :: "nat list" where "welcome_w = [4, 4, 4, 4]"
definition pack_w :: "nat list" where "pack_w = [4, 4, 4, 4, 4]"
definition import_w :: "nat list" where "import_w = [4, 4, 4, 4, 8, 8]"
definition ffn_w :: "nat list" where "ffn_w = [8, 8, 8, 4, 4, 4, 4, 4, 4, 4, 4, 4, 4, 4, 8, 8, 4, 4]"
definition attn_w :: "nat list" where "attn_w = [8, 8, 8, 4, 4, 4, 4, 4, 4, 4, 8, 8, 8, 4, 4]"
definition attn_rr_w :: "nat list" where "attn_rr_w = [4, 4, 4, 4, 4, 4, 4, 4, 8, 8, 8, 4, 4]"
definition layer_w :: "nat list" where
  "layer_w = [8, 8, 8, 8, 8, 8, 8, 4, 4, 4, 4, 4, 4, 4, 4, 4, 8, 8, 4, 4]"
definition kv_alloc_w :: "nat list" where "kv_alloc_w = [4, 4]"
definition kv_alloc_ok_w :: "nat list" where "kv_alloc_ok_w = [8, 8, 8, 4, 4]"
definition kv_append_w :: "nat list" where "kv_append_w = [8, 4, 4]"
definition run_w :: "nat list" where "run_w = [8, 4, 4, 4, 4]"
definition handle_w :: "nat list" where "handle_w = [8, 4, 4]"
definition ring_setup_w :: "nat list" where "ring_setup_w = [8]"
definition chain_hdr_w :: "nat list" where "chain_hdr_w = [4, 4, 4, 4]"
definition chain_task_w :: "nat list" where "chain_task_w = [8, 4, 4]"
definition seq_hdr_w :: "nat list" where "seq_hdr_w = [4, 4, 4, 4]"
definition seq_op_w :: "nat list" where "seq_op_w = [4, 4, 4, 8, 4, 4, 4, 4, 4, 4, 8, 8, 8, 4, 4, 4]"
definition sdp_w :: "nat list" where "sdp_w = [4, 4, 4, 4, 4, 4, 4, 4, 8, 8, 8, 8, 4, 4]"
definition error_w :: "nat list" where "error_w = [4, 4, 64]"
definition dmabuf_w :: "nat list" where "dmabuf_w = [8, 8, 4, 4]"

definition sizeof :: "nat list \<Rightarrow> nat" where
  "sizeof ws = sum_list ws"

lemmas widths = hdr_w_def hello_w_def welcome_w_def pack_w_def import_w_def ffn_w_def attn_w_def
  attn_rr_w_def layer_w_def kv_alloc_w_def kv_alloc_ok_w_def kv_append_w_def run_w_def handle_w_def
  ring_setup_w_def chain_hdr_w_def chain_task_w_def seq_hdr_w_def seq_op_w_def sdp_w_def error_w_def dmabuf_w_def

text \<open>A field read as the C \<open>int\<close> it is cast to, and a C \<open>int\<close> as the field that carries it.\<close>

definition as_int :: "nat \<Rightarrow> int" where
  "as_int v = (if v < 2147483648 then int v else int v - 4294967296)"

definition as_u32 :: "int \<Rightarrow> nat" where
  "as_u32 r = nat (r mod 4294967296)"

lemma as_int_u32: "-2147483648 \<le> r \<Longrightarrow> r < 2147483648 \<Longrightarrow> as_int (as_u32 r) = r"
proof (cases "0 \<le> r")
  case False
  assume "-2147483648 \<le> r" "r < 2147483648"
  with False have "(r + 4294967296) mod 4294967296 = r + 4294967296" by (intro mod_pos_pos_trivial) auto
  then have "r mod 4294967296 = r + 4294967296" by simp
  with False \<open>-2147483648 \<le> r\<close> show ?thesis by (simp add: as_int_def as_u32_def)
qed (simp add: as_int_def as_u32_def)

text \<open>\<open>struct orkd_handle\<close> and the header of a message with \<open>len\<close> payload bytes.\<close>

definition enc_handle :: "nat \<Rightarrow> int \<Rightarrow> byte list" where
  "enc_handle hid rc = unparse handle_w [hid, as_u32 rc, 0]"

definition enc_hdr :: "msg_type \<Rightarrow> nat \<Rightarrow> nat \<Rightarrow> byte list" where
  "enc_hdr ty len tag = unparse hdr_w [msg_code ty, len, tag]"

text \<open>\<open>(uint32_t)\<close> of a \<open>size_t\<close> product.\<close>

definition u32 :: "nat \<Rightarrow> nat" where
  "u32 n = n mod 4294967296"

end
