(* ===== verification/Orkd_State.thy ===== *)
theory Orkd_State
  imports Orkd_Wire "HOL-Library.State_Monad" "HOL-Library.Monad_Syntax"
begin

section \<open>The daemon's state: \<open>src/orkd_internal.h\<close> and the globals of \<open>src/orkd.c\<close>\<close>

text \<open>
  The daemon is single-threaded, so its handlers are programs of a state monad over the record
  \<open>daemon\<close>: the client slots and their number, the domain pool, the work queue and the counters.
  What the daemon calls and does not define (the driver library, \<open>malloc\<close>, the kernel) is the
  parameter \<open>W\<close>, a \<open>world\<close>: it answers each call as a function of the call and of the whole history
  of calls, so every theorem holds for every behaviour of them. The history is part of the state.
  \<open>free\<close> of host memory has no effect in the model: a host buffer is the list of its bytes.
\<close>

subsection \<open>Outside calls\<close>

text \<open>An operand of a call: the bytes of a host buffer from the operand's address to its end, or an
  address inside an imported one, or a scratch buffer of the daemon by its size.\<close>

datatype operand = Host "byte list" | Imported nat int | Scratch nat

text \<open>Where an op of a submitted sequence reads an input: the uploaded blob, the output of an earlier
  op, or an address outside both.\<close>

datatype seq_src = Blob "byte list" | Null | Back nat | Wild int

datatype ecall =
    Malloc nat
  | Close int
  | Send int msg_type nat "byte list"
  | Import_fd int nat
  | Dma_free nat
  | Mmap int nat
  | Munmap nat
  | Set_pack_domain int
  | Pack nat int int "byte list"
  | Adopt int int int int nat nat
  | Mm_free nat
  | W_domain nat
  | W_K nat
  | W_N nat
  | Core_budget int
  | Mm_run nat nat int operand operand
  | Chain_ffn "nat list" int "nat list" "byte list" "nat list"
  | Chain_attn "nat list" int "nat list" "byte list" "nat list"
  | Chains_rr "nat list list" int "nat list" "byte list" "nat list"
  | Mm_layer "nat list" "nat list" "byte list"
  | Mm_chain "(nat \<times> int \<times> byte list \<times> nat) list"
  | Submit_seq "(nat list \<times> nat option \<times> seq_src \<times> seq_src \<times> nat) list"
  | Sdp_op nat "nat list" "byte list" nat
  | Kv_alloc_res int int
  | Kv_K nat
  | Kv_wkt nat
  | Kv_wv nat
  | Kv_free nat
  | Kv_struct_free nat
  | Kv_append_key nat int "byte list"

record world =
  w_ptr :: "ecall list \<Rightarrow> ecall \<Rightarrow> nat option"
  w_rc :: "ecall list \<Rightarrow> ecall \<Rightarrow> int"
  w_out :: "ecall list \<Rightarrow> ecall \<Rightarrow> byte list"

subsection \<open>Clients, work items, rings\<close>

record cweight =
  cw_id :: nat
  cw_w :: nat
  cw_K :: int
  cw_N :: int
  cw_dtype :: nat

record ckv =
  kv_id :: nat
  kv_ptr :: nat

text \<open>\<open>struct client\<close>; \<open>c_wt\<close> and \<open>c_kvt\<close> are the first \<open>nw\<close> and \<open>nkv\<close> entries of the tables,
  \<open>c_owned\<close> the set of bits of \<open>owned_dom\<close>. The \<open>layer_warm\<close> cache is never read.\<close>

record client =
  c_fd :: int
  c_hello :: bool
  c_cid :: nat
  c_wt :: "cweight list"
  c_next_wid :: nat
  c_domain :: int
  c_kvt :: "ckv list"
  c_owned :: "nat set"
  c_ring :: "nat option"
  c_ring_fd :: int
  c_ring_tail :: nat

definition ORKD_MAX_CLIENTS :: nat where "ORKD_MAX_CLIENTS = 64"
definition ORKD_MAX_WEIGHTS :: nat where "ORKD_MAX_WEIGHTS = 512"
definition ORKD_MAX_BYTES :: nat where "ORKD_MAX_BYTES = 536870912"
definition ORKD_NDOM :: nat where "ORKD_NDOM = 64"
definition ORKD_QMAX :: nat where "ORKD_QMAX = 256"
definition ORKD_QUANTUM_ROWS :: int where "ORKD_QUANTUM_ROWS = 64"
definition ORKD_CHAIN_MAX :: nat where "ORKD_CHAIN_MAX = 256"
definition ORKD_SEQ_MAX :: nat where "ORKD_SEQ_MAX = 512"
definition ORKD_ATTN_RR_MAX :: nat where "ORKD_ATTN_RR_MAX = 64"

text \<open>\<open>struct work\<close>. A host A or C buffer is its bytes; an imported one is its pointer.\<close>

record work =
  k_used :: bool
  k_fd :: int
  k_type :: msg_type
  k_M :: int
  k_K :: int
  k_N :: int
  k_m0 :: int
  k_rc :: int
  k_dtype :: nat
  k_domain :: int
  k_prio :: nat
  k_tag :: nat
  k_seq :: nat
  k_weight_id :: nat
  k_A :: "byte list"
  k_C :: "byte list"
  k_A_imp :: "nat option"
  k_C_imp :: "nat option"

definition work0 :: work where
  "work0 = \<lparr>k_used = False, k_fd = 0, k_type = RUN, k_M = 0, k_K = 0, k_N = 0, k_m0 = 0, k_rc = 0,
     k_dtype = 0, k_domain = 0, k_prio = 0, k_tag = 0, k_seq = 0, k_weight_id = 0, k_A = [], k_C = [],
     k_A_imp = None, k_C_imp = None\<rparr>"

text \<open>\<open>src/orkd_ring.h\<close>: the shared region a client may attach, stored by its mapping's address.\<close>

datatype slot_state = EMPTY | REQ | RESP

definition ORKD_RING_SLOTS :: nat where "ORKD_RING_SLOTS = 8"
definition ORKD_RING_SLOT_DATA :: nat where "ORKD_RING_SLOT_DATA = 65536"
definition ORKD_RING_MAGIC :: nat where "ORKD_RING_MAGIC = 0x4f524b52"
definition ORKD_RING_BYTES :: nat where "ORKD_RING_BYTES = 64 + 8 * (48 + 65536)"

record ring_slot =
  rs_state :: slot_state
  rs_weight :: nat
  rs_M :: nat
  rs_K :: nat
  rs_N :: nat
  rs_dtype :: nat
  rs_abytes :: nat
  rs_cbytes :: nat
  rs_rc :: int
  rs_domain :: nat
  rs_data :: "byte list"

record ring =
  r_magic :: nat
  r_nslots :: nat
  r_slot_data :: nat
  r_slots :: "ring_slot list"

record daemon =
  d_cl :: "client list"
  d_nc :: nat
  d_per_client :: bool
  d_inuse :: "bool list"
  d_active :: int
  d_q :: "work list"
  d_qn :: int
  d_wseq :: nat
  d_next_id :: nat
  d_refs :: nat
  d_submits :: nat
  d_idle_reset :: bool
  d_wraps :: nat
  d_cores :: nat
  d_shm :: "nat \<Rightarrow> ring"
  d_inp :: "int \<Rightarrow> byte list"
  d_log :: "ecall list"

type_synonym 'a dm = "(daemon, 'a) state"

subsection \<open>Calls and the shared I/O helpers\<close>

definition gets :: "(daemon \<Rightarrow> 'a) \<Rightarrow> 'a dm" where
  "gets f = do { s \<leftarrow> State_Monad.get; State_Monad.return (f s) }"

abbreviation ret :: "'a \<Rightarrow> 'a dm" where
  "ret \<equiv> State_Monad.return"

abbreviation modify :: "(daemon \<Rightarrow> daemon) \<Rightarrow> unit dm" where
  "modify \<equiv> State_Monad.update"

definition note_call :: "ecall \<Rightarrow> unit dm" where
  "note_call c = modify (d_log_update ((#) c))"

definition ask_ptr :: "world \<Rightarrow> ecall \<Rightarrow> nat option dm" where
  "ask_ptr W c = do { h \<leftarrow> gets d_log; note_call c; ret (w_ptr W h c) }"

text \<open>A pointer field of a driver object; 0 is the null pointer.\<close>

definition ask_field :: "world \<Rightarrow> ecall \<Rightarrow> nat dm" where
  "ask_field W c = do { p \<leftarrow> ask_ptr W c; ret (case p of None \<Rightarrow> 0 | Some p \<Rightarrow> p) }"

definition ask_rc :: "world \<Rightarrow> ecall \<Rightarrow> int dm" where
  "ask_rc W c = do { h \<leftarrow> gets d_log; note_call c; ret (w_rc W h c) }"

text \<open>A call that returns a code and fills an output of \<open>n\<close> bytes.\<close>

definition fit :: "nat \<Rightarrow> byte list \<Rightarrow> byte list" where
  "fit n bs = take n bs @ replicate (n - length bs) 0"

definition ask_out :: "world \<Rightarrow> ecall \<Rightarrow> nat \<Rightarrow> (int \<times> byte list) dm" where
  "ask_out W c n = do { h \<leftarrow> gets d_log; note_call c; ret (w_rc W h c, fit n (w_out W h c)) }"

definition malloc :: "world \<Rightarrow> nat \<Rightarrow> bool dm" where
  "malloc W n = do { p \<leftarrow> ask_ptr W (Malloc n); ret (p \<noteq> None) }"

text \<open>A buffer of \<open>n\<close> bytes that is read back later; its first contents are arbitrary.\<close>

definition malloc_buf :: "world \<Rightarrow> nat \<Rightarrow> byte list option dm" where
  "malloc_buf W n = do {
     h \<leftarrow> gets d_log;
     note_call (Malloc n);
     ret (case w_ptr W h (Malloc n) of None \<Rightarrow> None | Some _ \<Rightarrow> Some (fit n (w_out W h (Malloc n)))) }"

definition close_fd :: "int \<Rightarrow> unit dm" where
  "close_fd fd = (if 0 \<le> fd then note_call (Close fd) else ret ())"

text \<open>\<open>orkd_readn\<close>: all \<open>n\<close> bytes, or nothing when the peer's stream ends first.\<close>

definition orkd_readn :: "int \<Rightarrow> nat \<Rightarrow> byte list option dm" where
  "orkd_readn fd n = do {
     b \<leftarrow> gets (\<lambda>s. d_inp s fd);
     modify (d_inp_update (\<lambda>f. f(fd := drop n b)));
     ret (if length b < n then None else Some (take n b)) }"

text \<open>\<open>if (n && orkd_readn(...) <= 0)\<close>: an empty payload is not read.\<close>

definition read_payload :: "int \<Rightarrow> nat \<Rightarrow> byte list option dm" where
  "read_payload fd n = (if n = 0 then ret (Some []) else orkd_readn fd n)"

function orkd_drain :: "int \<Rightarrow> nat \<Rightarrow> bool dm" where
  "orkd_drain fd n =
     (if n = 0 then ret True
      else do {
        r \<leftarrow> orkd_readn fd (min n 4096);
        case r of None \<Rightarrow> ret False | Some _ \<Rightarrow> orkd_drain fd (n - min n 4096) })"
  by pat_completeness auto
termination
  by (relation "measure (\<lambda>(fd, n). n)") auto

declare orkd_drain.simps [simp del]

text \<open>\<open>orkd_send_msg\<close> and the hand-written replies: header, struct, payload; the result is whether the
  peer took it.\<close>

definition orkd_send_msg :: "world \<Rightarrow> int \<Rightarrow> msg_type \<Rightarrow> nat \<Rightarrow> byte list \<Rightarrow> bool dm" where
  "orkd_send_msg W fd ty tag payload = do { r \<leftarrow> ask_rc W (Send fd ty tag payload); ret (r = 0) }"

definition orkd_send_error :: "world \<Rightarrow> int \<Rightarrow> nat \<Rightarrow> orkd_err \<Rightarrow> unit dm" where
  "orkd_send_error W fd tag e = do {
     _ \<leftarrow> orkd_send_msg W fd ERROR tag (unparse error_w [err_code e, 0, 0]);
     ret () }"

definition cl_get :: "nat \<Rightarrow> client dm" where
  "cl_get i = gets (\<lambda>s. d_cl s ! i)"

definition cl_upd :: "nat \<Rightarrow> (client \<Rightarrow> client) \<Rightarrow> unit dm" where
  "cl_upd i f = modify (d_cl_update (\<lambda>cl. cl[i := f (cl ! i)]))"

subsection \<open>The domain pool\<close>

definition dom_take :: "bool list \<Rightarrow> (nat \<times> bool list) option" where
  "dom_take u =
     (case find (\<lambda>d. \<not> u ! d) [1..<ORKD_NDOM] of None \<Rightarrow> None | Some d \<Rightarrow> Some (d, u[d := True]))"

definition dom_give :: "nat \<Rightarrow> bool list \<Rightarrow> bool list" where
  "dom_give d u = u[d := False]"

definition orkd_dom_alloc_explicit :: "nat dm" where
  "orkd_dom_alloc_explicit = do {
     u \<leftarrow> gets d_inuse;
     case dom_take u of
       None \<Rightarrow> ret 0
     | Some (d, u') \<Rightarrow> do { modify (d_inuse_update (\<lambda>_. u')); ret d } }"

definition dom_alloc :: "nat dm" where
  "dom_alloc = do { on \<leftarrow> gets d_per_client; if on then orkd_dom_alloc_explicit else ret 0 }"

definition orkd_dom_release :: "int \<Rightarrow> unit dm" where
  "orkd_dom_release d =
     (if 1 \<le> d \<and> d < int ORKD_NDOM then modify (d_inuse_update (dom_give (nat d))) else ret ())"

subsection \<open>The work queue\<close>

definition orkd_esz_a :: "nat \<Rightarrow> int" where
  "orkd_esz_a dt = (if dt = DT_F16 then 2 else 1)"

text \<open>\<open>orkd_wk_alloc\<close>: the first unused entry, zeroed and stamped.\<close>

definition orkd_wk_alloc :: "nat option dm" where
  "orkd_wk_alloc = do {
     q \<leftarrow> gets d_q;
     case find (\<lambda>i. \<not> k_used (q ! i)) [0..<length q] of
       None \<Rightarrow> ret None
     | Some i \<Rightarrow> do {
         sq \<leftarrow> gets d_wseq;
         modify (\<lambda>s. s\<lparr>d_q := q[i := work0\<lparr>k_used := True, k_seq := sq\<rparr>], d_wseq := sq + 1, d_qn := d_qn s + 1\<rparr>);
         ret (Some i) } }"

definition wk_set :: "nat \<Rightarrow> (work \<Rightarrow> work) \<Rightarrow> unit dm" where
  "wk_set i f = modify (d_q_update (\<lambda>q. q[i := f (q ! i)]))"

definition wk_free :: "nat \<Rightarrow> unit dm" where
  "wk_free i = do {
     q \<leftarrow> gets d_q;
     if \<not> k_used (q ! i) then ret ()
     else do {
       (case k_A_imp (q ! i) of None \<Rightarrow> ret () | Some p \<Rightarrow> note_call (Dma_free p));
       (case k_C_imp (q ! i) of None \<Rightarrow> ret () | Some p \<Rightarrow> note_call (Dma_free p));
       modify (\<lambda>s. s\<lparr>d_q := (d_q s)[i := work0], d_qn := d_qn s - 1\<rparr>) } }"

fun wk_purge_from :: "int \<Rightarrow> nat list \<Rightarrow> unit dm" where
  "wk_purge_from fd [] = ret ()"
| "wk_purge_from fd (i # is) = do {
     q \<leftarrow> gets d_q;
     (if k_used (q ! i) \<and> k_fd (q ! i) = fd then wk_free i else ret ());
     wk_purge_from fd is }"

definition wk_purge_fd :: "int \<Rightarrow> unit dm" where
  "wk_purge_fd fd = do { q \<leftarrow> gets d_q; wk_purge_from fd [0..<length q] }"

text \<open>\<open>wk_pick\<close>'s scan: priority, then the active domain, then the lower sequence number.\<close>

definition wk_better :: "int \<Rightarrow> work \<Rightarrow> work \<Rightarrow> bool" where
  "wk_better act w best =
     (if k_prio w \<noteq> k_prio best then k_prio best < k_prio w
      else if (k_domain w = act) \<noteq> (k_domain best = act) then k_domain w = act
      else k_seq w < k_seq best)"

fun wk_scan :: "int \<Rightarrow> work list \<Rightarrow> nat list \<Rightarrow> nat option \<Rightarrow> nat option" where
  "wk_scan act q [] best = best"
| "wk_scan act q (i # is) best =
     wk_scan act q is
       (if \<not> k_used (q ! i) then best
        else case best of None \<Rightarrow> Some i | Some b \<Rightarrow> if wk_better act (q ! i) (q ! b) then Some i else Some b)"

definition wk_pick :: "int \<Rightarrow> work list \<Rightarrow> nat option" where
  "wk_pick act q = wk_scan act q [0..<length q] None"

end
