(* ===== verification/Orkd_Handlers.thy ===== *)
theory Orkd_Handlers
  imports Orkd_State
begin

section \<open>The daemon's request handlers: \<open>src/orkd_handlers.c\<close>\<close>

text \<open>
  One definition per wire opcode. A handler gets the client's slot \<open>i\<close> and the request's tag, reads
  its struct and payload from the client's stream, and returns whether the client is to be dropped
  (the source's \<open>-1\<close>). Fields are read by their position in the struct's width table. Text messages
  of error replies are not modelled (the code and the length are).
\<close>

text \<open>\<open>(size_t)\<close> of an \<open>int\<close> product, and the sizes the handlers allocate.\<close>

definition sz :: "int \<Rightarrow> nat" where
  "sz n = nat (n mod 2 ^ 64)"

text \<open>The table lookups: the first match (\<open>break\<close>), or the last one where the loop runs on.\<close>

definition wt_find :: "client \<Rightarrow> nat \<Rightarrow> cweight option" where
  "wt_find c wid = find (\<lambda>w. cw_id w = wid) (c_wt c)"

definition wt_find_last :: "client \<Rightarrow> nat \<Rightarrow> cweight option" where
  "wt_find_last c wid = find (\<lambda>w. cw_id w = wid) (rev (c_wt c))"

definition reply_rc :: "world \<Rightarrow> int \<Rightarrow> msg_type \<Rightarrow> nat \<Rightarrow> nat \<Rightarrow> int \<Rightarrow> unit dm" where
  "reply_rc W fd ty tag hid rc = do { _ \<leftarrow> orkd_send_msg W fd ty tag (enc_handle hid rc); ret () }"

text \<open>A reply with its payload when \<open>rc\<close> is 0; the client is dropped when the write fails.\<close>

definition reply_payload :: "world \<Rightarrow> int \<Rightarrow> msg_type \<Rightarrow> nat \<Rightarrow> int \<Rightarrow> byte list \<Rightarrow> bool dm" where
  "reply_payload W fd ty tag rc payload = do {
     ok \<leftarrow> orkd_send_msg W fd ty tag (enc_handle 0 rc @ (if rc = 0 then payload else []));
     ret (\<not> ok) }"

text \<open>The domain a pack or an import lands in: an owned one the client names, else its automatic one.\<close>

definition pack_domain :: "client \<Rightarrow> int \<Rightarrow> int option" where
  "pack_domain c pdom =
     (if 0 < pdom then
        if pdom \<ge> int ORKD_NDOM \<or> nat pdom \<notin> c_owned c then None else Some pdom
      else Some (c_domain c))"

text \<open>Registering a packed weight, or giving it back when the table is full.\<close>

definition register_weight :: "nat \<Rightarrow> nat option \<Rightarrow> int \<Rightarrow> int \<Rightarrow> nat \<Rightarrow> (nat \<times> int) dm" where
  "register_weight i w K N dt = do {
     c \<leftarrow> cl_get i;
     case w of
       None \<Rightarrow> ret (0, - 1)
     | Some p \<Rightarrow>
         if length (c_wt c) < ORKD_MAX_WEIGHTS then do {
           cl_upd i (\<lambda>c. c\<lparr>c_next_wid := c_next_wid c + 1,
              c_wt := c_wt c @ [\<lparr>cw_id = c_next_wid c + 1, cw_w = p, cw_K = K, cw_N = N, cw_dtype = dt\<rparr>]\<rparr>);
           ret (c_next_wid c + 1, 0) }
         else do { note_call (Mm_free p); ret (0, - 1) } }"

definition close2 :: "int \<Rightarrow> int \<Rightarrow> unit dm" where
  "close2 a b = do { close_fd a; close_fd b }"

definition orkd_handle_import :: "world \<Rightarrow> nat \<Rightarrow> int \<Rightarrow> int \<Rightarrow> nat \<Rightarrow> bool dm" where
  "orkd_handle_import W i bb_fd bf_fd tag = do {
     c \<leftarrow> cl_get i;
     r \<leftarrow> orkd_readn (c_fd c) (sizeof import_w);
     case r of
       None \<Rightarrow> do { close2 bb_fd bf_fd; ret True }
     | Some bs \<Rightarrow>
       let im = parse import_w bs; K = as_int (im ! 0); N = as_int (im ! 1);
           bb = im ! 4; bf = im ! 5 in
       if bb_fd < 0 then do { close_fd bf_fd; orkd_send_error W (c_fd c) tag EPROTO; ret False }
       else if im ! 2 \<noteq> DT_I8 then do { close2 bb_fd bf_fd; orkd_send_error W (c_fd c) tag ENOSYS; ret False }
       else if bb = 0 \<or> bb > ORKD_MAX_BYTES \<or> bf > ORKD_MAX_BYTES then
         do { close2 bb_fd bf_fd; orkd_send_error W (c_fd c) tag EPROTO; ret False }
       else case pack_domain c (as_int (im ! 3)) of
           None \<Rightarrow> do { close2 bb_fd bf_fd; orkd_send_error W (c_fd c) tag EBADH; ret False }
         | Some pdom \<Rightarrow> do {
             note_call (Set_pack_domain pdom);
             w \<leftarrow> ask_ptr W (Adopt K N bb_fd bf_fd bb bf);
             note_call (Set_pack_domain 0);
             (hid, rc) \<leftarrow> register_weight i w K N DT_I8;
             reply_rc W (c_fd c) IMPORT_OK tag hid rc;
             ret False } }"

definition orkd_handle_pack :: "world \<Rightarrow> nat \<Rightarrow> nat \<Rightarrow> bool dm" where
  "orkd_handle_pack W i tag = do {
     c \<leftarrow> cl_get i;
     r \<leftarrow> orkd_readn (c_fd c) (sizeof pack_w);
     case r of
       None \<Rightarrow> ret True
     | Some bs \<Rightarrow>
       let pk = parse pack_w bs; K = as_int (pk ! 0); N = as_int (pk ! 1); dt = pk ! 2; n = pk ! 3 in
       if n = 0 \<or> n > ORKD_MAX_BYTES then
         do { _ \<leftarrow> orkd_drain (c_fd c) n; orkd_send_error W (c_fd c) tag EPROTO; ret False }
       else if dt \<noteq> DT_I8 \<and> dt \<noteq> DT_F16 \<and> dt \<noteq> DT_I4 then
         do { _ \<leftarrow> orkd_drain (c_fd c) n; orkd_send_error W (c_fd c) tag ENOSYS; ret False }
       else do {
         mem \<leftarrow> malloc W n;
         if \<not> mem then do { _ \<leftarrow> orkd_drain (c_fd c) n; orkd_send_error W (c_fd c) tag EOOM; ret False }
         else do {
           r \<leftarrow> orkd_readn (c_fd c) n;
           case r of
             None \<Rightarrow> ret True
           | Some wbuf \<Rightarrow>
             case pack_domain c (as_int (pk ! 4)) of
               None \<Rightarrow> do { orkd_send_error W (c_fd c) tag EBADH; ret False }
             | Some pdom \<Rightarrow> do {
                 note_call (Set_pack_domain pdom);
                 w \<leftarrow> ask_ptr W (Pack dt K N wbuf);
                 note_call (Set_pack_domain 0);
                 (hid, rc) \<leftarrow> register_weight i w K N dt;
                 reply_rc W (c_fd c) PACK_OK tag hid rc;
                 ret False } } } }"

definition orkd_handle_free :: "world \<Rightarrow> nat \<Rightarrow> nat \<Rightarrow> bool dm" where
  "orkd_handle_free W i tag = do {
     c \<leftarrow> cl_get i;
     r \<leftarrow> orkd_readn (c_fd c) (sizeof handle_w);
     case r of
       None \<Rightarrow> ret True
     | Some bs \<Rightarrow>
       let wid = parse handle_w bs ! 0 in
       case find (\<lambda>j. cw_id (c_wt c ! j) = wid) [0..<length (c_wt c)] of
         None \<Rightarrow> do { reply_rc W (c_fd c) PACK_OK tag wid (- 1); ret False }
       | Some j \<Rightarrow> do {
           note_call (Mm_free (cw_w (c_wt c ! j)));
           cl_upd i (\<lambda>c. c\<lparr>c_wt := butlast ((c_wt c)[j := last (c_wt c)])\<rparr>);
           reply_rc W (c_fd c) PACK_OK tag wid 0;
           ret False } }"

subsection \<open>Queued runs\<close>

text \<open>The domain of a queued run: the client's stamp, else where the weight was packed.\<close>

definition run_domain :: "world \<Rightarrow> nat \<Rightarrow> nat \<Rightarrow> int dm" where
  "run_domain W rdom w = (if rdom \<noteq> 0 then ret (as_int rdom) else ask_rc W (W_domain w))"

text \<open>The end the three run handlers share: take a queue entry (when the buffers were there), stamp the
  domain, fill it in.\<close>

definition enqueue :: "world \<Rightarrow> bool \<Rightarrow> bool dm \<Rightarrow> nat \<Rightarrow> nat \<Rightarrow> (int \<Rightarrow> work \<Rightarrow> work) \<Rightarrow> bool dm" where
  "enqueue W have_bufs refuse rdom w fill = do {
     k \<leftarrow> (if have_bufs then orkd_wk_alloc else ret None);
     case k of
       None \<Rightarrow> refuse
     | Some k \<Rightarrow> do { dom \<leftarrow> run_domain W rdom w; wk_set k (fill dom); ret False } }"

definition orkd_handle_run :: "world \<Rightarrow> nat \<Rightarrow> nat \<Rightarrow> bool dm" where
  "orkd_handle_run W i tag = do {
     c \<leftarrow> cl_get i;
     r \<leftarrow> orkd_readn (c_fd c) (sizeof run_w);
     case r of
       None \<Rightarrow> ret True
     | Some bs \<Rightarrow>
       let rq = parse run_w bs; wid = rq ! 0; M = rq ! 1; abytes = rq ! 3 in
       if abytes > ORKD_MAX_BYTES then
         do { _ \<leftarrow> orkd_drain (c_fd c) abytes; orkd_send_error W (c_fd c) tag EPROTO; ret False }
       else do {
         mem \<leftarrow> malloc W (if abytes = 0 then 1 else abytes);
         if \<not> mem then do { _ \<leftarrow> orkd_drain (c_fd c) abytes; orkd_send_error W (c_fd c) tag EOOM; ret False }
         else do {
           r \<leftarrow> read_payload (c_fd c) abytes;
           case r of
             None \<Rightarrow> ret True
           | Some A \<Rightarrow>
             case wt_find c wid of
               None \<Rightarrow> do { orkd_send_error W (c_fd c) tag EBADH; ret False }
             | Some cw \<Rightarrow>
               if abytes \<noteq> as_u32 (int M * cw_K cw * orkd_esz_a (cw_dtype cw)) then
                 do { orkd_send_error W (c_fd c) tag EPROTO; ret False }
               else do {
                 C \<leftarrow> malloc_buf W (sz (int M * cw_N cw * 4));
                 enqueue W (C \<noteq> None) (do { orkd_send_error W (c_fd c) tag EOOM; ret False }) (rq ! 4) (cw_w cw)
                   (\<lambda>dom w. w\<lparr>k_fd := c_fd c, k_type := RUN, k_tag := tag, k_prio := rq ! 2,
                      k_weight_id := wid, k_domain := dom, k_M := as_int M, k_K := cw_K cw, k_N := cw_N cw,
                      k_dtype := cw_dtype cw, k_A := A, k_C := the C\<rparr>) } } } }"

definition orkd_handle_run_zc :: "world \<Rightarrow> nat \<Rightarrow> int \<Rightarrow> nat \<Rightarrow> bool dm" where
  "orkd_handle_run_zc W i a_fd tag = do {
     c \<leftarrow> cl_get i;
     r \<leftarrow> orkd_readn (c_fd c) (sizeof run_w);
     case r of
       None \<Rightarrow> do { close_fd a_fd; ret True }
     | Some bs \<Rightarrow>
       let rq = parse run_w bs; wid = rq ! 0; M = rq ! 1 in
       case wt_find c wid of
         None \<Rightarrow> do { close_fd a_fd; orkd_send_error W (c_fd c) tag EBADH; ret False }
       | Some cw \<Rightarrow>
         if a_fd < 0 then do { orkd_send_error W (c_fd c) tag EPROTO; ret False }
         else do {
           A \<leftarrow> ask_ptr W (Import_fd a_fd (sz (int M * cw_K cw * orkd_esz_a (cw_dtype cw))));
           case A of
             None \<Rightarrow> do { close_fd a_fd; orkd_send_error W (c_fd c) tag EOOM; ret False }
           | Some a \<Rightarrow> do {
               C \<leftarrow> malloc_buf W (sz (int M * cw_N cw * 4));
               enqueue W (C \<noteq> None)
                 (do { note_call (Dma_free a); orkd_send_error W (c_fd c) tag EOOM; ret False }) (rq ! 4) (cw_w cw)
                 (\<lambda>dom w. w\<lparr>k_fd := c_fd c, k_type := RUN_ZC, k_tag := tag, k_prio := rq ! 2,
                    k_weight_id := wid, k_domain := dom, k_M := as_int M, k_K := cw_K cw, k_N := cw_N cw,
                    k_dtype := cw_dtype cw, k_A_imp := Some a, k_C := the C\<rparr>) } } }"

definition orkd_handle_run_zc2 :: "world \<Rightarrow> nat \<Rightarrow> int \<Rightarrow> int \<Rightarrow> nat \<Rightarrow> bool dm" where
  "orkd_handle_run_zc2 W i a_fd c_fd' tag = do {
     c \<leftarrow> cl_get i;
     r \<leftarrow> orkd_readn (c_fd c) (sizeof run_w);
     case r of
       None \<Rightarrow> do { close2 a_fd c_fd'; ret True }
     | Some bs \<Rightarrow>
       let rq = parse run_w bs; wid = rq ! 0; M = rq ! 1 in
       case wt_find c wid of
         None \<Rightarrow> do { close2 a_fd c_fd'; orkd_send_error W (c_fd c) tag EBADH; ret False }
       | Some cw \<Rightarrow>
         if a_fd < 0 \<or> c_fd' < 0 then do { close2 a_fd c_fd'; orkd_send_error W (c_fd c) tag EPROTO; ret False }
         else do {
           A \<leftarrow> ask_ptr W (Import_fd a_fd (sz (int M * cw_K cw * orkd_esz_a (cw_dtype cw))));
           case A of
             None \<Rightarrow> do { close2 a_fd c_fd'; orkd_send_error W (c_fd c) tag EOOM; ret False }
           | Some a \<Rightarrow> do {
               C \<leftarrow> ask_ptr W (Import_fd c_fd' (sz (int M * cw_N cw * 4)));
               case C of
                 None \<Rightarrow> do { note_call (Dma_free a); close_fd c_fd'; orkd_send_error W (c_fd c) tag EOOM; ret False }
               | Some cp \<Rightarrow>
                   enqueue W True
                     (do { note_call (Dma_free a); note_call (Dma_free cp);
                           orkd_send_error W (c_fd c) tag EOOM; ret False }) (rq ! 4) (cw_w cw)
                     (\<lambda>dom w. w\<lparr>k_fd := c_fd c, k_type := RUN_ZC2, k_tag := tag, k_prio := rq ! 2,
                        k_weight_id := wid, k_domain := dom, k_M := as_int M, k_K := cw_K cw, k_N := cw_N cw,
                        k_dtype := cw_dtype cw, k_A_imp := Some a, k_C_imp := Some cp\<rparr>) } } }"

subsection \<open>Domains, ring, dma-buf probe, resident KV\<close>

definition orkd_handle_dom_req :: "world \<Rightarrow> nat \<Rightarrow> nat \<Rightarrow> bool dm" where
  "orkd_handle_dom_req W i tag = do {
     d \<leftarrow> orkd_dom_alloc_explicit;
     c \<leftarrow> cl_get i;
     (if 0 < d then do {
        cl_upd i (\<lambda>c. c\<lparr>c_owned := insert d (c_owned c)\<rparr>);
        reply_rc W (c_fd c) DOM_OK tag d 0 }
      else reply_rc W (c_fd c) DOM_OK tag 0 (- 1));
     ret False }"

definition dom_rel_body :: "world \<Rightarrow> nat \<Rightarrow> nat \<Rightarrow> client \<Rightarrow> nat \<Rightarrow> bool dm" where
  "dom_rel_body W i tag c rid =
     (let d = as_int (u32 rid) in
      if 1 \<le> d \<and> d < int ORKD_NDOM \<and> nat d \<in> c_owned c then do {
        cl_upd i (\<lambda>c. c\<lparr>c_owned := c_owned c - {nat d}\<rparr>);
        orkd_dom_release d;
        reply_rc W (c_fd c) DOM_OK tag rid 0;
        ret False }
      else do { reply_rc W (c_fd c) DOM_OK tag rid (- 1); ret False })"

definition orkd_handle_dom_rel :: "world \<Rightarrow> nat \<Rightarrow> nat \<Rightarrow> bool dm" where
  "orkd_handle_dom_rel W i tag = do {
     c \<leftarrow> cl_get i;
     r \<leftarrow> orkd_readn (c_fd c) (sizeof handle_w);
     case r of
       None \<Rightarrow> ret True
     | Some bs \<Rightarrow> dom_rel_body W i tag c (parse handle_w bs ! 0) }"

definition orkd_handle_ring_setup :: "world \<Rightarrow> nat \<Rightarrow> int \<Rightarrow> nat \<Rightarrow> bool dm" where
  "orkd_handle_ring_setup W i rfd tag = do {
     c \<leftarrow> cl_get i;
     r \<leftarrow> orkd_readn (c_fd c) (sizeof ring_setup_w);
     case r of
       None \<Rightarrow> do { close_fd rfd; ret True }
     | Some bs \<Rightarrow>
       let bytes = parse ring_setup_w bs ! 0 in
       if 0 \<le> rfd \<and> bytes = ORKD_RING_BYTES \<and> c_ring c = None then do {
         m \<leftarrow> ask_ptr W (Mmap rfd ORKD_RING_BYTES);
         shm \<leftarrow> gets d_shm;
         case m of
           None \<Rightarrow> do { close_fd rfd; reply_rc W (c_fd c) RING_OK tag 0 (- 1); ret False }
         | Some p \<Rightarrow>
             if r_magic (shm p) = ORKD_RING_MAGIC \<and> r_nslots (shm p) = ORKD_RING_SLOTS
                \<and> r_slot_data (shm p) = ORKD_RING_SLOT_DATA
             then do {
               cl_upd i (\<lambda>c. c\<lparr>c_ring := Some p, c_ring_fd := rfd, c_ring_tail := 0\<rparr>);
               reply_rc W (c_fd c) RING_OK tag 0 0; ret False }
             else do {
               note_call (Munmap p); close_fd rfd; reply_rc W (c_fd c) RING_OK tag 0 (- 1); ret False } }
       else do { close_fd rfd; reply_rc W (c_fd c) RING_OK tag 0 (- 1); ret False } }"

text \<open>\<open>orkd_fnv\<close> of \<open>src/orkd_shm.h\<close>: 64-bit FNV-1a.\<close>

definition orkd_fnv :: "byte list \<Rightarrow> 64 word" where
  "orkd_fnv bs = fold (\<lambda>b h. (xor h (ucast b)) * 1099511628211) bs 1469598103934665603"

definition orkd_handle_dmabuf :: "world \<Rightarrow> nat \<Rightarrow> int \<Rightarrow> nat \<Rightarrow> bool dm" where
  "orkd_handle_dmabuf W i dfd tag = do {
     c \<leftarrow> cl_get i;
     r \<leftarrow> orkd_readn (c_fd c) (sizeof dmabuf_w);
     case r of
       None \<Rightarrow> do { close_fd dfd; ret True }
     | Some bs \<Rightarrow>
       let db = parse dmabuf_w bs; size = db ! 0; want = db ! 1;
           answer = (\<lambda>sum rc prime. do {
             _ \<leftarrow> orkd_send_msg W (c_fd c) DMABUF_OK tag (unparse dmabuf_w [size, sum, as_u32 rc, prime]);
             ret False })
       in if 0 \<le> dfd \<and> 0 < size \<and> size \<le> ORKD_MAX_BYTES then do {
            h \<leftarrow> gets d_log;
            p \<leftarrow> ask_ptr W (Import_fd dfd size);
            case p of
              Some a \<Rightarrow>
                let sum = unat (orkd_fnv (fit size (w_out W h (Import_fd dfd size)))) in
                do { note_call (Dma_free a); answer sum (if sum = want then 0 else - 1) 1 }
            | None \<Rightarrow> do {
                h \<leftarrow> gets d_log;
                m \<leftarrow> ask_ptr W (Mmap dfd size);
                case m of
                  None \<Rightarrow> do { close_fd dfd; answer 0 (- 1) 0 }
                | Some a \<Rightarrow>
                    let sum = unat (orkd_fnv (fit size (w_out W h (Mmap dfd size)))) in
                    do { note_call (Munmap a); close_fd dfd; answer sum (if sum = want then 0 else - 1) 0 } } }
          else do { close_fd dfd; answer 0 (- 1) 0 } }"

definition orkd_handle_kv_alloc :: "world \<Rightarrow> nat \<Rightarrow> nat \<Rightarrow> bool dm" where
  "orkd_handle_kv_alloc W i tag = do {
     c \<leftarrow> cl_get i;
     r \<leftarrow> orkd_readn (c_fd c) (sizeof kv_alloc_w);
     case r of
       None \<Rightarrow> ret True
     | Some bs \<Rightarrow>
       let rq = parse kv_alloc_w bs; HD = as_int (rq ! 0); Lmax = as_int (rq ! 1);
           refuse = do { _ \<leftarrow> orkd_send_msg W (c_fd c) KV_ALLOC_OK tag (unparse kv_alloc_ok_w [0, 0, 0, as_u32 (- 1), 0]);
                         ret False }
       in do {
         kv \<leftarrow> ask_ptr W (Kv_alloc_res HD Lmax);
         case kv of
           None \<Rightarrow> refuse
         | Some kv \<Rightarrow>
             if length (c_wt c) + 2 \<le> ORKD_MAX_WEIGHTS \<and> length (c_kvt c) < ORKD_MAX_WEIGHTS then do {
               Kp \<leftarrow> ask_rc W (Kv_K kv);
               wkt \<leftarrow> ask_field W (Kv_wkt kv);
               wv \<leftarrow> ask_field W (Kv_wv kv);
               cl_upd i (\<lambda>c. let n = c_next_wid c in c\<lparr>
                  c_next_wid := n + 3,
                  c_wt := c_wt c @ [\<lparr>cw_id = n + 1, cw_w = wkt, cw_K = Kp, cw_N = Lmax, cw_dtype = DT_I8\<rparr>,
                                    \<lparr>cw_id = n + 2, cw_w = wv, cw_K = Lmax, cw_N = HD, cw_dtype = DT_I8\<rparr>],
                  c_kvt := c_kvt c @ [\<lparr>kv_id = n + 3, kv_ptr = kv\<rparr>]\<rparr>);
               _ \<leftarrow> orkd_send_msg W (c_fd c) KV_ALLOC_OK tag
                     (unparse kv_alloc_ok_w [c_next_wid c + 3, c_next_wid c + 1, c_next_wid c + 2, 0, 0]);
               ret False }
             else do { note_call (Kv_free kv); refuse } } }"

definition orkd_handle_kv_append :: "world \<Rightarrow> nat \<Rightarrow> nat \<Rightarrow> bool dm" where
  "orkd_handle_kv_append W i tag = do {
     c \<leftarrow> cl_get i;
     r \<leftarrow> orkd_readn (c_fd c) (sizeof kv_append_w);
     case r of
       None \<Rightarrow> ret True
     | Some bs \<Rightarrow>
       let rq = parse kv_append_w bs; kid = rq ! 0; key = as_int (rq ! 1); HD = rq ! 2 in
       if HD = 0 \<or> HD > 4096 then
         do { _ \<leftarrow> orkd_drain (c_fd c) (2 * HD); orkd_send_error W (c_fd c) tag EPROTO; ret False }
       else do {
         mem \<leftarrow> malloc W (2 * HD);
         if \<not> mem then do { _ \<leftarrow> orkd_drain (c_fd c) (2 * HD); orkd_send_error W (c_fd c) tag EOOM; ret False }
         else do {
           r \<leftarrow> orkd_readn (c_fd c) (2 * HD);
           case r of
             None \<Rightarrow> ret True
           | Some buf \<Rightarrow> do {
               rc \<leftarrow> (case find (\<lambda>k. kv_id k = kid) (c_kvt c) of
                       None \<Rightarrow> ret (- 2)
                     | Some k \<Rightarrow> ask_rc W (Kv_append_key (kv_ptr k) key buf));
               reply_rc W (c_fd c) KV_APPEND_OK tag 0 rc;
               ret False } } } }"

subsection \<open>Inline chains\<close>

text \<open>A scratch buffer per size, in order; the first that fails ends the attempt.\<close>

fun malloc_all :: "world \<Rightarrow> nat list \<Rightarrow> bool dm" where
  "malloc_all W [] = ret True"
| "malloc_all W (n # ns) = do { ok \<leftarrow> malloc W n; rest \<leftarrow> malloc_all W ns; ret (ok \<and> rest) }"

definition orkd_handle_ffn :: "world \<Rightarrow> nat \<Rightarrow> nat \<Rightarrow> bool dm" where
  "orkd_handle_ffn W i tag = do {
     c \<leftarrow> cl_get i;
     r \<leftarrow> orkd_readn (c_fd c) (sizeof ffn_w);
     case r of
       None \<Rightarrow> ret True
     | Some bs \<Rightarrow>
       let f = parse ffn_w bs; abytes = f ! 16 in
       if abytes > ORKD_MAX_BYTES then
         do { _ \<leftarrow> orkd_drain (c_fd c) abytes; orkd_send_error W (c_fd c) tag EPROTO; ret False }
       else do {
         mem \<leftarrow> malloc W (if abytes = 0 then 1 else abytes);
         if \<not> mem then do { _ \<leftarrow> orkd_drain (c_fd c) abytes; orkd_send_error W (c_fd c) tag EOOM; ret False }
         else do {
           r \<leftarrow> read_payload (c_fd c) abytes;
           case r of
             None \<Rightarrow> ret True
           | Some A \<Rightarrow>
             let cg = wt_find_last c (f ! 0); cu = wt_find_last c (f ! 1); cd = wt_find_last c (f ! 2);
                 M = as_int (f ! 3); K = as_int (f ! 4); Nff = as_int (f ! 5); Kd = as_int (f ! 6);
                 found = (cg \<noteq> None \<and> cu \<noteq> None \<and> cd \<noteq> None);
                 isz = sz (M * Nff * 4); dsz = sz (M * Kd * 4)
             in if \<not> found \<or> M < 1 \<or> K < 1 \<or> Nff < 1 \<or> Kd < 1 \<or> abytes \<noteq> as_u32 (M * K) then
                  do { orkd_send_error W (c_fd c) tag (if found then EPROTO else EBADH); ret False }
                else do {
                  ok \<leftarrow> malloc_all W [isz, isz, isz, isz, dsz];
                  if \<not> ok then do { orkd_send_error W (c_fd c) tag EOOM; ret False }
                  else do {
                    (rc, out) \<leftarrow> ask_out W (Chain_ffn [cw_w (the cg), cw_w (the cu), cw_w (the cd)] M f A
                        [isz, isz, isz, isz, dsz]) dsz;
                    reply_payload W (c_fd c) FFN_OK tag rc out } } } } }"

definition orkd_handle_attn :: "world \<Rightarrow> nat \<Rightarrow> nat \<Rightarrow> bool dm" where
  "orkd_handle_attn W i tag = do {
     c \<leftarrow> cl_get i;
     r \<leftarrow> orkd_readn (c_fd c) (sizeof attn_w);
     case r of
       None \<Rightarrow> ret True
     | Some bs \<Rightarrow>
       let a = parse attn_w bs; abytes = a ! 13 in
       if abytes > ORKD_MAX_BYTES then
         do { _ \<leftarrow> orkd_drain (c_fd c) abytes; orkd_send_error W (c_fd c) tag EPROTO; ret False }
       else do {
         mem \<leftarrow> malloc W (if abytes = 0 then 1 else abytes);
         if \<not> mem then do { _ \<leftarrow> orkd_drain (c_fd c) abytes; orkd_send_error W (c_fd c) tag EOOM; ret False }
         else do {
           r \<leftarrow> read_payload (c_fd c) abytes;
           case r of
             None \<Rightarrow> ret True
           | Some Q \<Rightarrow>
             let ckt = wt_find_last c (a ! 0); co = wt_find_last c (a ! 1); cv = wt_find_last c (a ! 2);
                 Nq = as_int (a ! 3); Nk = as_int (a ! 4); Kp = as_int (a ! 5); dv = as_int (a ! 6);
                 found = (ckt \<noteq> None \<and> co \<noteq> None \<and> cv \<noteq> None);
                 nb = sz (Nq * Nk * 4); sb = sz (Nq * 32 * 4); ab = sz (Nq * dv * 4)
             in if \<not> found \<or> Nq < 1 \<or> Nk < 1 \<or> Kp < 1 \<or> dv < 1 \<or> abytes \<noteq> as_u32 (Nq * Kp) then
                  do { orkd_send_error W (c_fd c) tag (if found then EPROTO else EBADH); ret False }
                else do {
                  ok \<leftarrow> malloc_all W [nb, nb, sb, ab];
                  if \<not> ok then do { orkd_send_error W (c_fd c) tag EOOM; ret False }
                  else do {
                    (rc, out) \<leftarrow> ask_out W (Chain_attn [cw_w (the ckt), cw_w (the co), cw_w (the cv)] Nq a Q
                        [nb, nb, sb, ab]) (sb + ab);
                    reply_payload W (c_fd c) ATTN_OK tag rc out } } } } }"

text \<open>The per-chain loop of the round-robin handler: scratch, the three weights, and their packed
  dimensions against what the declared ones imply.\<close>

datatype rr_build = RR_ok "nat list list" | RR_oom | RR_bad

definition rr_dims_ok :: "world \<Rightarrow> nat \<Rightarrow> nat \<Rightarrow> nat \<Rightarrow> int \<Rightarrow> int \<Rightarrow> int \<Rightarrow> bool dm" where
  "rr_dims_ok W kt on v Kp Nk dv = do {
     k1 \<leftarrow> ask_rc W (W_K kt); n1 \<leftarrow> ask_rc W (W_N kt);
     k2 \<leftarrow> ask_rc W (W_K on); n2 \<leftarrow> ask_rc W (W_N on);
     k3 \<leftarrow> ask_rc W (W_K v); n3 \<leftarrow> ask_rc W (W_N v);
     ret (k1 = Kp \<and> n1 = Nk \<and> k2 = Nk \<and> n2 = 32 \<and> k3 = Nk \<and> n3 = dv) }"

fun rr_chains :: "world \<Rightarrow> client \<Rightarrow> int \<Rightarrow> int \<Rightarrow> int \<Rightarrow> nat list \<Rightarrow> nat list list \<Rightarrow> nat list list \<Rightarrow> rr_build dm" where
  "rr_chains W c Kp Nk dv sizes [] acc = ret (RR_ok (rev acc))"
| "rr_chains W c Kp Nk dv sizes (t # ts) acc = do {
     ok \<leftarrow> malloc_all W sizes;
     if \<not> ok then ret RR_oom
     else case (wt_find_last c (t ! 0), wt_find_last c (t ! 1), wt_find_last c (t ! 2)) of
       (Some kt, Some on, Some v) \<Rightarrow> do {
         good \<leftarrow> rr_dims_ok W (cw_w kt) (cw_w on) (cw_w v) Kp Nk dv;
         if good then rr_chains W c Kp Nk dv sizes ts ([cw_w kt, cw_w on, cw_w v] # acc) else ret RR_bad }
     | _ \<Rightarrow> ret RR_bad }"

fun chunks :: "nat list \<Rightarrow> nat \<Rightarrow> byte list \<Rightarrow> nat list list" where
  "chunks ws 0 bs = []"
| "chunks ws (Suc n) bs = parse ws bs # chunks ws n (drop (sizeof ws) bs)"

definition orkd_handle_attn_rr :: "world \<Rightarrow> nat \<Rightarrow> nat \<Rightarrow> bool dm" where
  "orkd_handle_attn_rr W i tag = do {
     c \<leftarrow> cl_get i;
     r \<leftarrow> orkd_readn (c_fd c) (sizeof attn_rr_w);
     case r of
       None \<Rightarrow> ret True
     | Some bs \<Rightarrow>
       let a = parse attn_rr_w bs; nch = as_int (a ! 0); Nq = as_int (a ! 1); Nk = as_int (a ! 2);
           Kp = as_int (a ! 3); dv = as_int (a ! 4); abytes = a ! 11 in
       if nch < 1 \<or> nch > int ORKD_ATTN_RR_MAX then do { orkd_send_error W (c_fd c) tag EPROTO; ret True }
       else
         let tbytes = nat nch * 24; sb = sz (Nq * 32 * 4); ab = sz (Nq * dv * 4); nb = sz (Nq * Nk * 4) in
         if Nq < 1 \<or> Nk < 1 \<or> Kp < 1 \<or> dv < 1 \<or> abytes > ORKD_MAX_BYTES \<or> abytes \<noteq> as_u32 (nch * Nq * Kp) then
           do { _ \<leftarrow> orkd_drain (c_fd c) (tbytes + abytes); orkd_send_error W (c_fd c) tag EPROTO; ret False }
         else do {
           mem \<leftarrow> malloc_all W [tbytes, if abytes = 0 then 1 else abytes];
           if \<not> mem then
             do { _ \<leftarrow> orkd_drain (c_fd c) (tbytes + abytes); orkd_send_error W (c_fd c) tag EOOM; ret False }
           else do {
             t \<leftarrow> orkd_readn (c_fd c) tbytes;
             case t of None \<Rightarrow> ret True
             | Some trip \<Rightarrow> do {
               q \<leftarrow> read_payload (c_fd c) abytes;
               case q of None \<Rightarrow> ret True
               | Some Q \<Rightarrow> do {
                 tables \<leftarrow> malloc_all W (replicate 7 (nat nch));
                 b \<leftarrow> (if tables then rr_chains W c Kp Nk dv [nb, nb, sb, ab] (chunks [8, 8, 8] (nat nch) trip) []
                       else ret RR_oom);
                 case b of
                   RR_oom \<Rightarrow> do { ok \<leftarrow> orkd_send_msg W (c_fd c) ATTN_RR_OK tag (enc_handle 0 (int (err_code EOOM))); ret (\<not> ok) }
                 | RR_bad \<Rightarrow> do { ok \<leftarrow> orkd_send_msg W (c_fd c) ATTN_RR_OK tag (enc_handle 0 (int (err_code EBADH))); ret (\<not> ok) }
                 | RR_ok chs \<Rightarrow> do {
                     (rc, out) \<leftarrow> ask_out W (Chains_rr chs Nq a Q [nb, nb, sb, ab]) (nat nch * (sb + ab));
                     reply_payload W (c_fd c) ATTN_RR_OK tag rc out } } } } } }"

text \<open>\<open>a.pbytes\<close> is compared with a sum of 64-bit products cut to 32 bits.\<close>

definition layer_bytes :: "nat list \<Rightarrow> nat" where
  "layer_bytes a =
     (let D = a ! 7; Hkv = a ! 9; dk = a ! 10; dv = a ! 11; nkv = a ! 13
      in u32 (D * 4 + dk * 4 + D * 4 + D * 4 + Hkv * nkv * dk * 4 + Hkv * nkv * dv * 4))"

definition orkd_handle_layer :: "world \<Rightarrow> nat \<Rightarrow> nat \<Rightarrow> bool dm" where
  "orkd_handle_layer W i tag = do {
     c \<leftarrow> cl_get i;
     r \<leftarrow> orkd_readn (c_fd c) (sizeof layer_w);
     case r of
       None \<Rightarrow> ret True
     | Some bs \<Rightarrow>
       let a = parse layer_w bs; D = a ! 7; pbytes = a ! 18 in
       if (\<exists>j \<in> {7, 8, 9, 10, 11, 12, 13}. a ! j < 1) \<or> pbytes \<noteq> layer_bytes a \<or> pbytes > ORKD_MAX_BYTES then
         do { _ \<leftarrow> orkd_drain (c_fd c) pbytes; orkd_send_error W (c_fd c) tag EPROTO; ret False }
       else do {
         mem \<leftarrow> malloc W pbytes;
         if \<not> mem then do { _ \<leftarrow> orkd_drain (c_fd c) pbytes; orkd_send_error W (c_fd c) tag EOOM; ret False }
         else do {
           r \<leftarrow> orkd_readn (c_fd c) pbytes;
           case r of
             None \<Rightarrow> ret True
           | Some pl \<Rightarrow>
             let ws = map (\<lambda>j. wt_find c (a ! j)) [0, 1, 2, 3, 4, 5, 6] in
             if None \<in> set ws then do { orkd_send_error W (c_fd c) tag EBADH; ret False }
             else do {
               xo \<leftarrow> malloc W (sz (as_int D * 4));
               (rc, out) \<leftarrow> (if xo then ask_out W (Mm_layer (map (cw_w \<circ> the) ws) a pl) (sz (as_int D * 4))
                            else ret (- 1, []));
               reply_payload W (c_fd c) LAYER_OK tag rc out } } } }"

subsection \<open>Stateless SDP ops\<close>

text \<open>\<open>enum orkd_sdp_op\<close>: 1 to 14 are ops, anything else answers -100.\<close>

definition orkd_handle_sdp :: "world \<Rightarrow> nat \<Rightarrow> nat \<Rightarrow> bool dm" where
  "orkd_handle_sdp W i tag = do {
     c \<leftarrow> cl_get i;
     r \<leftarrow> orkd_readn (c_fd c) (sizeof sdp_w);
     case r of
       None \<Rightarrow> ret True
     | Some bs \<Rightarrow>
       let sp = parse sdp_w bs; opc = sp ! 0; M = sp ! 1; N = sp ! 2; nin = sp ! 3; inb = sp ! 12;
           half = sz (int M * int N * int (sp ! 4)); outb = sz (int M * int N * int (sp ! 5)) in
       if M = 0 \<or> N = 0 \<or> inb > ORKD_MAX_BYTES \<or> inb \<noteq> sz (int half * int (if nin = 0 then 1 else nin)) then
         do { _ \<leftarrow> orkd_drain (c_fd c) inb; orkd_send_error W (c_fd c) tag EPROTO; ret False }
       else do {
         mem \<leftarrow> malloc_all W [if inb = 0 then 1 else inb, if outb = 0 then 1 else outb];
         if \<not> mem then do { _ \<leftarrow> orkd_drain (c_fd c) inb; orkd_send_error W (c_fd c) tag EOOM; ret False }
         else do {
           r \<leftarrow> read_payload (c_fd c) inb;
           case r of
             None \<Rightarrow> ret True
           | Some inp \<Rightarrow> do {
               (rc, out) \<leftarrow> (if 1 \<le> opc \<and> opc \<le> 14 then ask_out W (Sdp_op opc sp inp half) outb
                            else ret (- 100, []));
               _ \<leftarrow> reply_payload W (c_fd c) SDP_OK tag rc out;
               ret False } } } }"

subsection \<open>Chains\<close>

text \<open>The task loop: resolve the weight, check the task's A size, take its A, allocate its C.\<close>

fun chain_tasks ::
  "world \<Rightarrow> client \<Rightarrow> byte list \<Rightarrow> nat list list \<Rightarrow> nat \<Rightarrow> (nat \<times> int \<times> byte list \<times> nat) list \<Rightarrow>
     (nat \<times> int \<times> byte list \<times> nat) list option dm" where
  "chain_tasks W c blob [] aoff acc = ret (Some (rev acc))"
| "chain_tasks W c blob (t # ts) aoff acc =
     (let M = t ! 1; ab = t ! 2 in
      case wt_find c (t ! 0) of
        None \<Rightarrow> ret None
      | Some cw \<Rightarrow>
          if cw_dtype cw \<noteq> DT_I8 \<or> ab \<noteq> as_u32 (int M * cw_K cw) \<or> aoff + ab > length blob then ret None
          else let cb = sz (int M * cw_N cw * 4) in do {
            ok \<leftarrow> malloc W cb;
            if ok then chain_tasks W c blob ts (aoff + ab) ((cw_w cw, as_int M, drop aoff blob, cb) # acc)
            else ret None })"

definition chain_out :: "(nat \<times> int \<times> byte list \<times> nat) list \<Rightarrow> nat" where
  "chain_out ts = (\<Sum>(w, M, A, cb)\<leftarrow>ts. cb)"

definition orkd_handle_chain :: "world \<Rightarrow> nat \<Rightarrow> nat \<Rightarrow> bool dm" where
  "orkd_handle_chain W i tag = do {
     c \<leftarrow> cl_get i;
     r \<leftarrow> orkd_readn (c_fd c) (sizeof chain_hdr_w);
     case r of
       None \<Rightarrow> ret True
     | Some bs \<Rightarrow>
       let ch = parse chain_hdr_w bs; S = as_int (ch ! 0); total = ch ! 2;
           tsz = nat S * sizeof chain_task_w in
       if S < 1 \<or> S > int ORKD_CHAIN_MAX \<or> total > ORKD_MAX_BYTES then
         do { _ \<leftarrow> orkd_drain (c_fd c) (tsz + total); orkd_send_error W (c_fd c) tag EPROTO; ret False }
       else do {
         mem \<leftarrow> malloc W tsz;
         if \<not> mem then do { _ \<leftarrow> orkd_drain (c_fd c) (tsz + total); orkd_send_error W (c_fd c) tag EOOM; ret False }
         else do {
           t \<leftarrow> orkd_readn (c_fd c) tsz;
           case t of None \<Rightarrow> ret True
           | Some tb \<Rightarrow> do {
             mem \<leftarrow> malloc W (if total = 0 then 1 else total);
             if \<not> mem then do { _ \<leftarrow> orkd_drain (c_fd c) total; orkd_send_error W (c_fd c) tag EOOM; ret False }
             else do {
               a \<leftarrow> read_payload (c_fd c) total;
               case a of None \<Rightarrow> ret True
               | Some blob \<Rightarrow> do {
                   tables \<leftarrow> malloc_all W (replicate 3 (nat S));
                   ts \<leftarrow> (if tables then chain_tasks W c blob (chunks chain_task_w (nat S) tb) 0 [] else ret None);
                   case ts of
                     None \<Rightarrow> reply_payload W (c_fd c) CHAIN_OK tag (- 1) []
                   | Some ts \<Rightarrow> do {
                       (rc, out) \<leftarrow> ask_out W (Mm_chain ts) (chain_out ts);
                       reply_payload W (c_fd c) CHAIN_OK tag rc out } } } } } } }"

subsection \<open>Op sequences\<close>

text \<open>One op: the inputs it takes from the blob, its weight, and where A and B come from. \<open>a_src\<close> is
  tested for zero and for an op at or after this one, and used as an index when it passes.\<close>

definition src_of :: "int \<Rightarrow> seq_src" where
  "src_of s = (if 1 \<le> s then Back (nat (s - 1)) else Wild (s - 1))"

fun seq_ops ::
  "world \<Rightarrow> client \<Rightarrow> byte list \<Rightarrow> nat list list \<Rightarrow> nat \<Rightarrow> nat \<Rightarrow>
     (nat list \<times> nat option \<times> seq_src \<times> seq_src \<times> nat) list \<Rightarrow>
     (nat list \<times> nat option \<times> seq_src \<times> seq_src \<times> nat) list option dm" where
  "seq_ops W c blob [] i inoff acc = ret (Some (rev acc))"
| "seq_ops W c blob (p # ps) i inoff acc =
     (let wid = p ! 3; ab = p ! 4; bb = p ! 5; cb = p ! 6; asrc = as_int (p ! 13); bsrc = as_int (p ! 14);
          need = (if asrc \<noteq> 0 then 0 else ab) + (if bsrc \<noteq> 0 then 0 else bb);
          cw = wt_find c wid
      in if inoff + need > length blob then ret None
         else if wid \<noteq> 0 \<and> cw = None then ret None
         else if asrc \<noteq> 0 \<and> asrc > int i then ret None
         else
           let A = (if asrc \<noteq> 0 then src_of asrc else Blob (drop inoff blob));
               off1 = (if asrc \<noteq> 0 then inoff else inoff + ab)
           in if bsrc \<noteq> 0 \<and> bsrc > int i then ret None
              else
                let B = (if bsrc \<noteq> 0 then src_of bsrc else if bb \<noteq> 0 then Blob (drop off1 blob) else Null);
                    off2 = (if bsrc \<noteq> 0 then off1 else off1 + bb)
                in do {
                  ok \<leftarrow> malloc W (if cb = 0 then 1 else cb);
                  if ok then seq_ops W c blob ps (i + 1) off2
                       ((p, (if wid = 0 then None else map_option cw_w cw), A, B, cb) # acc)
                  else ret None })"

text \<open>The bytes shipped back: the outputs of the ops whose \<open>c_keep\<close> is 0.\<close>

definition seq_out :: "(nat list \<times> nat option \<times> seq_src \<times> seq_src \<times> nat) list \<Rightarrow> nat" where
  "seq_out ops = (\<Sum>(p, w, A, B, cb)\<leftarrow>ops. if p ! 15 = 0 then cb else 0)"

definition orkd_handle_seq :: "world \<Rightarrow> nat \<Rightarrow> nat \<Rightarrow> bool dm" where
  "orkd_handle_seq W i tag = do {
     c \<leftarrow> cl_get i;
     r \<leftarrow> orkd_readn (c_fd c) (sizeof seq_hdr_w);
     case r of
       None \<Rightarrow> ret True
     | Some bs \<Rightarrow>
       let sh = parse seq_hdr_w bs; n = as_int (sh ! 0); total = sh ! 2;
           osz = nat n * sizeof seq_op_w in
       if n < 1 \<or> n > int ORKD_SEQ_MAX \<or> total > ORKD_MAX_BYTES then
         do { _ \<leftarrow> orkd_drain (c_fd c) (osz + total); orkd_send_error W (c_fd c) tag EPROTO; ret False }
       else do {
         mem \<leftarrow> malloc W osz;
         if \<not> mem then do { _ \<leftarrow> orkd_drain (c_fd c) (osz + total); orkd_send_error W (c_fd c) tag EOOM; ret False }
         else do {
           t \<leftarrow> orkd_readn (c_fd c) osz;
           case t of None \<Rightarrow> ret True
           | Some tb \<Rightarrow> do {
             mem \<leftarrow> malloc W (if total = 0 then 1 else total);
             if \<not> mem then do { _ \<leftarrow> orkd_drain (c_fd c) total; orkd_send_error W (c_fd c) tag EOOM; ret False }
             else do {
               b \<leftarrow> read_payload (c_fd c) total;
               case b of None \<Rightarrow> ret True
               | Some blob \<Rightarrow> do {
                   tables \<leftarrow> malloc_all W (replicate 2 (nat n));
                   ops \<leftarrow> (if tables then seq_ops W c blob (chunks seq_op_w (nat n) tb) 0 0 [] else ret None);
                   case ops of
                     None \<Rightarrow> reply_payload W (c_fd c) SEQ_OK tag (- 2) []
                   | Some ops \<Rightarrow> do {
                       (rc, out) \<leftarrow> ask_out W (Submit_seq ops) (seq_out ops);
                       reply_payload W (c_fd c) SEQ_OK tag rc out } } } } } } }"

end
