(* ===== verification/Orkd_Loop.thy ===== *)
theory Orkd_Loop
  imports Orkd_Handlers
begin

section \<open>The daemon's scheduler, ring service and main loop: \<open>src/orkd.c\<close>\<close>

text \<open>
  One quantum of the picked work item, one pass over the attached rings, and one tick of \<open>main\<close>'s
  loop: accept, serve the clients \<open>poll\<close> reported, dispatch, service the rings. What \<open>poll\<close>,
  \<open>accept\<close> and \<open>recvmsg\<close> deliver in a tick is the argument \<open>ev\<close>.
\<close>

subsection \<open>Dispatch\<close>

text \<open>Overwriting \<open>out\<close> at an offset of a buffer.\<close>

definition splice :: "byte list \<Rightarrow> nat \<Rightarrow> byte list \<Rightarrow> byte list" where
  "splice buf off out = fit (length buf) (take off buf @ out @ drop (off + length out) buf)"

definition quantum :: "int \<Rightarrow> work \<Rightarrow> int" where
  "quantum qn w =
     (let remaining = k_M w - k_m0 w in
      if qn = 1 then remaining else if remaining < ORKD_QUANTUM_ROWS then remaining else ORKD_QUANTUM_ROWS)"

definition a_operand :: "work \<Rightarrow> operand" where
  "a_operand w =
     (let off = k_m0 w * k_K w * orkd_esz_a (k_dtype w) in
      case k_A_imp w of None \<Rightarrow> Host (drop (nat off) (k_A w)) | Some p \<Rightarrow> Imported p off)"

definition c_operand :: "work \<Rightarrow> operand" where
  "c_operand w =
     (let off = k_m0 w * k_N w * 4 in
      case k_C_imp w of None \<Rightarrow> Host (drop (nat off) (k_C w)) | Some p \<Rightarrow> Imported p off)"

definition advance :: "int \<Rightarrow> int \<Rightarrow> byte list \<Rightarrow> work \<Rightarrow> work" where
  "advance q rc out w =
     w\<lparr>k_rc := (if rc \<noteq> 0 \<and> k_rc w = 0 then rc else k_rc w), k_m0 := k_m0 w + q,
       k_C := (case k_C_imp w of None \<Rightarrow> splice (k_C w) (nat (k_m0 w * k_N w * 4)) out | Some _ \<Rightarrow> k_C w)\<rparr>"

definition finish :: "world \<Rightarrow> work \<Rightarrow> unit dm" where
  "finish W w = do {
     _ \<leftarrow> orkd_send_msg W (k_fd w) RUN_OK (k_tag w)
           (enc_handle (k_weight_id w) (k_rc w)
             @ (if k_type w \<noteq> RUN_ZC2 \<and> k_rc w = 0 then fit (sz (k_M w * k_N w * 4)) (k_C w) else []));
     ret () }"

definition dispatch_one :: "world \<Rightarrow> unit dm" where
  "dispatch_one W = do {
     s \<leftarrow> State_Monad.get;
     case wk_pick (d_active s) (d_q s) of
       None \<Rightarrow> ret ()
     | Some k \<Rightarrow>
       let w = d_q s ! k in
       case find (\<lambda>i. c_fd (d_cl s ! i) = k_fd w) [0..<d_nc s] of
         None \<Rightarrow> wk_free k
       | Some i \<Rightarrow>
         (case wt_find (d_cl s ! i) (k_weight_id w) of
           None \<Rightarrow> do { orkd_send_error W (k_fd w) (k_tag w) EBADH; wk_free k }
         | Some cw \<Rightarrow> do {
             modify (d_active_update (\<lambda>_. k_domain w));
             let q = quantum (d_qn s) w in do {
               (if k_type w = RUN_ZC2 then note_call (Core_budget 1) else ret ());
               (rc, out) \<leftarrow> ask_out W (Mm_run (k_dtype w) (cw_w cw) q (a_operand w) (c_operand w)) (sz (q * k_N w * 4));
               (if k_type w = RUN_ZC2 then note_call (Core_budget 0) else ret ());
               wk_set k (advance q rc out);
               (if k_m0 w + q < k_M w then ret ()
                else do { finish W (advance q rc out w); wk_free k }) } }) }"

subsection \<open>The rings\<close>

definition answer_slot :: "int \<Rightarrow> nat \<Rightarrow> byte list \<Rightarrow> ring_slot \<Rightarrow> ring_slot" where
  "answer_slot rc cbytes out sl =
     sl\<lparr>rs_rc := rc, rs_cbytes := u32 cbytes, rs_state := RESP,
       rs_data := (if rc = 0 then take cbytes out @ drop cbytes (rs_data sl) else rs_data sl)\<rparr>"

text \<open>The request in slot \<open>ring_tail % nslots\<close>: refused with -1 when the weight is unknown or a size
  does not fit, else run on the slot's own bytes into the 64 KiB scratch.\<close>

definition ring_run :: "world \<Rightarrow> client \<Rightarrow> nat \<Rightarrow> ring_slot \<Rightarrow> ring_slot dm" where
  "ring_run W c slot_data sl =
     (let cbytes = sz (as_int (rs_M sl) * as_int (rs_N sl) * 4) in
      case wt_find c (rs_weight sl) of
        None \<Rightarrow> ret (answer_slot (- 1) cbytes [] sl)
      | Some cw \<Rightarrow>
          if cbytes > ORKD_RING_SLOT_DATA \<or> rs_abytes sl > slot_data then ret (answer_slot (- 1) cbytes [] sl)
          else do {
            (rc, out) \<leftarrow> ask_out W (Mm_run (rs_dtype sl) (cw_w cw) (as_int (rs_M sl)) (Host (rs_data sl))
                (Scratch ORKD_RING_SLOT_DATA)) ORKD_RING_SLOT_DATA;
            ret (answer_slot rc cbytes out sl) })"

fun ring_drain :: "world \<Rightarrow> nat \<Rightarrow> nat \<Rightarrow> bool dm" where
  "ring_drain W i 0 = ret False"
| "ring_drain W i (Suc b) = do {
     c \<leftarrow> cl_get i;
     shm \<leftarrow> gets d_shm;
     case c_ring c of
       None \<Rightarrow> ret False
     | Some p \<Rightarrow>
       let r = shm p; j = c_ring_tail c mod r_nslots r in
       if j < length (r_slots r) \<and> rs_state (r_slots r ! j) = REQ then do {
         sl \<leftarrow> ring_run W c (r_slot_data r) (r_slots r ! j);
         modify (d_shm_update (\<lambda>m. m(p := (m p)\<lparr>r_slots := (r_slots (m p))[j := sl]\<rparr>)));
         cl_upd i (\<lambda>c. c\<lparr>c_ring_tail := u32 (c_ring_tail c + 1)\<rparr>);
         modify (\<lambda>s. s\<lparr>d_submits := d_submits s + 1,
            d_wraps := (if u32 (c_ring_tail c + 1) mod r_nslots r = 0 then d_wraps s + 1 else d_wraps s)\<rparr>);
         _ \<leftarrow> ring_drain W i b;
         ret True }
       else ret False }"

fun ring_clients :: "world \<Rightarrow> nat list \<Rightarrow> bool dm" where
  "ring_clients W [] = ret False"
| "ring_clients W (i # is) = do {
     c \<leftarrow> cl_get i;
     shm \<leftarrow> gets d_shm;
     did \<leftarrow> (case c_ring c of None \<Rightarrow> ret False | Some p \<Rightarrow> ring_drain W i (r_nslots (shm p)));
     rest \<leftarrow> ring_clients W is;
     ret (did \<or> rest) }"

definition ring_service :: "world \<Rightarrow> bool dm" where
  "ring_service W = do { n \<leftarrow> gets d_nc; ring_clients W [0..<n] }"

subsection \<open>Dropping and accepting a client\<close>

fun note_all :: "ecall list \<Rightarrow> unit dm" where
  "note_all [] = ret ()"
| "note_all (c # cs) = do { note_call c; note_all cs }"

definition client_reclaim :: "nat \<Rightarrow> unit dm" where
  "client_reclaim i = do {
     c \<leftarrow> cl_get i;
     note_all (map (\<lambda>w. Mm_free (cw_w w)) (c_wt c));
     note_all (map (\<lambda>k. Kv_struct_free (kv_ptr k)) (c_kvt c));
     (case c_ring c of None \<Rightarrow> ret () | Some p \<Rightarrow> note_call (Munmap p));
     (if 0 < c_ring_fd c then note_call (Close (c_ring_fd c)) else ret ());
     cl_upd i (\<lambda>c. c\<lparr>c_wt := [], c_kvt := [], c_ring := None,
        c_ring_fd := (if 0 < c_ring_fd c then - 1 else c_ring_fd c)\<rparr>) }"

fun release_all :: "nat list \<Rightarrow> unit dm" where
  "release_all [] = ret ()"
| "release_all (d # ds) = do { orkd_dom_release (int d); release_all ds }"

definition drop_client :: "nat \<Rightarrow> unit dm" where
  "drop_client i = do {
     c \<leftarrow> cl_get i;
     (if c_hello c then modify (d_refs_update (\<lambda>r. r - 1)) else ret ());
     wk_purge_fd (c_fd c);
     client_reclaim i;
     orkd_dom_release (c_domain c);
     release_all (filter (\<lambda>d. d \<in> c_owned c) [1..<ORKD_NDOM]);
     note_call (Close (c_fd c));
     modify (\<lambda>s. s\<lparr>d_cl := (d_cl s)[i := d_cl s ! (d_nc s - 1)], d_nc := d_nc s - 1\<rparr>);
     modify (\<lambda>s. if d_refs s = 0 then s\<lparr>d_idle_reset := True\<rparr> else s) }"

text \<open>\<open>accept\<close>: the fields the source assigns; the others keep what the slot held.\<close>

definition accept_client :: "world \<Rightarrow> int \<Rightarrow> unit dm" where
  "accept_client W cfd = do {
     n \<leftarrow> gets d_nc;
     if n < ORKD_MAX_CLIENTS then do {
       d \<leftarrow> dom_alloc;
       cl_upd n (\<lambda>c. c\<lparr>c_fd := cfd, c_hello := False, c_cid := 0, c_wt := [], c_next_wid := 0,
          c_domain := int d, c_owned := {}, c_ring := None, c_ring_fd := 0, c_ring_tail := 0\<rparr>);
       modify (\<lambda>s. s\<lparr>d_nc := d_nc s + 1\<rparr>) }
     else do { orkd_send_error W cfd 0 EOOM; note_call (Close cfd) } }"

subsection \<open>One request\<close>

definition count_submit :: "unit dm" where
  "count_submit = modify (d_submits_update Suc)"

definition orkd_handle_hello :: "world \<Rightarrow> nat \<Rightarrow> nat \<Rightarrow> bool dm" where
  "orkd_handle_hello W i tag = do {
     c \<leftarrow> cl_get i;
     r \<leftarrow> orkd_readn (c_fd c) (sizeof hello_w);
     case r of
       None \<Rightarrow> ret True
     | Some _ \<Rightarrow> do {
         nid \<leftarrow> gets d_next_id;
         cores \<leftarrow> gets d_cores;
         modify (d_next_id_update Suc);
         cl_upd i (\<lambda>c. c\<lparr>c_cid := nid\<rparr>);
         (if \<not> c_hello c then do {
            cl_upd i (\<lambda>c. c\<lparr>c_hello := True\<rparr>); modify (d_refs_update Suc) }
          else ret ());
         _ \<leftarrow> orkd_send_msg W (c_fd c) WELCOME tag (unparse welcome_w [3, nid, cores, 0]);
         ret False } }"

definition handle_msg :: "world \<Rightarrow> nat \<Rightarrow> int \<times> int \<Rightarrow> nat \<Rightarrow> msg_type option \<Rightarrow> bool dm" where
  "handle_msg W i fds tag ty =
     (case ty of
        Some HELLO \<Rightarrow> orkd_handle_hello W i tag
      | Some PING \<Rightarrow> do { c \<leftarrow> cl_get i; _ \<leftarrow> orkd_send_msg W (c_fd c) PONG tag []; ret False }
      | Some BYE \<Rightarrow> ret True
      | Some PACK \<Rightarrow> orkd_handle_pack W i tag
      | Some KV_ALLOC \<Rightarrow> orkd_handle_kv_alloc W i tag
      | Some KV_APPEND \<Rightarrow> do { count_submit; orkd_handle_kv_append W i tag }
      | Some IMPORT \<Rightarrow> orkd_handle_import W i (fst fds) (snd fds) tag
      | Some FFN \<Rightarrow> do { count_submit; orkd_handle_ffn W i tag }
      | Some ATTN \<Rightarrow> do { count_submit; orkd_handle_attn W i tag }
      | Some ATTN_RR \<Rightarrow> do { count_submit; orkd_handle_attn_rr W i tag }
      | Some LAYER \<Rightarrow> do { count_submit; orkd_handle_layer W i tag }
      | Some RUN \<Rightarrow> do { count_submit; orkd_handle_run W i tag }
      | Some FREE \<Rightarrow> orkd_handle_free W i tag
      | Some SDP \<Rightarrow> do { count_submit; orkd_handle_sdp W i tag }
      | Some CHAIN \<Rightarrow> do { count_submit; orkd_handle_chain W i tag }
      | Some SEQ \<Rightarrow> do { count_submit; orkd_handle_seq W i tag }
      | Some RUN_ZC \<Rightarrow> do { count_submit; orkd_handle_run_zc W i (fst fds) tag }
      | Some RUN_ZC2 \<Rightarrow> do { count_submit; orkd_handle_run_zc2 W i (fst fds) (snd fds) tag }
      | Some DMABUF_PROBE \<Rightarrow> orkd_handle_dmabuf W i (fst fds) tag
      | Some RING_SETUP \<Rightarrow> orkd_handle_ring_setup W i (fst fds) tag
      | Some DOM_REQ \<Rightarrow> orkd_handle_dom_req W i tag
      | Some DOM_REL \<Rightarrow> orkd_handle_dom_rel W i tag
      | _ \<Rightarrow> do { c \<leftarrow> cl_get i; orkd_send_error W (c_fd c) tag EPROTO; ret False })"

text \<open>The descriptors a handler did not take are closed.\<close>

definition stray_fds :: "msg_type option \<Rightarrow> int \<times> int \<Rightarrow> int \<times> int" where
  "stray_fds ty fds =
     (if ty = Some IMPORT \<or> ty = Some RUN_ZC2 then (- 1, - 1)
      else if ty = Some RUN_ZC \<or> ty = Some DMABUF_PROBE \<or> ty = Some RING_SETUP then (- 1, snd fds)
      else fds)"

definition serve_client :: "world \<Rightarrow> nat \<Rightarrow> int \<times> int \<Rightarrow> unit dm" where
  "serve_client W i fds = do {
     c \<leftarrow> cl_get i;
     r \<leftarrow> orkd_readn (c_fd c) (sizeof hdr_w);
     case r of
       None \<Rightarrow> do { close2 (fst fds) (snd fds); drop_client i }
     | Some bs \<Rightarrow>
       let h = parse hdr_w bs; ty = decode_msg (h ! 0) in do {
         gone \<leftarrow> handle_msg W i fds (h ! 2) ty;
         close2 (fst (stray_fds ty fds)) (snd (stray_fds ty fds));
         if gone then drop_client i else ret () } }"

subsection \<open>One tick\<close>

text \<open>What a tick's \<open>poll\<close>, \<open>accept\<close> and \<open>recvmsg\<close> deliver.\<close>

record tick_events =
  ev_accept :: "int option"
  ev_ready :: "nat \<Rightarrow> bool"
  ev_fds :: "nat \<Rightarrow> int \<times> int"

fun serve_all :: "world \<Rightarrow> tick_events \<Rightarrow> nat list \<Rightarrow> unit dm" where
  "serve_all W ev [] = ret ()"
| "serve_all W ev (i # is) = do {
     n \<leftarrow> gets d_nc;
     if i < n then do {
       (if ev_ready ev i then serve_client W i (ev_fds ev i) else ret ());
       serve_all W ev is }
     else ret () }"

definition attached_rings :: "daemon \<Rightarrow> nat" where
  "attached_rings s = length (filter (\<lambda>i. c_ring (d_cl s ! i) \<noteq> None) [0..<d_nc s])"

definition tick :: "world \<Rightarrow> tick_events \<Rightarrow> unit dm" where
  "tick W ev = do {
     nring \<leftarrow> gets attached_rings;
     npoll \<leftarrow> gets d_nc;
     (case ev_accept ev of None \<Rightarrow> ret () | Some cfd \<Rightarrow> if 0 \<le> cfd then accept_client W cfd else ret ());
     serve_all W ev [0..<npoll];
     qn \<leftarrow> gets d_qn;
     (if 0 < qn then dispatch_one W else ret ());
     (if 0 < nring then do { _ \<leftarrow> ring_service W; ret () } else ret ()) }"

text \<open>\<open>poll\<close>'s timeout, and the idle reap that ends the loop.\<close>

definition poll_timeout :: "daemon \<Rightarrow> int \<Rightarrow> int \<Rightarrow> int \<Rightarrow> int \<Rightarrow> int \<Rightarrow> int" where
  "poll_timeout s ring_idle ring_spin_ms ring_backoff_ms idle_ms idle_for =
     (if 0 < d_qn s then 0
      else if 0 < attached_rings s then if ring_idle < ring_spin_ms then 0 else ring_backoff_ms
      else if d_refs s = 0 then let left = idle_ms - idle_for in if 0 < left then left else 0
      else - 1)"

definition reaps :: "daemon \<Rightarrow> bool \<Rightarrow> int \<Rightarrow> int \<Rightarrow> bool" where
  "reaps s timed_out idle_ms idle_for \<longleftrightarrow>
     timed_out \<and> d_qn s = 0 \<and> attached_rings s = 0 \<and> d_refs s = 0 \<and> idle_ms \<le> idle_for"

end
