(* ===== verification/Orkd_Frame.thy ===== *)
theory Orkd_Frame
  imports Orkd_Loop
begin

section \<open>Frames: what the daemon's programs leave alone\<close>

text \<open>
  \<open>steps R m\<close>: every run of the program \<open>m\<close> relates its first state to its last one by \<open>R\<close>. For a
  reflexive and transitive \<open>R\<close> it composes, so a handler is covered by the few operations it is
  made of. The locale \<open>frame\<close> states that contract once; \<open>quiet_frame\<close> adds that reading a stream
  and calling out are steps, which is all that the inline handlers do. Preservation of an invariant
  is the frame of the relation \<open>holds I\<close>.
\<close>

definition steps :: "(daemon \<Rightarrow> daemon \<Rightarrow> bool) \<Rightarrow> 'a dm \<Rightarrow> bool" where
  "steps R m \<longleftrightarrow> (\<forall>s. R s (snd (State_Monad.run_state m s)))"

definition holds :: "(daemon \<Rightarrow> bool) \<Rightarrow> daemon \<Rightarrow> daemon \<Rightarrow> bool" where
  "holds I s s' \<longleftrightarrow> (I s \<longrightarrow> I s')"

lemma run_gets [simp]: "State_Monad.run_state (gets f) s = (f s, s)"
  by (simp add: gets_def)

lemma run_modify [simp]: "State_Monad.run_state (modify f) s = ((), f s)"
  by (simp add: State_Monad.update_def)

locale frame =
  fixes R :: "daemon \<Rightarrow> daemon \<Rightarrow> bool"
  assumes R_refl: "R s s"
    and R_trans: "R s t \<Longrightarrow> R t u \<Longrightarrow> R s u"
begin

lemma st_ret: "steps R (ret x)"
  by (simp add: steps_def R_refl)

lemma st_bind: "steps R m \<Longrightarrow> (\<And>x. steps R (f x)) \<Longrightarrow> steps R (m \<bind> f)"
  unfolding steps_def by (auto simp: case_prod_unfold intro: R_trans)

lemma st_gets: "steps R (gets f)"
  by (simp add: steps_def R_refl)

lemma st_get: "steps R State_Monad.get"
  by (simp add: steps_def R_refl)

lemma st_modify: "(\<And>s. R s (f s)) \<Longrightarrow> steps R (modify f)"
  by (simp add: steps_def)

lemma st_if: "(b \<Longrightarrow> steps R m) \<Longrightarrow> (\<not> b \<Longrightarrow> steps R n) \<Longrightarrow> steps R (if b then m else n)"
  by simp

lemma st_let: "steps R (f v) \<Longrightarrow> steps R (let x = v in f x)"
  by simp

lemma st_option: "steps R m \<Longrightarrow> (\<And>x. steps R (f x)) \<Longrightarrow> steps R (case v of None \<Rightarrow> m | Some x \<Rightarrow> f x)"
  by (cases v) auto

lemma st_prod: "(\<And>a b. steps R (f a b)) \<Longrightarrow> steps R (case p of (a, b) \<Rightarrow> f a b)"
  by (cases p) auto

lemma st_rr: "(\<And>c. steps R (f c)) \<Longrightarrow> steps R m \<Longrightarrow> steps R n \<Longrightarrow>
    steps R (case b of RR_ok c \<Rightarrow> f c | RR_oom \<Rightarrow> m | RR_bad \<Rightarrow> n)"
  by (cases b) auto

lemma st_cl_get: "steps R (cl_get i)"
  unfolding cl_get_def by (rule st_gets)

lemmas st_control = st_ret st_bind st_gets st_get st_if st_let st_option st_prod st_rr st_cl_get

end

locale quiet_frame = frame +
  assumes R_log: "R s (d_log_update f s)"
    and R_inp: "R s (d_inp_update g s)"
begin

lemma st_note: "steps R (note_call c)"
  unfolding note_call_def by (rule st_modify) (rule R_log)

lemma st_ask_ptr: "steps R (ask_ptr W c)"
  unfolding ask_ptr_def by (intro st_control st_note)

lemma st_ask_rc: "steps R (ask_rc W c)"
  unfolding ask_rc_def by (intro st_control st_note)

lemma st_ask_field: "steps R (ask_field W c)"
  unfolding ask_field_def by (intro st_control st_ask_ptr)

lemma st_ask_out: "steps R (ask_out W c n)"
  unfolding ask_out_def by (intro st_control st_note)

lemma st_malloc: "steps R (malloc W n)"
  unfolding malloc_def by (intro st_control st_ask_ptr)

lemma st_malloc_buf: "steps R (malloc_buf W n)"
  unfolding malloc_buf_def by (intro st_control st_note)

lemma st_malloc_all: "steps R (malloc_all W ns)"
  by (induction ns) (auto intro!: st_control st_malloc)

lemma st_close: "steps R (close_fd fd)"
  unfolding close_fd_def by (intro st_control st_note)

lemma st_close2: "steps R (close2 a b)"
  unfolding close2_def by (intro st_control st_close)

lemma st_readn: "steps R (orkd_readn fd n)"
  unfolding orkd_readn_def by (intro st_control st_modify R_inp)

lemma st_payload: "steps R (read_payload fd n)"
  unfolding read_payload_def by (intro st_control st_readn)

lemma st_drain: "steps R (orkd_drain fd n)"
proof (induction fd n rule: orkd_drain.induct)
  case (1 fd n)
  show ?case
  proof (cases "n = 0")
    case False
    with 1 show ?thesis by (subst orkd_drain.simps) (auto intro!: st_control st_readn)
  qed (subst orkd_drain.simps, simp add: st_ret)
qed

lemma st_send: "steps R (orkd_send_msg W fd ty tag p)"
  unfolding orkd_send_msg_def by (intro st_control st_ask_rc)

lemma st_error: "steps R (orkd_send_error W fd tag e)"
  unfolding orkd_send_error_def by (intro st_control st_send)

lemma st_reply_rc: "steps R (reply_rc W fd ty tag hid rc)"
  unfolding reply_rc_def by (intro st_control st_send)

lemma st_reply_payload: "steps R (reply_payload W fd ty tag rc p)"
  unfolding reply_payload_def by (intro st_control st_send)

lemma st_note_all: "steps R (note_all cs)"
  by (induction cs) (auto intro!: st_control st_note)

lemma st_run_domain: "steps R (run_domain W d w)"
  unfolding run_domain_def by (intro st_control st_ask_rc)

lemmas st_quiet = st_control st_note st_ask_ptr st_ask_rc st_ask_field st_ask_out st_malloc st_malloc_buf
  st_malloc_all st_close st_close2 st_readn st_payload st_drain st_send st_error st_reply_rc
  st_reply_payload st_note_all st_run_domain

lemma st_ffn: "steps R (orkd_handle_ffn W i tag)"
  unfolding orkd_handle_ffn_def by (intro st_quiet)

lemma st_attn: "steps R (orkd_handle_attn W i tag)"
  unfolding orkd_handle_attn_def by (intro st_quiet)

lemma st_rr_dims: "steps R (rr_dims_ok W kt ones v Kp Nk dv)"
  unfolding rr_dims_ok_def by (intro st_quiet)

lemma st_rr_chains: "steps R (rr_chains W c Kp Nk dv sizes ts acc)"
proof (induction ts arbitrary: acc)
  case (Cons t ts)
  show ?case
    by (auto intro!: st_quiet st_rr_dims Cons split: option.splits)
qed (simp add: st_ret)

lemma st_attn_rr: "steps R (orkd_handle_attn_rr W i tag)"
  unfolding orkd_handle_attn_rr_def by (intro st_quiet st_rr_chains)

lemma st_layer: "steps R (orkd_handle_layer W i tag)"
  unfolding orkd_handle_layer_def by (intro st_quiet)

lemma st_sdp: "steps R (orkd_handle_sdp W i tag)"
  unfolding orkd_handle_sdp_def by (intro st_quiet)

lemma st_chain_tasks: "steps R (chain_tasks W c blob ts aoff acc)"
  by (induction ts arbitrary: aoff acc) (auto intro!: st_quiet simp: Let_def split: option.splits)

lemma st_chain: "steps R (orkd_handle_chain W i tag)"
  unfolding orkd_handle_chain_def by (intro st_quiet st_chain_tasks)

lemma st_seq_ops: "steps R (seq_ops W c blob ps j inoff acc)"
  by (induction ps arbitrary: j inoff acc) (auto intro!: st_quiet simp: Let_def)

lemma st_seq: "steps R (orkd_handle_seq W i tag)"
  unfolding orkd_handle_seq_def by (intro st_quiet st_seq_ops)

lemma st_dmabuf: "steps R (orkd_handle_dmabuf W i dfd tag)"
  unfolding orkd_handle_dmabuf_def by (intro st_quiet)

lemma st_kv_append: "steps R (orkd_handle_kv_append W i tag)"
  unfolding orkd_handle_kv_append_def by (intro st_quiet)

lemmas st_inline = st_ffn st_attn st_attn_rr st_layer st_sdp st_chain st_seq st_dmabuf st_kv_append

end

end
