(* ===== verification/Orkd_Inv.thy ===== *)
theory Orkd_Inv
  imports Orkd_Frame Pool
begin

section \<open>Invariants of the daemon\<close>

text \<open>
  What holds in every state the daemon reaches: requests answered inline touch nothing but the stream
  and the call log, the queue and the client table keep their shape, and the IOMMU domains in use are
  those of the live clients (the pool contract of theory \<open>Pool\<close>, interpreted on the daemon's handlers).
\<close>

subsection \<open>Inline requests are quiet\<close>

text \<open>Only the client's stream and the call history move.\<close>

definition quiet_rel :: "daemon \<Rightarrow> daemon \<Rightarrow> bool" where
  "quiet_rel s s' \<longleftrightarrow> (\<exists>inp lg. s' = s\<lparr>d_inp := inp, d_log := lg\<rparr>)"

lemma quiet_relI: "s' = s\<lparr>d_inp := inp, d_log := lg\<rparr> \<Longrightarrow> quiet_rel s s'"
  by (auto simp: quiet_rel_def)

interpretation quiet: quiet_frame quiet_rel
proof
  show "quiet_rel s s" for s by (rule quiet_relI [where inp = "d_inp s" and lg = "d_log s"]) simp
  show "quiet_rel s u" if "quiet_rel s t" "quiet_rel t u" for s t u
  proof -
    from that obtain a b c d where "t = s\<lparr>d_inp := a, d_log := b\<rparr>" "u = t\<lparr>d_inp := c, d_log := d\<rparr>"
      unfolding quiet_rel_def by blast
    then show ?thesis by (intro quiet_relI [where inp = c and lg = d]) simp
  qed
  show "quiet_rel s (d_log_update f s)" for s f by (rule quiet_relI [where inp = "d_inp s" and lg = "f (d_log s)"]) simp
  show "quiet_rel s (d_inp_update f s)" for s f by (rule quiet_relI [where inp = "f (d_inp s)" and lg = "d_log s"]) simp
qed

lemma quiet_relD:
  assumes "quiet_rel s s'"
  shows "d_cl s' = d_cl s" "d_nc s' = d_nc s" "d_inuse s' = d_inuse s" "d_q s' = d_q s" "d_qn s' = d_qn s"
    "d_wseq s' = d_wseq s" "d_active s' = d_active s" "d_refs s' = d_refs s" "d_next_id s' = d_next_id s"
    "d_shm s' = d_shm s" "d_submits s' = d_submits s" "d_per_client s' = d_per_client s" "d_cores s' = d_cores s"
    "d_idle_reset s' = d_idle_reset s" "d_wraps s' = d_wraps s"
  using assms by (auto simp: quiet_rel_def)

text \<open>The relations and invariants below do not look at the stream or the history.\<close>

definition blind :: "(daemon \<Rightarrow> bool) \<Rightarrow> bool" where
  "blind I \<longleftrightarrow> (\<forall>s s'. quiet_rel s s' \<longrightarrow> I s \<longrightarrow> I s')"

lemma quiet_holds: "blind I \<Longrightarrow> steps quiet_rel m \<Longrightarrow> steps (holds I) m"
  by (auto simp: blind_def steps_def holds_def)

lemma holds_frame: "frame (holds I)"
  by unfold_locales (auto simp: holds_def)

interpretation holds: frame "holds I" for I
  by (rule holds_frame)

lemma holds_quiet_frame:
  assumes "blind I"
  shows "quiet_frame (holds I)"
proof
  have b: "quiet_rel s s' \<Longrightarrow> holds I s s'" for s s' using assms by (auto simp: blind_def holds_def)
  show "holds I s (d_log_update f s)" for s f by (rule b) (rule quiet.R_log)
  show "holds I s (d_inp_update g s)" for s g by (rule b) (rule quiet.R_inp)
qed

text \<open>Hoare triples, for the programs whose steps only together keep an invariant.\<close>

definition triple :: "(daemon \<Rightarrow> bool) \<Rightarrow> 'a dm \<Rightarrow> ('a \<Rightarrow> daemon \<Rightarrow> bool) \<Rightarrow> bool" where
  "triple P m Q \<longleftrightarrow> (\<forall>s. P s \<longrightarrow> (case State_Monad.run_state m s of (x, s') \<Rightarrow> Q x s'))"

lemma triple_bind: "triple P m Q \<Longrightarrow> (\<And>x. triple (Q x) (f x) T) \<Longrightarrow> triple P (m \<bind> f) T"
  by (fastforce simp: triple_def case_prod_unfold)

lemma triple_ret: "(\<And>s. P s \<Longrightarrow> Q x s) \<Longrightarrow> triple P (ret x) Q"
  by (simp add: triple_def)

lemma triple_steps: "triple I m (\<lambda>_. I) \<longleftrightarrow> steps (holds I) m"
  by (simp add: triple_def steps_def holds_def case_prod_unfold)

lemma triple_quiet: "blind I \<Longrightarrow> steps quiet_rel m \<Longrightarrow> triple I m (\<lambda>_. I)"
  by (simp add: triple_steps quiet_holds)

lemma triple_conseq: "triple P m Q \<Longrightarrow> (\<And>s. P' s \<Longrightarrow> P s) \<Longrightarrow> (\<And>x s. Q x s \<Longrightarrow> Q' x s) \<Longrightarrow> triple P' m Q'"
  by (fastforce simp: triple_def case_prod_unfold)

lemma triple_cl_get: "(\<And>s. P s \<Longrightarrow> Q (d_cl s ! i) s) \<Longrightarrow> triple P (cl_get i) Q"
  by (simp add: triple_def cl_get_def)

text \<open>The queued runs and the dispatcher leave every client slot and the domain pool alone.\<close>

definition queue_rel :: "daemon \<Rightarrow> daemon \<Rightarrow> bool" where
  "queue_rel s s' \<longleftrightarrow> d_cl s' = d_cl s \<and> d_nc s' = d_nc s \<and> d_inuse s' = d_inuse s \<and> d_refs s' = d_refs s
     \<and> d_per_client s' = d_per_client s \<and> d_shm s' = d_shm s \<and> d_next_id s' = d_next_id s"

interpretation queue: quiet_frame queue_rel
  by unfold_locales (auto simp: queue_rel_def)

lemma queue_modify: "(\<And>s. queue_rel s (f s)) \<Longrightarrow> steps queue_rel (modify f)"
  by (rule queue.st_modify)

lemma queue_wk_alloc: "steps queue_rel orkd_wk_alloc"
  unfolding orkd_wk_alloc_def by (intro queue.st_quiet queue_modify) (simp add: queue_rel_def)

lemma queue_wk_set: "steps queue_rel (wk_set k f)"
  unfolding wk_set_def by (intro queue_modify) (simp add: queue_rel_def)

lemma queue_wk_free: "steps queue_rel (wk_free k)"
  unfolding wk_free_def by (intro queue.st_quiet queue_modify) (simp add: queue_rel_def)

lemma queue_purge_from: "steps queue_rel (wk_purge_from fd ks)"
  by (induction ks) (auto intro!: queue.st_quiet queue_wk_free)

lemma queue_purge: "steps queue_rel (wk_purge_fd fd)"
  unfolding wk_purge_fd_def by (intro queue.st_quiet queue_purge_from)

lemma queue_enqueue: "steps queue_rel refuse \<Longrightarrow> steps queue_rel (enqueue W b refuse rd w fill)"
  unfolding enqueue_def by (intro queue.st_quiet queue_wk_alloc queue_wk_set)

lemma queue_run: "steps queue_rel (orkd_handle_run W i tag)"
  unfolding orkd_handle_run_def by (intro queue.st_quiet queue_enqueue)

lemma queue_run_zc: "steps queue_rel (orkd_handle_run_zc W i fd tag)"
  unfolding orkd_handle_run_zc_def by (intro queue.st_quiet queue_enqueue)

lemma queue_run_zc2: "steps queue_rel (orkd_handle_run_zc2 W i fd fd' tag)"
  unfolding orkd_handle_run_zc2_def by (intro queue.st_quiet queue_enqueue)

lemma queue_finish: "steps queue_rel (finish W w)"
  unfolding finish_def by (intro queue.st_quiet)

lemma queue_dispatch: "steps queue_rel (dispatch_one W)"
  unfolding dispatch_one_def
  by (intro queue.st_quiet queue_wk_free queue_wk_set queue_finish queue_modify) (simp add: queue_rel_def)

text \<open>Every request but HELLO and the two domain requests, and the ring service, keep what identifies
  the clients and who holds which domain.\<close>

definition same_slot :: "client \<Rightarrow> client \<Rightarrow> bool" where
  "same_slot c c' \<longleftrightarrow> c_fd c' = c_fd c \<and> c_hello c' = c_hello c \<and> c_domain c' = c_domain c \<and> c_owned c' = c_owned c"

definition serve_rel :: "daemon \<Rightarrow> daemon \<Rightarrow> bool" where
  "serve_rel s s' \<longleftrightarrow> d_nc s' = d_nc s \<and> d_inuse s' = d_inuse s \<and> d_refs s' = d_refs s
     \<and> d_per_client s' = d_per_client s \<and> list_all2 same_slot (d_cl s) (d_cl s')"

lemma same_slot_refl [simp]: "same_slot c c"
  by (simp add: same_slot_def)

lemma same_slots_refl [simp]: "list_all2 same_slot cs cs"
  by (simp add: list_all2_refl)

lemma same_slot_trans: "same_slot a b \<Longrightarrow> same_slot b c \<Longrightarrow> same_slot a c"
  by (simp add: same_slot_def)

interpretation serve: quiet_frame serve_rel
  by unfold_locales (auto simp: serve_rel_def intro: list_all2_trans same_slot_trans)

lemma quiet_serve: "quiet_rel s s' \<Longrightarrow> serve_rel s s'"
  by (auto simp: quiet_rel_def serve_rel_def)

lemma queue_serve: "steps queue_rel m \<Longrightarrow> steps serve_rel m"
  by (auto simp: steps_def queue_rel_def serve_rel_def)

lemma serve_modify: "(\<And>s. serve_rel s (f s)) \<Longrightarrow> steps serve_rel (modify f)"
  by (rule serve.st_modify)

lemma serve_cl_upd: "(\<And>c. same_slot c (f c)) \<Longrightarrow> steps serve_rel (cl_upd i f)"
  unfolding cl_upd_def
  by (intro serve_modify) (auto simp: serve_rel_def list_all2_conv_all_nth nth_upd)

lemma serve_register: "steps serve_rel (register_weight i w K N dt)"
  unfolding register_weight_def by (intro serve.st_quiet serve_cl_upd) (simp add: same_slot_def)

lemma serve_import: "steps serve_rel (orkd_handle_import W i a b tag)"
  unfolding orkd_handle_import_def by (intro serve.st_quiet serve_register)

lemma serve_pack: "steps serve_rel (orkd_handle_pack W i tag)"
  unfolding orkd_handle_pack_def by (intro serve.st_quiet serve_register)

lemma serve_free: "steps serve_rel (orkd_handle_free W i tag)"
  unfolding orkd_handle_free_def by (intro serve.st_quiet serve_cl_upd) (simp add: same_slot_def)

lemma serve_kv_alloc: "steps serve_rel (orkd_handle_kv_alloc W i tag)"
  unfolding orkd_handle_kv_alloc_def by (intro serve.st_quiet serve_cl_upd) (simp add: same_slot_def Let_def)

lemma serve_ring_setup: "steps serve_rel (orkd_handle_ring_setup W i fd tag)"
  unfolding orkd_handle_ring_setup_def by (intro serve.st_quiet serve_cl_upd) (simp add: same_slot_def)

lemma serve_ring_run: "steps serve_rel (ring_run W c n sl)"
  unfolding ring_run_def by (intro serve.st_quiet)

lemma serve_ring_drain: "steps serve_rel (ring_drain W i b)"
proof (induction b)
  case (Suc b)
  show ?case
    unfolding ring_drain.simps
    by (intro serve.st_quiet serve_ring_run serve_modify serve_cl_upd Suc) (auto simp: serve_rel_def same_slot_def)
qed (simp add: serve.st_ret)

lemma serve_ring_clients: "steps serve_rel (ring_clients W is)"
  by (induction "is") (auto intro!: serve.st_quiet serve_ring_drain)

lemma serve_ring_service: "steps serve_rel (ring_service W)"
  unfolding ring_service_def by (intro serve.st_quiet serve_ring_clients)

lemmas serve_steps = serve.st_inline serve_import serve_pack serve_free serve_kv_alloc serve_ring_setup
  queue_serve [OF queue_run] queue_serve [OF queue_run_zc] queue_serve [OF queue_run_zc2]

lemma serve_count: "steps serve_rel count_submit"
  unfolding count_submit_def by (intro serve_modify) (simp add: serve_rel_def)

lemma serve_handle_msg:
  assumes "ty \<noteq> Some HELLO" "ty \<noteq> Some DOM_REQ" "ty \<noteq> Some DOM_REL"
  shows "steps serve_rel (handle_msg W i fds tag ty)"
proof -
  have e: "steps serve_rel (do { c \<leftarrow> cl_get i; orkd_send_error W (c_fd c) tag EPROTO; ret False })"
    by (intro serve.st_quiet)
  have p: "steps serve_rel (do { c \<leftarrow> cl_get i; _ \<leftarrow> orkd_send_msg W (c_fd c) PONG tag []; ret False })"
    by (intro serve.st_quiet)
  show ?thesis
    using assms
    by (cases ty; (cases "the ty")?)
      (auto simp: handle_msg_def e p intro!: serve_steps serve.st_bind [OF serve_count] serve.st_ret)
qed

subsection \<open>The domain pool\<close>

definition dom_free :: "bool list \<Rightarrow> nat \<Rightarrow> bool" where
  "dom_free u d \<longleftrightarrow> \<not> u ! d"

lemma dom_take_Some:
  assumes "dom_take u = Some (d, u')"
  shows "1 \<le> d \<and> d < 64 \<and> \<not> u ! d \<and> u' = u[d := True]"
proof -
  from assms have f: "find (\<lambda>d. \<not> u ! d) [1..<ORKD_NDOM] = Some d" "u' = u[d := True]"
    by (auto simp: dom_take_def split: option.splits)
  then obtain k where "k < length [1..<ORKD_NDOM]" "\<not> u ! ([1..<ORKD_NDOM] ! k)" "d = [1..<ORKD_NDOM] ! k"
    by (auto simp: find_Some_iff)
  with f show ?thesis by (auto simp: ORKD_NDOM_def)
qed

lemma dom_take_None: "dom_take u = None \<longleftrightarrow> (\<forall>d. 1 \<le> d \<and> d < 64 \<longrightarrow> u ! d)"
proof (cases "dom_take u")
  case None
  then show ?thesis by (auto simp: dom_take_def find_None_iff ORKD_NDOM_def split: option.splits)
next
  case (Some p)
  with dom_take_Some [of u "fst p" "snd p"] show ?thesis by auto
qed

interpretation domp: pool "\<lambda>u. length u = 64" "{1..<64}" dom_free dom_take dom_give
proof
  fix u d u' x
  show "dom_take u = Some (d, u') \<Longrightarrow> length u = 64 \<Longrightarrow> length u' = 64 \<and> d \<in> {1..<64} \<and> dom_free u d"
    using dom_take_Some [of u d u'] by (auto simp: dom_free_def)
  show "length u = 64 \<Longrightarrow> dom_take u = Some (d, u') \<Longrightarrow> x \<in> {1..<64} \<Longrightarrow> dom_free u' x = (dom_free u x \<and> x \<noteq> d)"
    using dom_take_Some [of u d u'] by (auto simp: dom_free_def nth_upd)
  show "(dom_take u = None) = (\<forall>x\<in>{1..<64}. \<not> dom_free u x)"
    by (auto simp: dom_take_None dom_free_def)
  show "length u = 64 \<Longrightarrow> length (dom_give d u) = 64" by (simp add: dom_give_def)
  show "length u = 64 \<Longrightarrow> x \<in> {1..<64} \<Longrightarrow> dom_free (dom_give d u) x = (dom_free u x \<or> x = d)"
    by (auto simp: dom_free_def dom_give_def nth_upd)
qed

text \<open>The domains a live client slot holds: those it asked for and its automatic one.\<close>

definition held :: "daemon \<Rightarrow> nat \<Rightarrow> nat set" where
  "held s i = (if i < d_nc s then c_owned (d_cl s ! i) \<union> {d. 1 \<le> d \<and> c_domain (d_cl s ! i) = int d} else {})"

definition slots_ok :: "daemon \<Rightarrow> bool" where
  "slots_ok s \<longleftrightarrow> length (d_cl s) = 64 \<and> d_nc s \<le> 64 \<and>
     (\<forall>i < d_nc s. 0 \<le> c_domain (d_cl s ! i) \<and> c_domain (d_cl s ! i) < 64
        \<and> nat (c_domain (d_cl s ! i)) \<notin> c_owned (d_cl s ! i))"

definition pool_inv :: "daemon \<Rightarrow> bool" where
  "pool_inv s \<longleftrightarrow> slots_ok s \<and> domp.exclusive (d_inuse s) (held s)"

lemma pool_inv_serve: "serve_rel s s' \<Longrightarrow> pool_inv s \<Longrightarrow> pool_inv s'"
proof -
  assume r: "serve_rel s s'" and p: "pool_inv s"
  have eq: "length (d_cl s') = length (d_cl s)" "d_nc s' = d_nc s" "d_inuse s' = d_inuse s"
    and same: "\<And>i. i < length (d_cl s) \<Longrightarrow> same_slot (d_cl s ! i) (d_cl s' ! i)"
    using r by (auto simp: serve_rel_def list_all2_conv_all_nth)
  have i: "i < length (d_cl s)" if "i < d_nc s" for i using that p by (auto simp: pool_inv_def slots_ok_def)
  have "held s' = held s"
    using same i by (auto simp: fun_eq_iff held_def eq same_slot_def)
  moreover have "slots_ok s'" using p same i by (auto simp: pool_inv_def slots_ok_def eq same_slot_def)
  ultimately show ?thesis using p by (simp add: pool_inv_def eq)
qed

lemma pool_inv_blind: "blind pool_inv"
  unfolding blind_def
proof (intro allI impI)
  fix s s' assume "quiet_rel s s'" "pool_inv s"
  then show "pool_inv s'" using quiet_serve pool_inv_serve by blast
qed

lemma serve_pool: "steps serve_rel m \<Longrightarrow> steps (holds pool_inv) m"
  using pool_inv_serve by (auto simp: steps_def holds_def)

lemma run_cl_upd [simp]:
  "State_Monad.run_state (cl_upd i f) s = ((), s\<lparr>d_cl := (d_cl s)[i := f (d_cl s ! i)]\<rparr>)"
  by (simp add: cl_upd_def)

lemma run_cl_get [simp]: "State_Monad.run_state (cl_get i) s = (d_cl s ! i, s)"
  by (simp add: cl_get_def)

text \<open>Taking a domain into the slot that asked for it, and giving one back.\<close>

lemma pool_add_owned:
  assumes "pool_inv s" "i < d_nc s" "dom_take (d_inuse s) = Some (d, u')"
  shows "pool_inv (s\<lparr>d_inuse := u', d_cl := (d_cl s)[i := (d_cl s ! i)\<lparr>c_owned := insert d (c_owned (d_cl s ! i))\<rparr>]\<rparr>)"
    (is "pool_inv ?t")
proof -
  note d = dom_take_Some [OF assms(3)]
  have L: "length (d_cl s) = 64" "d_nc s \<le> 64" using assms(1) by (auto simp: pool_inv_def slots_ok_def)
  have x: "domp.exclusive (d_inuse s) (held s)" using assms(1) by (simp add: pool_inv_def)
  have "dom_free (d_inuse s) d" "d \<in> {1..<64}" using d by (simp_all add: dom_free_def)
  then have nh: "\<And>j. d \<notin> held s j" using x unfolding domp.exclusive_def by blast
  have "held ?t = (held s)(i := insert d (held s i))"
    using assms(2) L by (auto simp: fun_eq_iff held_def nth_upd)
  moreover have "nat (c_domain (d_cl s ! i)) \<noteq> d"
    using nh [of i] assms(1,2) d by (auto simp: held_def pool_inv_def slots_ok_def)
  then have "slots_ok ?t" using assms(1,2) L by (auto simp: pool_inv_def slots_ok_def nth_upd)
  ultimately show ?thesis using domp.exclusive_take [OF x assms(3), of i] by (simp add: pool_inv_def)
qed

lemma pool_del_owned:
  assumes "pool_inv s" "i < d_nc s" "d \<in> c_owned (d_cl s ! i)"
  shows "pool_inv (d_inuse_update (dom_give d)
      (s\<lparr>d_cl := (d_cl s)[i := (d_cl s ! i)\<lparr>c_owned := c_owned (d_cl s ! i) - {d}\<rparr>]\<rparr>))" (is "pool_inv ?t")
proof -
  have L: "length (d_cl s) = 64" "d_nc s \<le> 64" using assms(1) by (auto simp: pool_inv_def slots_ok_def)
  have x: "domp.exclusive (d_inuse s) (held s)" using assms(1) by (simp add: pool_inv_def)
  have h: "d \<in> held s i" using assms by (simp add: held_def)
  have nd: "c_domain (d_cl s ! i) \<noteq> int d" using assms by (auto simp: pool_inv_def slots_ok_def)
  have "held ?t = (held s)(i := held s i - {d})"
    using assms(2) L nd by (auto simp: fun_eq_iff held_def nth_upd)
  moreover have "slots_ok ?t" using assms(1,2) L by (auto simp: pool_inv_def slots_ok_def nth_upd)
  ultimately show ?thesis using domp.exclusive_give [OF x h] by (simp add: pool_inv_def)
qed

text \<open>The invariant of a handler that serves slot \<open>i\<close>.\<close>

definition pool_at :: "nat \<Rightarrow> daemon \<Rightarrow> bool" where
  "pool_at i s \<longleftrightarrow> pool_inv s \<and> i < d_nc s"

lemma pool_at_serve: "serve_rel s s' \<Longrightarrow> pool_at i s \<Longrightarrow> pool_at i s'"
  using pool_inv_serve by (auto simp: pool_at_def serve_rel_def)

lemma pool_at_blind: "blind (pool_at i)"
  unfolding blind_def using quiet_serve pool_at_serve by blast

lemma serve_pool_at: "steps serve_rel m \<Longrightarrow> steps (holds (pool_at i)) m"
  using pool_at_serve by (auto simp: steps_def holds_def)

lemma blindD: "blind I \<Longrightarrow> steps quiet_rel m \<Longrightarrow> I s \<Longrightarrow> I (snd (State_Monad.run_state m s))"
  by (auto simp: blind_def steps_def)

lemma run_dom_alloc:
  "State_Monad.run_state orkd_dom_alloc_explicit s =
     (case dom_take (d_inuse s) of None \<Rightarrow> (0, s) | Some (d, u') \<Rightarrow> (d, s\<lparr>d_inuse := u'\<rparr>))"
  by (auto simp: orkd_dom_alloc_explicit_def split: option.splits)

lemma pool_dom_req: "steps (holds (pool_at i)) (orkd_handle_dom_req W i tag)"
  unfolding steps_def holds_def
proof (intro allI impI)
  fix s assume p: "pool_at i s"
  have q: "steps quiet_rel (reply_rc W fd ty tag hid rc)" for fd ty hid rc by (rule quiet.st_reply_rc)
  show "pool_at i (snd (State_Monad.run_state (orkd_handle_dom_req W i tag) s))"
  proof (cases "dom_take (d_inuse s)")
    case None
    then show ?thesis
      using blindD [OF pool_at_blind q p]
      by (simp add: orkd_handle_dom_req_def run_dom_alloc case_prod_unfold)
  next
    case (Some du)
    obtain d u' where du: "dom_take (d_inuse s) = Some (d, u')" using Some by (cases du) auto
    have d: "0 < d" using dom_take_Some [OF du] by simp
    have "pool_at i (s\<lparr>d_inuse := u', d_cl := (d_cl s)[i := (d_cl s ! i)\<lparr>c_owned := insert d (c_owned (d_cl s ! i))\<rparr>]\<rparr>)"
      using pool_add_owned [OF _ _ du] p by (auto simp: pool_at_def)
    from blindD [OF pool_at_blind q this] du d show ?thesis
      by (simp add: orkd_handle_dom_req_def run_dom_alloc case_prod_unfold)
  qed
qed

lemma triple_readn_keep: "blind P \<Longrightarrow> triple P (orkd_readn fd n) (\<lambda>_. P)"
  by (intro triple_quiet quiet.st_readn)

lemma blind_conj: "blind P \<Longrightarrow> blind Q \<Longrightarrow> blind (\<lambda>s. P s \<and> Q s)"
  by (auto simp: blind_def)

lemma blind_slot: "blind (\<lambda>s. d_cl s ! i = c)"
  by (auto simp: blind_def quiet_rel_def)

text \<open>A handler of the form "read the struct, then act on it", at a slot the read leaves alone.\<close>

lemma triple_with_struct:
  assumes "blind P" "\<And>c bs. triple (\<lambda>s. P s \<and> d_cl s ! i = c) (body c bs) (\<lambda>_. P)" "steps quiet_rel giveup"
  shows "steps (holds P) (do { c \<leftarrow> cl_get i; r \<leftarrow> orkd_readn (c_fd c) n;
     case r of None \<Rightarrow> giveup | Some bs \<Rightarrow> body c bs })"
proof -
  have b: "blind (\<lambda>s. P s \<and> d_cl s ! i = c)" for c using assms(1) blind_slot by (rule blind_conj)
  have "triple (\<lambda>s. P s \<and> d_cl s ! i = c) (do { r \<leftarrow> orkd_readn (c_fd c) n;
     case r of None \<Rightarrow> giveup | Some bs \<Rightarrow> body c bs }) (\<lambda>_. P)" for c
    by (rule triple_bind [OF triple_readn_keep [OF b]])
      (auto split: option.splits intro: assms(2) triple_conseq [OF triple_quiet [OF assms(1,3)]])
  then show ?thesis
    unfolding triple_steps [symmetric]
    by (intro triple_bind [OF triple_cl_get [where Q = "\<lambda>c s. P s \<and> d_cl s ! i = c"]]) auto
qed

lemma pool_dom_rel: "steps (holds (pool_at i)) (orkd_handle_dom_rel W i tag)"
  unfolding orkd_handle_dom_rel_def
proof (rule triple_with_struct [OF pool_at_blind _ quiet.st_ret])
  fix c :: client and bs
  define rid where "rid = parse handle_w bs ! 0"
  define d where "d = as_int (u32 rid)"
  have reply: "triple (pool_at i) (do { reply_rc W (c_fd c) DOM_OK tag rid r; ret False }) (\<lambda>_. pool_at i)" for r
    by (intro triple_quiet pool_at_blind quiet.st_quiet)
  show "triple (\<lambda>s. pool_at i s \<and> d_cl s ! i = c) (dom_rel_body W i tag c (parse handle_w bs ! 0)) (\<lambda>_. pool_at i)"
  proof (cases "1 \<le> d \<and> d < int ORKD_NDOM \<and> nat d \<in> c_owned c")
    case True
    have "triple (\<lambda>s. pool_at i s \<and> d_cl s ! i = c)
        (do { cl_upd i (\<lambda>c. c\<lparr>c_owned := c_owned c - {nat d}\<rparr>); orkd_dom_release d }) (\<lambda>_. pool_at i)"
      using True pool_del_owned [of _ i "nat d"] by (auto simp: triple_def orkd_dom_release_def pool_at_def)
    from triple_bind [OF this reply] True show ?thesis
      by (simp add: dom_rel_body_def rid_def d_def Let_def)
  next
    case False
    then show ?thesis
      using triple_conseq [OF reply, where P' = "\<lambda>s. pool_at i s \<and> d_cl s ! i = c"]
      by (auto simp: dom_rel_body_def rid_def d_def Let_def)
  qed
qed

text \<open>HELLO changes neither slot identity nor domains; with it, every request keeps the pool.\<close>

definition same_doms :: "client \<Rightarrow> client \<Rightarrow> bool" where
  "same_doms c c' \<longleftrightarrow> c_fd c' = c_fd c \<and> c_domain c' = c_domain c \<and> c_owned c' = c_owned c"

definition dom_rel :: "daemon \<Rightarrow> daemon \<Rightarrow> bool" where
  "dom_rel s s' \<longleftrightarrow> d_nc s' = d_nc s \<and> d_inuse s' = d_inuse s \<and> d_per_client s' = d_per_client s
     \<and> list_all2 same_doms (d_cl s) (d_cl s')"

lemma same_doms_trans: "same_doms a b \<Longrightarrow> same_doms b c \<Longrightarrow> same_doms a c"
  by (simp add: same_doms_def)

lemma same_doms_refl [simp]: "same_doms c c"
  by (simp add: same_doms_def)

lemma same_domss_refl [simp]: "list_all2 same_doms cs cs"
  by (simp add: list_all2_refl)

interpretation domr: quiet_frame dom_rel
  by unfold_locales (auto simp: dom_rel_def intro: list_all2_trans same_doms_trans)

lemma dom_hello: "steps dom_rel (orkd_handle_hello W i tag)"
  unfolding orkd_handle_hello_def cl_upd_def
  by (intro domr.st_quiet domr.st_modify) (auto simp: dom_rel_def same_doms_def list_all2_conv_all_nth nth_upd)

lemma pool_at_dom_rel: "dom_rel s s' \<Longrightarrow> pool_at i s \<Longrightarrow> pool_at i s'"
proof -
  assume r: "dom_rel s s'" and p: "pool_at i s"
  have eq: "length (d_cl s') = length (d_cl s)" "d_nc s' = d_nc s" "d_inuse s' = d_inuse s"
    and same: "\<And>j. j < length (d_cl s) \<Longrightarrow> c_domain (d_cl s' ! j) = c_domain (d_cl s ! j)
       \<and> c_owned (d_cl s' ! j) = c_owned (d_cl s ! j)"
    using r by (auto simp: dom_rel_def same_doms_def list_all2_conv_all_nth)
  have i: "j < length (d_cl s)" if "j < d_nc s" for j
    using that p by (auto simp: pool_at_def pool_inv_def slots_ok_def)
  have "held s' = held s"
    using same i by (auto simp: fun_eq_iff held_def eq)
  moreover have "slots_ok s'" using p same i by (auto simp: pool_at_def pool_inv_def slots_ok_def eq)
  ultimately show ?thesis using p by (simp add: pool_at_def pool_inv_def eq)
qed

lemma pool_hello: "steps (holds (pool_at i)) (orkd_handle_hello W i tag)"
  using dom_hello pool_at_dom_rel unfolding steps_def holds_def by blast

lemma pool_handle_msg: "steps (holds (pool_at i)) (handle_msg W i fds tag ty)"
proof (cases "ty = Some HELLO \<or> ty = Some DOM_REQ \<or> ty = Some DOM_REL")
  case True
  then show ?thesis using pool_hello pool_dom_req pool_dom_rel by (auto simp: handle_msg_def)
next
  case False
  then show ?thesis by (intro serve_pool_at serve_handle_msg) auto
qed

subsection \<open>Dropping and accepting keep the pool\<close>

lemma release_all_run:
  "set ds \<subseteq> {1..<64} \<Longrightarrow>
     State_Monad.run_state (release_all ds) s = ((), d_inuse_update (fold dom_give ds) s)"
proof (induction ds arbitrary: s)
  case (Cons d ds)
  then show ?case by (auto simp: orkd_dom_release_def ORKD_NDOM_def o_def)
qed simp

lemma serve_reclaim: "steps serve_rel (client_reclaim i)"
  unfolding client_reclaim_def by (intro serve.st_quiet serve_cl_upd) (simp add: same_slot_def)

text \<open>The end of \<open>drop_client\<close>: both releases, the close and the compaction.\<close>

definition drop_state :: "nat \<Rightarrow> daemon \<Rightarrow> daemon" where
  "drop_state i s =
     (let c = d_cl s ! i;
          ds = (if 1 \<le> c_domain c then [nat (c_domain c)] else []) @ filter (\<lambda>d. d \<in> c_owned c) [1..<64]
      in s\<lparr>d_inuse := fold dom_give ds (d_inuse s), d_cl := (d_cl s)[i := d_cl s ! (d_nc s - 1)], d_nc := d_nc s - 1\<rparr>)"

lemma pool_drop_state:
  assumes "pool_at i s"
  shows "pool_inv (drop_state i s)"
proof -
  let ?c = "d_cl s ! i" and ?n = "d_nc s - 1"
  define ds where "ds = (if 1 \<le> c_domain ?c then [nat (c_domain ?c)] else []) @ filter (\<lambda>d. d \<in> c_owned ?c) [1..<64]"
  have i: "i < d_nc s" and L: "length (d_cl s) = 64" "d_nc s \<le> 64" and x: "domp.exclusive (d_inuse s) (held s)"
    and so: "slots_ok s"
    using assms by (auto simp: pool_at_def pool_inv_def slots_ok_def)
  have sub: "held s i \<subseteq> {1..<64}" using x unfolding domp.exclusive_def by blast
  have ds: "set ds = held s i" "distinct ds"
    using i sub so by (auto simp: ds_def held_def slots_ok_def)
  have g: "domp.exclusive (fold dom_give ds (d_inuse s)) ((held s)(i := {}))"
    using domp.exclusive_give_all [OF x _ ds(2), of i] unfolding ds(1) by simp
  have h: "held (drop_state i s) = (if i = ?n then (held s)(i := {}) else ((held s)(i := {}))(i := held s ?n, ?n := {}))"
    using i L by (auto simp: fun_eq_iff held_def drop_state_def Let_def nth_upd)
  have "domp.exclusive (fold dom_give ds (d_inuse s)) (held (drop_state i s))"
  proof (cases "i = ?n")
    case True
    with g h show ?thesis by simp
  next
    case False
    from domp.exclusive_move [OF g _ False] have "domp.exclusive (fold dom_give ds (d_inuse s))
        (((held s)(i := {}))(i := ((held s)(i := {})) ?n, ?n := {}))" by simp
    with False show ?thesis unfolding h by simp
  qed
  moreover have "d_inuse (drop_state i s) = fold dom_give ds (d_inuse s)"
    unfolding ds_def by (simp add: drop_state_def Let_def)
  moreover have "slots_ok (drop_state i s)"
    using so i L by (auto simp: slots_ok_def drop_state_def Let_def nth_upd)
  ultimately show ?thesis by (simp add: pool_inv_def)
qed

lemma serve_dom_rel: "serve_rel s s' \<Longrightarrow> dom_rel s s'"
  unfolding serve_rel_def dom_rel_def
  by (auto elim: list_all2_mono simp: same_slot_def same_doms_def)

lemma serve_dom: "steps serve_rel m \<Longrightarrow> steps dom_rel m"
  using serve_dom_rel unfolding steps_def by blast

lemma queue_dom: "steps queue_rel m \<Longrightarrow> steps dom_rel m"
  by (intro serve_dom queue_serve)

definition drop_head :: "nat \<Rightarrow> client \<Rightarrow> unit dm" where
  "drop_head i c = do {
     (if c_hello c then modify (d_refs_update (\<lambda>r. r - 1)) else ret ());
     wk_purge_fd (c_fd c);
     client_reclaim i }"

definition drop_tail :: "nat \<Rightarrow> client \<Rightarrow> unit dm" where
  "drop_tail i c = do {
     orkd_dom_release (c_domain c);
     release_all (filter (\<lambda>d. d \<in> c_owned c) [1..<ORKD_NDOM]);
     note_call (Close (c_fd c));
     modify (\<lambda>s. s\<lparr>d_cl := (d_cl s)[i := d_cl s ! (d_nc s - 1)], d_nc := d_nc s - 1\<rparr>);
     modify (\<lambda>s. if d_refs s = 0 then s\<lparr>d_idle_reset := True\<rparr> else s) }"

lemma drop_client_split: "drop_client i = do { c \<leftarrow> cl_get i; _ \<leftarrow> drop_head i c; drop_tail i c }"
  unfolding drop_client_def drop_head_def drop_tail_def State_Monad.bind_assoc ..

lemma dom_drop_head: "steps dom_rel (drop_head i c)"
  unfolding drop_head_def
  by (intro domr.st_quiet domr.st_modify queue_dom [OF queue_purge] serve_dom [OF serve_reclaim])
    (simp add: dom_rel_def)

lemma drop_tail_run:
  assumes "pool_at i s" "c_domain c = c_domain (d_cl s ! i)" "c_owned c = c_owned (d_cl s ! i)"
  shows "\<exists>lg idle. snd (State_Monad.run_state (drop_tail i c) s) = (drop_state i s)\<lparr>d_log := lg, d_idle_reset := idle\<rparr>"
proof -
  let ?c = "d_cl s ! i"
  have "0 \<le> c_domain ?c" "c_domain ?c < 64" using assms(1) by (auto simp: pool_at_def pool_inv_def slots_ok_def)
  then have r: "State_Monad.run_state (orkd_dom_release (c_domain ?c)) t
      = ((), d_inuse_update (fold dom_give (if 1 \<le> c_domain ?c then [nat (c_domain ?c)] else [])) t)" for t
    by (auto simp: orkd_dom_release_def ORKD_NDOM_def)
  have a: "State_Monad.run_state (release_all (filter (\<lambda>d. d \<in> c_owned ?c) [1..<ORKD_NDOM])) t
      = ((), d_inuse_update (fold dom_give (filter (\<lambda>d. d \<in> c_owned ?c) [1..<64])) t)" for t
    unfolding ORKD_NDOM_def by (rule release_all_run) auto
  show ?thesis
    unfolding drop_tail_def assms(2,3) drop_state_def Let_def
    by (intro exI [of _ "Close (c_fd c) # d_log s"] exI [of _ "d_refs s = 0 \<or> d_idle_reset s"])
      (auto simp: r a note_call_def case_prod_unfold simp del: upt_Suc One_nat_def intro!: daemon.equality)
qed

lemma pool_inv_log: "pool_inv (s\<lparr>d_log := lg, d_idle_reset := b\<rparr>) = pool_inv s"
proof -
  have "held (s\<lparr>d_log := lg, d_idle_reset := b\<rparr>) = held s" by (simp add: held_def fun_eq_iff)
  then show ?thesis by (simp add: pool_inv_def slots_ok_def)
qed

lemma pool_drop_client: "pool_at i s \<Longrightarrow> pool_inv (snd (State_Monad.run_state (drop_client i) s))"
proof -
  assume p: "pool_at i s"
  define t where "t = snd (State_Monad.run_state (drop_head i (d_cl s ! i)) s)"
  have d: "dom_rel s t" using dom_drop_head unfolding steps_def t_def by blast
  have pt: "pool_at i t" by (rule pool_at_dom_rel [OF d p])
  have L: "i < length (d_cl s)" using p by (auto simp: pool_at_def pool_inv_def slots_ok_def)
  then have same: "same_doms (d_cl s ! i) (d_cl t ! i)"
    using d by (auto simp: dom_rel_def list_all2_conv_all_nth)
  have "snd (State_Monad.run_state (drop_client i) s) = snd (State_Monad.run_state (drop_tail i (d_cl s ! i)) t)"
    by (simp add: drop_client_split t_def case_prod_unfold)
  moreover obtain lg idle where "snd (State_Monad.run_state (drop_tail i (d_cl s ! i)) t)
      = (drop_state i t)\<lparr>d_log := lg, d_idle_reset := idle\<rparr>"
    using drop_tail_run [OF pt, of "d_cl s ! i"] same unfolding same_doms_def by metis
  ultimately show ?thesis using pool_drop_state [OF pt] by (simp add: pool_inv_log)
qed

lemma pool_accept:
  assumes "pool_inv s"
  shows "pool_inv (snd (State_Monad.run_state (accept_client W cfd) s))"
proof (cases "d_nc s < 64")
  case False
  then show ?thesis
    using blindD [OF pool_inv_blind, of "do { orkd_send_error W cfd 0 EOOM; note_call (Close cfd) }" s] assms
    by (auto simp: accept_client_def ORKD_MAX_CLIENTS_def case_prod_unfold intro!: quiet.st_quiet)
next
  case True
  let ?n = "d_nc s"
  let ?new = "\<lambda>d. (d_cl s ! ?n)\<lparr>c_fd := cfd, c_hello := False, c_cid := 0, c_wt := [], c_next_wid := 0,
     c_domain := int d, c_owned := {}, c_ring := None, c_ring_fd := 0, c_ring_tail := 0\<rparr>"
  have L: "length (d_cl s) = 64" and x: "domp.exclusive (d_inuse s) (held s)" and so: "slots_ok s"
    using assms by (auto simp: pool_inv_def slots_ok_def)
  have so': "slots_ok (s\<lparr>d_inuse := u, d_cl := (d_cl s)[?n := ?new d], d_nc := Suc ?n\<rparr>)" if "d < 64" for d u
    using so True L that by (auto simp: slots_ok_def nth_upd less_Suc_eq)
  have h: "held (s\<lparr>d_inuse := u, d_cl := (d_cl s)[?n := ?new d], d_nc := Suc ?n\<rparr>)
      = (held s)(?n := (if 1 \<le> d then {d} else {}))" for d u
    using True L by (auto simp: fun_eq_iff held_def nth_upd less_Suc_eq)
  have hn: "held s ?n = {}" by (simp add: held_def)
  show ?thesis
  proof (cases "d_per_client s \<and> dom_take (d_inuse s) \<noteq> None")
    case True
    then obtain d u' where du: "dom_take (d_inuse s) = Some (d, u')" by auto
    have d: "1 \<le> d" "d < 64" using dom_take_Some [OF du] by auto
    have "domp.exclusive u' ((held s)(?n := insert d (held s ?n)))" by (rule domp.exclusive_take [OF x du])
    then have "pool_inv (s\<lparr>d_inuse := u', d_cl := (d_cl s)[?n := ?new d], d_nc := Suc ?n\<rparr>)"
      using so' [OF d(2), where u = u'] d h [where u = u' and d = d] by (simp add: pool_inv_def hn)
    with True du \<open>d_nc s < 64\<close> show ?thesis
      by (simp add: accept_client_def dom_alloc_def run_dom_alloc ORKD_MAX_CLIENTS_def case_prod_unfold)
  next
    case False
    have "pool_inv (s\<lparr>d_inuse := d_inuse s, d_cl := (d_cl s)[?n := ?new 0], d_nc := Suc ?n\<rparr>)"
      using so' [where d = 0 and u = "d_inuse s"] h [where u = "d_inuse s" and d = 0] x hn by (simp add: pool_inv_def fun_upd_idem)
    with False \<open>d_nc s < 64\<close> show ?thesis
      by (cases "d_per_client s"; cases "dom_take (d_inuse s)")
        (simp_all add: accept_client_def dom_alloc_def run_dom_alloc ORKD_MAX_CLIENTS_def case_prod_unfold)
  qed
qed

lemma pool_serve_client: "pool_at i s \<Longrightarrow> pool_inv (snd (State_Monad.run_state (serve_client W i fds) s))"
proof -
  assume p: "pool_at i s"
  have close: "steps (holds (pool_at i)) (close2 a b)" for a b
    by (intro serve_pool_at serve.st_close2)
  have rd: "pool_at i (snd (State_Monad.run_state (orkd_readn (c_fd (d_cl s ! i)) n) s))" for n
    by (rule blindD [OF pool_at_blind quiet.st_readn p])
  let ?t = "snd (State_Monad.run_state (orkd_readn (c_fd (d_cl s ! i)) (sizeof hdr_w)) s)"
  show ?thesis
  proof (cases "fst (State_Monad.run_state (orkd_readn (c_fd (d_cl s ! i)) (sizeof hdr_w)) s)")
    case None
    have "pool_at i (snd (State_Monad.run_state (close2 (fst fds) (snd fds)) ?t))"
      using close rd unfolding steps_def holds_def by blast
    then show ?thesis using None pool_drop_client by (simp add: serve_client_def case_prod_unfold)
  next
    case (Some bs)
    let ?h = "parse hdr_w bs"
    let ?m = "handle_msg W i fds (?h ! 2) (decode_msg (?h ! 0))"
    let ?c = "close2 (fst (stray_fds (decode_msg (?h ! 0)) fds)) (snd (stray_fds (decode_msg (?h ! 0)) fds))"
    have "pool_at i (snd (State_Monad.run_state ?m ?t))"
      using pool_handle_msg rd unfolding steps_def holds_def by blast
    then have "pool_at i (snd (State_Monad.run_state ?c (snd (State_Monad.run_state ?m ?t))))"
      using close unfolding steps_def holds_def by blast
    then show ?thesis using Some pool_drop_client
      by (auto simp: serve_client_def case_prod_unfold Let_def pool_at_def)
  qed
qed

lemma pool_serve_all: "pool_inv s \<Longrightarrow> pool_inv (snd (State_Monad.run_state (serve_all W ev is) s))"
proof (induction "is" arbitrary: s)
  case (Cons i "is")
  show ?case
  proof (cases "i < d_nc s")
    case True
    then have p: "pool_at i s" using Cons.prems by (simp add: pool_at_def)
    have "pool_inv (snd (State_Monad.run_state (if ev_ready ev i then serve_client W i (ev_fds ev i) else ret ()) s))"
      using pool_serve_client [OF p] Cons.prems by simp
    from Cons.IH [OF this] True show ?thesis by (simp add: case_prod_unfold)
  qed (use Cons.prems in simp)
qed simp

lemma pool_tick: "pool_inv s \<Longrightarrow> pool_inv (snd (State_Monad.run_state (tick W ev) s))"
proof -
  have a: "steps (holds pool_inv) (accept_client W cfd)" for cfd
    using pool_accept by (simp add: steps_def holds_def)
  have b: "steps (holds pool_inv) (serve_all W ev is)" for "is"
    using pool_serve_all by (simp add: steps_def holds_def)
  have "steps (holds pool_inv) (tick W ev)"
    unfolding tick_def
    by (intro holds.st_control a b serve_pool [OF serve_ring_service] serve_pool [OF queue_serve [OF queue_dispatch]])
  then show "pool_inv s \<Longrightarrow> ?thesis" by (simp add: steps_def holds_def)
qed

subsection \<open>Executions of the daemon\<close>

text \<open>At start-up the slots are uninitialised. Between ticks the peers write to their sockets and to
  their rings; \<open>accept\<close> returns a descriptor that is not open.\<close>

definition daemon_init :: "client list \<Rightarrow> bool \<Rightarrow> nat \<Rightarrow> daemon" where
  "daemon_init slots per cores =
     \<lparr>d_cl = slots, d_nc = 0, d_per_client = per, d_inuse = replicate 64 False, d_active = 0,
      d_q = replicate ORKD_QMAX work0, d_qn = 0, d_wseq = 0, d_next_id = 1, d_refs = 0, d_submits = 0,
      d_idle_reset = False, d_wraps = 0, d_cores = cores, d_shm = (\<lambda>_. \<lparr>r_magic = 0, r_nslots = 0, r_slot_data = 0, r_slots = []\<rparr>),
      d_inp = (\<lambda>_. []), d_log = []\<rparr>"

definition live :: "daemon \<Rightarrow> client list" where
  "live s = take (d_nc s) (d_cl s)"

inductive daemon_step :: "world \<Rightarrow> daemon \<Rightarrow> daemon \<Rightarrow> bool" for W where
  step_tick: "(\<And>cfd. ev_accept ev = Some cfd \<Longrightarrow> cfd \<notin> c_fd ` set (live s)) \<Longrightarrow>
     daemon_step W s (snd (State_Monad.run_state (tick W ev) s))"
| step_peers: "daemon_step W s (s\<lparr>d_inp := inp, d_shm := shm\<rparr>)"

inductive daemon_reach :: "world \<Rightarrow> daemon \<Rightarrow> bool" for W where
  reach_init: "length slots = 64 \<Longrightarrow> daemon_reach W (daemon_init slots per cores)"
| reach_step: "daemon_reach W s \<Longrightarrow> daemon_step W s s' \<Longrightarrow> daemon_reach W s'"

inductive_cases daemon_stepE: "daemon_step W s s'"

lemma pool_inv_peers: "pool_inv (s\<lparr>d_inp := inp, d_shm := shm\<rparr>) = pool_inv s"
proof -
  have "held (s\<lparr>d_inp := inp, d_shm := shm\<rparr>) = held s" by (simp add: held_def fun_eq_iff)
  then show ?thesis by (simp add: pool_inv_def slots_ok_def)
qed

lemma pool_inv_init: "length slots = 64 \<Longrightarrow> pool_inv (daemon_init slots per cores)"
  unfolding pool_inv_def domp.exclusive_def
  by (auto simp: slots_ok_def daemon_init_def held_def dom_free_def)

lemma reach_pool_inv: "daemon_reach W s \<Longrightarrow> pool_inv s"
proof (induction rule: daemon_reach.induct)
  case (reach_init slots per cores)
  then show ?case by (rule pool_inv_init)
next
  case (reach_step s s')
  from reach_step(2,3) show ?case by (auto elim!: daemon_stepE simp: pool_inv_peers pool_tick)
qed

text \<open>C16: in every reachable state of the daemon the IOMMU domains in use are exactly those that live
  clients hold, and no two clients hold the same one: domains never collide and never leak, whatever
  the clients send, however they leave, and whatever the driver and the kernel answer.\<close>

theorem domains_exclusive:
  assumes "daemon_reach W s" "1 \<le> d" "d < 64"
  shows "(d_inuse s ! d \<longleftrightarrow> (\<exists>i < d_nc s. d \<in> held s i))
    \<and> (\<forall>i j. d \<in> held s i \<longrightarrow> d \<in> held s j \<longrightarrow> i = j)"
proof -
  have x: "domp.exclusive (d_inuse s) (held s)" using reach_pool_inv [OF assms(1)] by (simp add: pool_inv_def)
  have "dom_free (d_inuse s) d \<longleftrightarrow> (\<forall>i. d \<notin> held s i)"
    using x assms unfolding domp.exclusive_def by auto
  moreover have "i < d_nc s" if "d \<in> held s i" for i using that by (auto simp: held_def split: if_splits)
  ultimately show ?thesis using domp.exclusive_disjoint [OF x] by (auto simp: dom_free_def)
qed

text \<open>A silent world and a blank slot for the witnesses.\<close>

definition world0 :: world where
  "world0 = \<lparr>w_ptr = (\<lambda>_ _. None), w_rc = (\<lambda>_ _. 0), w_out = (\<lambda>_ _. [])\<rparr>"

definition slot0 :: client where
  "slot0 = \<lparr>c_fd = 0, c_hello = False, c_cid = 0, c_wt = [], c_next_wid = 0, c_domain = 0, c_kvt = [],
     c_owned = {}, c_ring = None, c_ring_fd = 0, c_ring_tail = 0\<rparr>"

definition accept7 :: tick_events where
  "accept7 = \<lparr>ev_accept = Some 7, ev_ready = (\<lambda>_. False), ev_fds = (\<lambda>_. (- 1, - 1))\<rparr>"

definition one_client :: daemon where
  "one_client = snd (State_Monad.run_state (tick world0 accept7) (daemon_init (replicate 64 slot0) True 3))"

lemma one_client_reach: "daemon_reach world0 one_client"
  unfolding one_client_def
  by (rule reach_step [OF reach_init step_tick]) (simp_all add: live_def daemon_init_def)

lemma dom_take_fresh: "dom_take (replicate 64 False) = Some (1, (replicate 64 False)[1 := True])"
  by (simp add: dom_take_def ORKD_NDOM_def upt_conv_Cons)

lemma one_client_fields:
  "d_nc one_client = 1" "c_domain (d_cl one_client ! 0) = 1" "c_owned (d_cl one_client ! 0) = {}"
  "c_fd (d_cl one_client ! 0) = 7" "d_inuse one_client = (replicate 64 False)[1 := True]"
  by (simp_all add: one_client_def tick_def accept_client_def dom_alloc_def run_dom_alloc daemon_init_def
      accept7_def ORKD_MAX_CLIENTS_def dom_take_fresh attached_rings_def nth_upd)

theorem domains_exclusive_witness: "d_inuse one_client ! 1 \<and> held one_client 0 = {1}"
proof -
  have h: "held one_client 0 = {1}" by (auto simp: held_def one_client_fields)
  then show ?thesis
    using domains_exclusive [OF one_client_reach, of 1] by (auto simp: one_client_fields intro: exI [of _ 0])
qed

end
