(* ===== verification/Orkd_Queue.thy ===== *)
theory Orkd_Queue
  imports Orkd_Inv "HOL-Library.Product_Lexorder"
begin

section \<open>The scheduler: picks, quanta, and the queue's invariant\<close>

text \<open>
  The work queue of the daemon: which item \<open>wk_pick\<close> picks, how many rows a quantum takes, how the
  quanta of a run assemble its result, and the pool contract on the queue's slots.
\<close>

subsection \<open>What \<open>wk_pick\<close> picks\<close>

text \<open>The key the scan maximises: priority, then affinity with the active domain, then age.\<close>

definition wk_key :: "int \<Rightarrow> work \<Rightarrow> int \<times> int \<times> int" where
  "wk_key act w = (int (k_prio w), if k_domain w = act then 1 else 0, - int (k_seq w))"

lemma wk_better_key: "wk_better act a b \<longleftrightarrow> wk_key act b < wk_key act a"
  by (auto simp: wk_better_def wk_key_def less_prod_def)

lemma wk_scan_best:
  "wk_scan act q is best = Some k \<Longrightarrow>
     (k \<in> set is \<and> k_used (q ! k) \<or> best = Some k)
     \<and> (\<forall>j \<in> set is. k_used (q ! j) \<longrightarrow> wk_key act (q ! j) \<le> wk_key act (q ! k))
     \<and> (\<forall>b. best = Some b \<longrightarrow> wk_key act (q ! b) \<le> wk_key act (q ! k))"
proof (induction "is" arbitrary: best)
  case (Cons i "is")
  let ?b = "if \<not> k_used (q ! i) then best
        else case best of None \<Rightarrow> Some i | Some b \<Rightarrow> if wk_better act (q ! i) (q ! b) then Some i else Some b"
  have ih: "(k \<in> set is \<and> k_used (q ! k) \<or> ?b = Some k)
     \<and> (\<forall>j \<in> set is. k_used (q ! j) \<longrightarrow> wk_key act (q ! j) \<le> wk_key act (q ! k))
     \<and> (\<forall>b. ?b = Some b \<longrightarrow> wk_key act (q ! b) \<le> wk_key act (q ! k))"
    using Cons.IH [of ?b] Cons.prems by simp
  show ?case
  proof (cases "k_used (q ! i)")
    case False
    with ih show ?thesis by auto
  next
    case used: True
    show ?thesis
    proof (cases best)
      case None
      with ih used show ?thesis by auto
    next
      case (Some b)
      show ?thesis
      proof (cases "wk_better act (q ! i) (q ! b)")
        case True
        then have "wk_key act (q ! b) < wk_key act (q ! i)" by (simp add: wk_better_key)
        moreover have "wk_key act (q ! i) \<le> wk_key act (q ! k)" using ih used Some True by auto
        ultimately show ?thesis using ih used Some True by auto
      next
        case False
        then have "wk_key act (q ! i) \<le> wk_key act (q ! b)" by (simp add: wk_better_key)
        moreover have "wk_key act (q ! b) \<le> wk_key act (q ! k)" using ih used Some False by auto
        ultimately show ?thesis using ih used Some False by auto
      qed
    qed
  qed
qed auto

lemma wk_scan_None: "wk_scan act q is best = None \<longleftrightarrow> best = None \<and> (\<forall>j \<in> set is. \<not> k_used (q ! j))"
  by (induction "is" arbitrary: best) (auto split: option.splits)

text \<open>C17: the scheduler picks a queued item whenever there is one, and the item it picks is at least
  every other queued item in the order (priority, affinity with the active domain, age): no item of a
  higher priority waits behind it, among equals none of the active domain, and among those none older.\<close>

theorem wk_pick_optimal:
  "(wk_pick act q = None \<longleftrightarrow> (\<forall>j < length q. \<not> k_used (q ! j)))
   \<and> (\<forall>k. wk_pick act q = Some k \<longrightarrow> k < length q \<and> k_used (q ! k)
        \<and> (\<forall>j < length q. k_used (q ! j) \<longrightarrow> wk_key act (q ! j) \<le> wk_key act (q ! k)))"
  using wk_scan_best [of act q "[0..<length q]" None] wk_scan_None [of act q "[0..<length q]" None]
  by (auto simp: wk_pick_def)

definition demo_queue :: "work list" where
  "demo_queue = [work0, work0\<lparr>k_used := True, k_prio := 1, k_domain := 2, k_seq := 0\<rparr>,
     work0\<lparr>k_used := True, k_prio := 1, k_domain := 5, k_seq := 1\<rparr>]"

theorem wk_pick_optimal_witness: "wk_pick 5 demo_queue = Some 2"
proof -
  have u: "wk_pick 5 demo_queue \<noteq> None"
    using wk_pick_optimal [of 5 demo_queue] by (auto simp: demo_queue_def)
  then obtain k where k: "wk_pick 5 demo_queue = Some k" by blast
  then have "k < 3" "k_used (demo_queue ! k)" "wk_key 5 (demo_queue ! 2) \<le> wk_key 5 (demo_queue ! k)"
    using wk_pick_optimal [of 5 demo_queue] by (auto simp: demo_queue_def)
  then have "k = 2"
    by (auto simp: demo_queue_def work0_def wk_key_def nth_Cons' split: if_splits)
  with k show ?thesis by simp
qed

subsection \<open>Quanta\<close>

lemma quantum_bounds:
  "k_m0 w < k_M w \<Longrightarrow> 1 \<le> quantum qn w \<and> k_m0 w + quantum qn w \<le> k_M w"
  by (auto simp: quantum_def Let_def ORKD_QUANTUM_ROWS_def)



text \<open>Running an item's quanta one after the other, whatever the queue's length at each: \<open>outs\<close> are the
  rows each run wrote, and \<open>all_rows\<close> says that they end with the last row.\<close>

fun run_quanta :: "(int \<times> byte list) list \<Rightarrow> work \<Rightarrow> work" where
  "run_quanta [] w = w"
| "run_quanta ((qn, out) # qs) w = run_quanta qs (advance (quantum qn w) 0 out w)"

fun all_rows :: "(int \<times> byte list) list \<Rightarrow> work \<Rightarrow> bool" where
  "all_rows [] w = (k_m0 w = k_M w)"
| "all_rows ((qn, out) # qs) w =
     (k_m0 w < k_M w \<and> length out = nat (quantum qn w * k_N w * 4) \<and> all_rows qs (advance (quantum qn w) 0 out w))"

lemma fit_exact [simp]: "length bs = n \<Longrightarrow> fit n bs = bs"
  by (simp add: fit_def)

lemma fit_length [simp]: "length (fit n bs) = n"
  by (simp add: fit_def)

text \<open>\<open>filled w done\<close>: the item's buffer begins with the rows done so far.\<close>

definition filled :: "work \<Rightarrow> byte list \<Rightarrow> bool" where
  "filled w rows \<longleftrightarrow> k_C_imp w = None \<and> 0 \<le> k_N w \<and> 0 \<le> k_m0 w \<and> k_m0 w \<le> k_M w \<and> k_rc w = 0
     \<and> length (k_C w) = nat (k_M w * k_N w * 4) \<and> length rows = nat (k_m0 w * k_N w * 4)
     \<and> (\<exists>rest. k_C w = rows @ rest)"

lemma filled_advance:
  assumes "filled w rows" "k_m0 w < k_M w" "length out = nat (quantum qn w * k_N w * 4)"
  shows "filled (advance (quantum qn w) 0 out w) (rows @ out)"
proof -
  let ?q = "quantum qn w"
  obtain rest where C: "k_C w = rows @ rest" using assms(1) by (auto simp: filled_def)
  note b = quantum_bounds [OF assms(2), of qn]
  have f: "0 \<le> k_N w" "0 \<le> k_m0 w" "length (k_C w) = nat (k_M w * k_N w * 4)"
    "length rows = nat (k_m0 w * k_N w * 4)" using assms(1) by (auto simp: filled_def)
  have m: "0 \<le> k_m0 w * k_N w" "0 \<le> ?q * k_N w" using f b by auto
  have s1: "length (rows @ out) = nat ((k_m0 w + ?q) * k_N w * 4)"
    using m f assms(3) by (simp add: nat_add_distrib [symmetric] algebra_simps)
  have "(k_m0 w + ?q) * k_N w \<le> k_M w * k_N w" using b f by (intro mult_right_mono) auto
  then have s2: "length (rows @ out) \<le> length (k_C w)" unfolding s1 f(3) by simp
  then have "splice (k_C w) (length rows) out = (rows @ out) @ drop (length out) rest"
    by (simp add: splice_def C)
  moreover have "length ((rows @ out) @ drop (length out) rest) = length (k_C w)" using s2 C by simp
  ultimately show ?thesis
    using assms(1) b s1 f(4) by (auto simp: filled_def advance_def)
qed

lemma run_quanta_filled:
  "filled w rows \<Longrightarrow> all_rows qs w \<Longrightarrow>
     filled (run_quanta qs w) (rows @ concat (map snd qs)) \<and> k_m0 (run_quanta qs w) = k_M (run_quanta qs w)"
proof (induction qs w arbitrary: rows rule: run_quanta.induct)
  case (2 qn out qs w)
  from 2(3) have a: "k_m0 w < k_M w" "length out = nat (quantum qn w * k_N w * 4)"
    "all_rows qs (advance (quantum qn w) 0 out w)" by simp_all
  from 2(1) [OF filled_advance [OF 2(2) a(1,2)] a(3)] show ?case by simp
qed simp


definition demo_run :: work where
  "demo_run = work0\<lparr>k_M := 65, k_N := 1, k_C := replicate 260 9\<rparr>"


subsection \<open>The queue's invariant\<close>

text \<open>The buffers of an item, as its request sized them: A by the 32-bit product the handler compares
  the payload with, C by the 64-bit product it allocates.\<close>

definition work_ok :: "work \<Rightarrow> bool" where
  "work_ok w \<longleftrightarrow>
     (k_A_imp w = None \<longrightarrow> length (k_A w) = as_u32 (k_M w * k_K w * orkd_esz_a (k_dtype w)))
     \<and> (k_C_imp w = None \<longrightarrow> length (k_C w) = sz ((k_M w mod 4294967296) * k_N w * 4))"

definition live_fds :: "daemon \<Rightarrow> int set" where
  "live_fds s = c_fd ` set (live s)"

definition queue_inv :: "daemon \<Rightarrow> bool" where
  "queue_inv s \<longleftrightarrow> d_qn s = int (length (filter k_used (d_q s)))
     \<and> (\<forall>w \<in> set (d_q s). k_used w \<longrightarrow> work_ok w \<and> k_seq w < d_wseq s \<and> k_fd w \<in> live_fds s)
     \<and> (\<forall>i < length (d_q s). \<forall>j < length (d_q s). k_used (d_q s ! i) \<longrightarrow> k_used (d_q s ! j) \<longrightarrow>
          k_seq (d_q s ! i) = k_seq (d_q s ! j) \<longrightarrow> i = j)"

text \<open>Everything but the queued runs, the dispatcher and a drop leaves the queue alone.\<close>

definition keepq_rel :: "daemon \<Rightarrow> daemon \<Rightarrow> bool" where
  "keepq_rel s s' \<longleftrightarrow> d_q s' = d_q s \<and> d_qn s' = d_qn s \<and> d_wseq s' = d_wseq s \<and> d_nc s' = d_nc s
     \<and> map c_fd (d_cl s') = map c_fd (d_cl s)"

interpretation keepq: quiet_frame keepq_rel
  by unfold_locales (auto simp: keepq_rel_def)

lemma live_fds_alt: "live_fds s = set (take (d_nc s) (map c_fd (d_cl s)))"
  by (simp add: live_fds_def live_def take_map)

lemma queue_inv_keepq: "keepq_rel s s' \<Longrightarrow> queue_inv s \<Longrightarrow> queue_inv s'"
  by (auto simp: keepq_rel_def queue_inv_def live_fds_alt)

lemma quiet_keepq: "quiet_rel s s' \<Longrightarrow> keepq_rel s s'"
  by (auto simp: quiet_rel_def keepq_rel_def)

lemma keepq_modify: "(\<And>s. keepq_rel s (f s)) \<Longrightarrow> steps keepq_rel (modify f)"
  by (rule keepq.st_modify)

lemma keepq_cl_upd: "(\<And>c. c_fd (f c) = c_fd c) \<Longrightarrow> steps keepq_rel (cl_upd i f)"
  unfolding cl_upd_def
  by (intro keepq_modify) (auto simp: keepq_rel_def map_update intro!: nth_equalityI simp: nth_upd)

lemma keepq_register: "steps keepq_rel (register_weight i w K N dt)"
  unfolding register_weight_def by (intro keepq.st_quiet keepq_cl_upd) simp

lemma keepq_import: "steps keepq_rel (orkd_handle_import W i a b tag)"
  unfolding orkd_handle_import_def by (intro keepq.st_quiet keepq_register)

lemma keepq_pack: "steps keepq_rel (orkd_handle_pack W i tag)"
  unfolding orkd_handle_pack_def by (intro keepq.st_quiet keepq_register)

lemma keepq_free: "steps keepq_rel (orkd_handle_free W i tag)"
  unfolding orkd_handle_free_def by (intro keepq.st_quiet keepq_cl_upd) simp

lemma keepq_kv_alloc: "steps keepq_rel (orkd_handle_kv_alloc W i tag)"
  unfolding orkd_handle_kv_alloc_def by (intro keepq.st_quiet keepq_cl_upd) (simp add: Let_def)

lemma keepq_ring_setup: "steps keepq_rel (orkd_handle_ring_setup W i fd tag)"
  unfolding orkd_handle_ring_setup_def by (intro keepq.st_quiet keepq_cl_upd) simp

lemma keepq_hello: "steps keepq_rel (orkd_handle_hello W i tag)"
  unfolding orkd_handle_hello_def
  by (intro keepq.st_quiet keepq_cl_upd keepq_modify) (auto simp: keepq_rel_def)

lemma keepq_dom_alloc: "steps keepq_rel orkd_dom_alloc_explicit"
  unfolding orkd_dom_alloc_explicit_def by (intro keepq.st_quiet keepq_modify) (simp add: keepq_rel_def)

lemma keepq_dom_release: "steps keepq_rel (orkd_dom_release d)"
  unfolding orkd_dom_release_def by (intro keepq.st_quiet keepq_modify) (simp add: keepq_rel_def)

lemma keepq_dom_req: "steps keepq_rel (orkd_handle_dom_req W i tag)"
  unfolding orkd_handle_dom_req_def by (intro keepq.st_quiet keepq_cl_upd keepq_dom_alloc) simp

lemma keepq_dom_rel: "steps keepq_rel (orkd_handle_dom_rel W i tag)"
  unfolding orkd_handle_dom_rel_def dom_rel_body_def
  by (intro keepq.st_quiet keepq_cl_upd keepq_dom_release) simp

lemma keepq_ring_run: "steps keepq_rel (ring_run W c n sl)"
  unfolding ring_run_def by (intro keepq.st_quiet)

lemma keepq_ring_drain: "steps keepq_rel (ring_drain W i b)"
proof (induction b)
  case (Suc b)
  show ?case
    unfolding ring_drain.simps
    by (intro keepq.st_quiet keepq_ring_run keepq_modify keepq_cl_upd Suc) (auto simp: keepq_rel_def)
qed (simp add: keepq.st_ret)

lemma keepq_ring_clients: "steps keepq_rel (ring_clients W is)"
  by (induction "is") (auto intro!: keepq.st_quiet keepq_ring_drain)

lemma keepq_ring_service: "steps keepq_rel (ring_service W)"
  unfolding ring_service_def by (intro keepq.st_quiet keepq_ring_clients)

lemma keepq_count: "steps keepq_rel count_submit"
  unfolding count_submit_def by (intro keepq_modify) (simp add: keepq_rel_def)

lemmas keepq_steps = keepq.st_inline keepq_import keepq_pack keepq_free keepq_kv_alloc keepq_ring_setup
  keepq_hello keepq_dom_req keepq_dom_rel

lemma keepq_handle_msg:
  assumes "ty \<noteq> Some RUN" "ty \<noteq> Some RUN_ZC" "ty \<noteq> Some RUN_ZC2"
  shows "steps keepq_rel (handle_msg W i fds tag ty)"
proof -
  have e: "steps keepq_rel (do { c \<leftarrow> cl_get i; orkd_send_error W (c_fd c) tag EPROTO; ret False })"
    by (intro keepq.st_quiet)
  have p: "steps keepq_rel (do { c \<leftarrow> cl_get i; _ \<leftarrow> orkd_send_msg W (c_fd c) PONG tag []; ret False })"
    by (intro keepq.st_quiet)
  show ?thesis
    using assms
    by (cases ty; (cases "the ty")?)
      (auto simp: handle_msg_def e p intro!: keepq_steps keepq.st_bind [OF keepq_count] keepq.st_ret)
qed

lemma queue_inv_blind: "blind queue_inv"
  unfolding blind_def using quiet_keepq queue_inv_keepq by blast

lemma keepq_queue: "steps keepq_rel m \<Longrightarrow> steps (holds queue_inv) m"
  using queue_inv_keepq by (auto simp: steps_def holds_def)

text \<open>Changing one entry of the queue.\<close>

lemma count_upd:
  "k < length q \<Longrightarrow> length (filter k_used (q[k := w])) =
     length (filter k_used (take k q)) + (if k_used w then 1 else 0) + length (filter k_used (drop (Suc k) q))"
  by (simp add: upd_conv_take_nth_drop)

lemma used_count:
  "k < length q \<Longrightarrow> \<not> k_used (q ! k) \<Longrightarrow> k_used w \<Longrightarrow>
     length (filter k_used (q[k := w])) = Suc (length (filter k_used q))"
  using count_upd [of k q w] count_upd [of k q "q ! k"] by simp

lemma same_count:
  "k < length q \<Longrightarrow> k_used (q ! k) = k_used w \<Longrightarrow>
     length (filter k_used (q[k := w])) = length (filter k_used q)"
  using count_upd [of k q w] count_upd [of k q "q ! k"] by simp

lemma queue_inv_set:
  assumes "queue_inv s" "k < length (d_q s)" "k_used (d_q s ! k)" "k_used w" "k_seq w = k_seq (d_q s ! k)"
    "work_ok w" "k_fd w \<in> live_fds s"
  shows "queue_inv (s\<lparr>d_q := (d_q s)[k := w]\<rparr>)"
  using assms same_count [of k "d_q s" w]
  by (auto simp: queue_inv_def live_fds_alt nth_upd dest!: set_update_subset_insert [THEN subsetD])

lemma queue_inv_drop_entry:
  assumes "queue_inv s" "k < length (d_q s)" "k_used (d_q s ! k)"
  shows "queue_inv (s\<lparr>d_q := (d_q s)[k := work0], d_qn := d_qn s - 1\<rparr>)"
proof -
  have "length (filter k_used (((d_q s)[k := work0])[k := d_q s ! k])) = Suc (length (filter k_used ((d_q s)[k := work0])))"
    using assms by (intro used_count) (auto simp: work0_def)
  then have "length (filter k_used (d_q s)) = Suc (length (filter k_used ((d_q s)[k := work0])))" by simp
  with assms show ?thesis
    by (auto simp: queue_inv_def live_fds_alt nth_upd work0_def dest!: set_update_subset_insert [THEN subsetD])
qed

lemma wk_free_run:
  "\<exists>lg. snd (State_Monad.run_state (wk_free k) s) =
     (if k_used (d_q s ! k) then s\<lparr>d_q := (d_q s)[k := work0], d_qn := d_qn s - 1, d_log := lg\<rparr> else s\<lparr>d_log := lg\<rparr>)"
  by (intro exI [of _ "(if k_used (d_q s ! k) then (case k_C_imp (d_q s ! k) of None \<Rightarrow> [] | Some p \<Rightarrow> [Dma_free p])
       @ (case k_A_imp (d_q s ! k) of None \<Rightarrow> [] | Some p \<Rightarrow> [Dma_free p]) else []) @ d_log s"])
    (auto simp: wk_free_def note_call_def case_prod_unfold split: option.splits intro!: daemon.equality)

lemma queue_inv_log: "queue_inv (s\<lparr>d_log := lg\<rparr>) = queue_inv s"
  by (simp add: queue_inv_def live_fds_alt)

lemma queue_inv_free:
  assumes "queue_inv s" "k < length (d_q s)"
  shows "queue_inv (snd (State_Monad.run_state (wk_free k) s))"
proof -
  obtain lg where r: "snd (State_Monad.run_state (wk_free k) s) =
     (if k_used (d_q s ! k) then s\<lparr>d_q := (d_q s)[k := work0], d_qn := d_qn s - 1, d_log := lg\<rparr> else s\<lparr>d_log := lg\<rparr>)"
    using wk_free_run by blast
  show ?thesis
    unfolding r using assms queue_inv_drop_entry [OF assms]
    by (simp add: queue_inv_log)
qed

lemma wk_free_q:
  "length (d_q (snd (State_Monad.run_state (wk_free k) s))) = length (d_q s)"
  "j \<noteq> k \<Longrightarrow> d_q (snd (State_Monad.run_state (wk_free k) s)) ! j = d_q s ! j"
  "k < length (d_q s) \<Longrightarrow> \<not> k_used (d_q (snd (State_Monad.run_state (wk_free k) s)) ! k)"
proof -
  obtain lg where r: "snd (State_Monad.run_state (wk_free k) s) =
     (if k_used (d_q s ! k) then s\<lparr>d_q := (d_q s)[k := work0], d_qn := d_qn s - 1, d_log := lg\<rparr> else s\<lparr>d_log := lg\<rparr>)"
    using wk_free_run by blast
  show "length (d_q (snd (State_Monad.run_state (wk_free k) s))) = length (d_q s)"
    "j \<noteq> k \<Longrightarrow> d_q (snd (State_Monad.run_state (wk_free k) s)) ! j = d_q s ! j"
    "k < length (d_q s) \<Longrightarrow> \<not> k_used (d_q (snd (State_Monad.run_state (wk_free k) s)) ! k)"
    unfolding r by (auto simp: work0_def)
qed

text \<open>A purge removes every item of the descriptor and no other.\<close>

lemma purge_from:
  fixes fd
  assumes "queue_inv s" "set ks \<subseteq> {0..<length (d_q s)}" "distinct ks"
  defines "t \<equiv> snd (State_Monad.run_state (wk_purge_from fd ks) s)"
  shows "queue_inv t \<and> length (d_q t) = length (d_q s)
    \<and> (\<forall>j. j \<notin> set ks \<longrightarrow> d_q t ! j = d_q s ! j)
    \<and> (\<forall>j \<in> set ks. if k_used (d_q s ! j) \<and> k_fd (d_q s ! j) = fd then \<not> k_used (d_q t ! j) else d_q t ! j = d_q s ! j)"
  using assms(1-3) unfolding t_def
proof (induction ks arbitrary: s)
  case (Cons k ks)
  let ?hit = "k_used (d_q s ! k) \<and> k_fd (d_q s ! k) = fd"
  let ?u = "if ?hit then snd (State_Monad.run_state (wk_free k) s) else s"
  have k: "k < length (d_q s)" "k \<notin> set ks" using Cons.prems by auto
  have u: "queue_inv ?u" "length (d_q ?u) = length (d_q s)"
    using queue_inv_free [OF Cons.prems(1) k(1)] wk_free_q(1) Cons.prems(1) by auto
  have run: "snd (State_Monad.run_state (wk_purge_from fd (k # ks)) s) = snd (State_Monad.run_state (wk_purge_from fd ks) ?u)"
    by (simp add: case_prod_unfold)
  have uj: "d_q ?u ! j = d_q s ! j" if "j \<noteq> k" for j using wk_free_q(2) [OF that] by simp
  have "set ks \<subseteq> {0..<length (d_q ?u)}" "distinct ks" using Cons.prems u(2) by auto
  note ih = Cons.IH [OF u(1) this]
  have ksj: "d_q ?u ! j = d_q s ! j" if "j \<in> set ks" for j using uj [of j] that k(2) by metis
  define v where "v = snd (State_Monad.run_state (wk_purge_from fd ks) ?u)"
  have v: "queue_inv v" "length (d_q v) = length (d_q s)" "\<forall>j. j \<notin> set ks \<longrightarrow> d_q v ! j = d_q ?u ! j"
    "\<forall>j \<in> set ks. if k_used (d_q s ! j) \<and> k_fd (d_q s ! j) = fd then \<not> k_used (d_q v ! j) else d_q v ! j = d_q s ! j"
    using ih u(2) ksj unfolding v_def [symmetric] by auto
  have "if ?hit then \<not> k_used (d_q v ! k) else d_q v ! k = d_q s ! k"
    using v(3) k(2) wk_free_q(3) [OF k(1)] by auto
  then show ?case unfolding run v_def [symmetric] using v uj by auto
qed simp

subsection \<open>Enqueueing a run\<close>

text \<open>Rules that walk a handler down to its block that changes the state: quiet operations on the way
  keep the assertion, and what they return may be used below.\<close>

lemma tq_bind:
  "blind P \<Longrightarrow> steps quiet_rel m \<Longrightarrow> (\<And>x. triple P (f x) Q) \<Longrightarrow> triple P (m \<bind> f) Q"
  by (rule triple_bind [OF triple_quiet])

lemma tq_fact:
  assumes "blind P" "steps quiet_rel m" "\<And>s. F (fst (State_Monad.run_state m s))" "\<And>x. F x \<Longrightarrow> triple P (f x) Q"
  shows "triple P (m \<bind> f) Q"
proof (rule triple_bind [where Q = "\<lambda>x s. P s \<and> F x"])
  show "triple P m (\<lambda>x s. P s \<and> F x)"
    using triple_quiet [OF assms(1,2)] assms(3) by (auto simp: triple_def case_prod_unfold)
  show "triple (\<lambda>s. P s \<and> F x) (f x) Q" for x
    using assms(4) [of x] by (cases "F x") (auto simp: triple_def)
qed

lemma tq_leaf: "blind P \<Longrightarrow> steps quiet_rel m \<Longrightarrow> (\<And>s. P s \<Longrightarrow> I s) \<Longrightarrow> triple P m (\<lambda>_. I)"
  by (rule triple_conseq [OF triple_quiet [of P]]) auto

lemma tq_if: "(b \<Longrightarrow> triple P m Q) \<Longrightarrow> (\<not> b \<Longrightarrow> triple P n Q) \<Longrightarrow> triple P (if b then m else n) Q"
  by simp

lemma tq_let: "(\<And>x. x = v \<Longrightarrow> triple P (f x) Q) \<Longrightarrow> triple P (let x = v in f x) Q"
  by simp

lemma tq_option:
  "(v = None \<Longrightarrow> triple P m Q) \<Longrightarrow> (\<And>x. v = Some x \<Longrightarrow> triple P (f x) Q) \<Longrightarrow>
     triple P (case v of None \<Rightarrow> m | Some x \<Rightarrow> f x) Q"
  by (cases v) auto

lemma readn_length: "fst (State_Monad.run_state (orkd_readn fd n) s) = Some bs \<Longrightarrow> length bs = n"
  by (auto simp: orkd_readn_def split: if_splits)

lemma payload_length: "fst (State_Monad.run_state (read_payload fd n) s) = Some bs \<Longrightarrow> length bs = n"
  by (auto simp: read_payload_def orkd_readn_def split: if_splits)

lemma malloc_buf_length: "fst (State_Monad.run_state (malloc_buf W n) s) = Some bs \<Longrightarrow> length bs = n"
  by (auto simp: malloc_buf_def case_prod_unfold split: option.splits)

lemma queue_inv_add:
  assumes "queue_inv s" "k < length (d_q s)" "\<not> k_used (d_q s ! k)" "k_used w" "k_seq w = d_wseq s"
    "work_ok w" "k_fd w \<in> live_fds s"
  shows "queue_inv (s\<lparr>d_q := (d_q s)[k := w], d_wseq := Suc (d_wseq s), d_qn := d_qn s + 1, d_inp := inp, d_log := lg\<rparr>)"
    (is "queue_inv ?t")
proof -
  let ?q = "(d_q s)[k := w]"
  have old: "\<And>v. v \<in> set (d_q s) \<Longrightarrow> k_used v \<Longrightarrow> work_ok v \<and> k_seq v < d_wseq s \<and> k_fd v \<in> live_fds s"
    using assms(1) by (auto simp: queue_inv_def)
  have "v \<in> set ?q \<Longrightarrow> k_used v \<Longrightarrow> work_ok v \<and> k_seq v < d_wseq s + 1 \<and> k_fd v \<in> live_fds s" for v
    using old [of v] assms by (auto dest!: set_update_subset_insert [THEN subsetD])
  moreover have "i = j" if ij: "i < length ?q" "j < length ?q" "k_used (?q ! i)" "k_used (?q ! j)"
    "k_seq (?q ! i) = k_seq (?q ! j)" for i j
  proof -
    have lt: "k_seq (d_q s ! l) < d_wseq s" if "l < length (d_q s)" "k_used (d_q s ! l)" for l
      using old [of "d_q s ! l"] that by simp
    have uniq: "a < length (d_q s) \<Longrightarrow> c < length (d_q s) \<Longrightarrow> k_used (d_q s ! a) \<Longrightarrow> k_used (d_q s ! c)
        \<Longrightarrow> k_seq (d_q s ! a) = k_seq (d_q s ! c) \<Longrightarrow> a = c" for a c
      using assms(1) unfolding queue_inv_def by blast
    show ?thesis
    proof (cases "i = k \<or> j = k")
      case True
      then show ?thesis using lt [of i] lt [of j] ij assms(2,5) by (cases "i = k"; cases "j = k") auto
    next
      case False
      then show ?thesis using uniq [of i j] ij by simp
    qed
  qed
  moreover have "live_fds ?t = live_fds s" by (simp add: live_fds_alt)
  moreover have "d_qn s + 1 = int (length (filter k_used ?q))"
    using assms(1) used_count [OF assms(2-4)] by (simp add: queue_inv_def)
  ultimately show ?thesis unfolding queue_inv_def by simp
qed

lemma find_unused: "find (\<lambda>i. \<not> k_used (q ! i)) [0..<length q] = Some k \<Longrightarrow> k < length q \<and> \<not> k_used (q ! k)"
  by (auto simp: find_Some_iff)

lemma triple_enqueue:
  assumes "steps quiet_rel refuse"
    and "\<And>dom sq. b \<Longrightarrow> (let w = fill dom (work0\<lparr>k_used := True, k_seq := sq\<rparr>)
           in k_used w \<and> k_seq w = sq \<and> work_ok w \<and> k_fd w = fd)"
  shows "triple (\<lambda>s. queue_inv s \<and> fd \<in> live_fds s) (enqueue W b refuse rd cw fill) (\<lambda>_. queue_inv)"
  unfolding triple_def
proof (intro allI impI)
  fix s assume I: "queue_inv s \<and> fd \<in> live_fds s"
  have refuse: "queue_inv (snd (State_Monad.run_state refuse s))"
    by (rule blindD [OF queue_inv_blind assms(1)]) (use I in simp)
  let ?go = "enqueue W b refuse rd cw fill"
  have "queue_inv (snd (State_Monad.run_state ?go s))"
  proof (cases "b \<and> find (\<lambda>i. \<not> k_used (d_q s ! i)) [0..<length (d_q s)] \<noteq> None")
    case False
    then show ?thesis using refuse by (auto simp: enqueue_def orkd_wk_alloc_def)
  next
    case True
    then obtain k where k: "find (\<lambda>i. \<not> k_used (d_q s ! i)) [0..<length (d_q s)] = Some k" and b by auto
    note ku = find_unused [OF k]
    let ?w0 = "work0\<lparr>k_used := True, k_seq := d_wseq s\<rparr>"
    let ?t = "s\<lparr>d_q := (d_q s)[k := ?w0], d_wseq := Suc (d_wseq s), d_qn := d_qn s + 1\<rparr>"
    let ?r = "State_Monad.run_state (run_domain W rd cw) ?t"
    obtain inp lg where r: "snd ?r = ?t\<lparr>d_inp := inp, d_log := lg\<rparr>"
      using quiet.st_run_domain [of W rd cw] unfolding steps_def quiet_rel_def by blast
    let ?w = "fill (fst ?r) ?w0"
    have w: "k_used ?w" "k_seq ?w = d_wseq s" "work_ok ?w" "k_fd ?w = fd"
      using assms(2) [OF \<open>b\<close>, of "fst ?r" "d_wseq s"] by (simp_all add: Let_def)
    have "snd (State_Monad.run_state ?go s)
        = s\<lparr>d_q := (d_q s)[k := ?w], d_wseq := Suc (d_wseq s), d_qn := d_qn s + 1, d_inp := inp, d_log := lg\<rparr>"
      using \<open>b\<close> ku by (intro daemon.equality)
        (simp_all add: enqueue_def orkd_wk_alloc_def k case_prod_unfold wk_set_def r)
    then show ?thesis using queue_inv_add [OF _ conjunct1 [OF ku] conjunct2 [OF ku] w(1,2,3)] I w(4) by simp
  qed
  then show "case State_Monad.run_state ?go s of (x, s') \<Rightarrow> queue_inv s'" by (simp add: case_prod_unfold)
qed

end
