(* ===== verification/Orkd_Client.thy ===== *)
theory Orkd_Client
  imports Orkd_State
begin

section \<open>The daemon's client library: \<open>src/orkd_client.c\<close> and \<open>src/orkd_client_ops.c\<close>\<close>

text \<open>
  The other end of the socket. A call of the library is a program of a state monad over \<open>sock\<close>: the
  bytes the daemon has sent and the client has not read, the bytes the client has written, how many
  more the kernel will take before the connection breaks (\<open>None\<close>: no limit), and the descriptors that
  rode on a header. A pointer argument is an option, \<open>None\<close> being NULL; a buffer the call fills is part
  of its result, and its argument says only whether the pointer was given. A \<open>double\<close> is its 64-bit
  pattern. Spawning the daemon, \<open>mmap\<close> and the dma heap are process I/O: what they answer is an argument.
\<close>

record sock =
  sk_in :: "byte list"
  sk_out :: "byte list"
  sk_room :: "nat option"
  sk_fds :: "int list"

record conn =
  cn_fd :: int
  cn_client_id :: nat
  cn_soc_cores :: nat
  cn_prio :: nat
  cn_pack_domain :: nat
  cn_op_domain :: nat

type_synonym 'a cm = "(sock, 'a) state"

subsection \<open>The socket helpers of \<open>src/orkd_client_internal.h\<close>\<close>

text \<open>\<open>wn\<close>: all bytes, or as many as the connection takes; the result is whether all went out.\<close>

definition wn :: "byte list \<Rightarrow> bool cm" where
  "wn bs = do {
     s \<leftarrow> State_Monad.get;
     case sk_room s of
       None \<Rightarrow> do { State_Monad.set (s\<lparr>sk_out := sk_out s @ bs\<rparr>); State_Monad.return True }
     | Some r \<Rightarrow> do {
         State_Monad.set (s\<lparr>sk_out := sk_out s @ take r bs, sk_room := Some (r - length bs)\<rparr>);
         State_Monad.return (length bs \<le> r) } }"

definition rn :: "nat \<Rightarrow> byte list option cm" where
  "rn n = do {
     s \<leftarrow> State_Monad.get;
     State_Monad.set (s\<lparr>sk_in := drop n (sk_in s)\<rparr>);
     State_Monad.return (if length (sk_in s) < n then None else Some (take n (sk_in s))) }"

function cdrain :: "nat \<Rightarrow> unit cm" where
  "cdrain n =
     (if n = 0 then State_Monad.return ()
      else do {
        r \<leftarrow> rn (min n 4096);
        case r of None \<Rightarrow> State_Monad.return () | Some _ \<Rightarrow> cdrain (n - min n 4096) })"
  by pat_completeness auto
termination
  by (relation "measure (\<lambda>n. n)") auto

declare cdrain.simps [simp del]

text \<open>\<open>wn(..) || wn(..) || ..\<close>, the header first and with its descriptors.\<close>

fun send_parts :: "byte list list \<Rightarrow> bool cm" where
  "send_parts [] = State_Monad.return True"
| "send_parts (b # bs) = do { ok \<leftarrow> wn b; if ok then send_parts bs else State_Monad.return False }"

definition orkd_send_hdr_fds :: "int list \<Rightarrow> byte list \<Rightarrow> bool cm" where
  "orkd_send_hdr_fds fds h = do {
     s \<leftarrow> State_Monad.get;
     State_Monad.set (s\<lparr>sk_fds := sk_fds s @ take 4 fds\<rparr>);
     wn h }"

text \<open>The reply of type \<open>ty\<close> with the struct \<open>ws\<close> behind its header: the header's length and the
  struct's fields. A reply of another type (an error) is drained.\<close>

definition reply_struct :: "msg_type \<Rightarrow> nat list \<Rightarrow> (nat \<times> nat list) option cm" where
  "reply_struct ty ws = do {
     h \<leftarrow> rn (sizeof hdr_w);
     case h of None \<Rightarrow> State_Monad.return None
     | Some hb \<Rightarrow>
       let rh = parse hdr_w hb in
       if rh ! 0 \<noteq> msg_code ty then do {
         (if rh ! 1 \<noteq> 0 then cdrain (rh ! 1) else State_Monad.return ());
         State_Monad.return None }
       else do {
         p \<leftarrow> rn (sizeof ws);
         State_Monad.return (case p of None \<Rightarrow> None | Some pb \<Rightarrow> Some (rh ! 1, parse ws pb)) } }"

definition drain_rest :: "nat \<Rightarrow> nat \<Rightarrow> unit cm" where
  "drain_rest len consumed = (if consumed < len then cdrain (len - consumed) else State_Monad.return ())"

text \<open>A reply that is an \<open>orkd_handle\<close> alone: its id and rc.\<close>

definition handle_reply :: "msg_type \<Rightarrow> (nat \<times> int) option cm" where
  "handle_reply ty = do {
     r \<leftarrow> reply_struct ty handle_w;
     case r of None \<Rightarrow> State_Monad.return None
     | Some (len, hh) \<Rightarrow> do { drain_rest len (sizeof handle_w); State_Monad.return (Some (hh ! 0, as_int (hh ! 1))) } }"

fun read_all :: "nat list \<Rightarrow> byte list list option cm" where
  "read_all [] = State_Monad.return (Some [])"
| "read_all (n # ns) = do {
     r \<leftarrow> rn n;
     case r of None \<Rightarrow> State_Monad.return None
     | Some b \<Rightarrow> do {
         bs \<leftarrow> read_all ns;
         State_Monad.return (case bs of None \<Rightarrow> None | Some bs \<Rightarrow> Some (b # bs)) } }"

text \<open>A reply with an \<open>orkd_handle\<close> and, when rc is 0, buffers of the sizes \<open>ns\<close>: the result code and
  the buffers read.\<close>

definition payload_reply :: "msg_type \<Rightarrow> nat list \<Rightarrow> (int \<times> byte list list) cm" where
  "payload_reply ty ns = do {
     r \<leftarrow> reply_struct ty handle_w;
     case r of None \<Rightarrow> State_Monad.return (- 1, [])
     | Some (len, hh) \<Rightarrow>
       let consumed = sizeof handle_w; rc = as_int (hh ! 1); total = (consumed + sum_list ns) mod 2 ^ 64 in
       if rc = 0 then
         if len < total then do { drain_rest len consumed; State_Monad.return (- 1, []) }
         else do {
           bs \<leftarrow> read_all ns;
           case bs of None \<Rightarrow> State_Monad.return (- 1, [])
           | Some bs \<Rightarrow> do { drain_rest len total; State_Monad.return (rc, bs) } }
       else do { drain_rest len consumed; State_Monad.return (rc, []) } }"

definition usable :: "conn option \<Rightarrow> bool" where
  "usable c = (case c of None \<Rightarrow> False | Some c \<Rightarrow> 0 \<le> cn_fd c)"

text \<open>\<open>(size_t)\<close> of an \<open>int\<close> product.\<close>

definition csz :: "int \<Rightarrow> nat" where
  "csz n = nat (n mod 2 ^ 64)"

subsection \<open>Connection, liveness, domains: \<open>src/orkd_client.c\<close>\<close>

text \<open>The handshake of \<open>orkd_connect\<close> on the descriptor \<open>fd\<close> of a connected socket.\<close>

definition orkd_connect :: "int \<Rightarrow> nat \<Rightarrow> conn option cm" where
  "orkd_connect fd pid = do {
     ok \<leftarrow> send_parts [enc_hdr HELLO (sizeof hello_w) 1, unparse hello_w [3, u32 pid]];
     if \<not> ok then State_Monad.return None
     else do {
       h \<leftarrow> rn (sizeof hdr_w);
       case h of None \<Rightarrow> State_Monad.return None
       | Some hb \<Rightarrow>
         if parse hdr_w hb ! 0 \<noteq> msg_code WELCOME then State_Monad.return None
         else do {
           p \<leftarrow> rn (sizeof welcome_w);
           State_Monad.return (case p of None \<Rightarrow> None
             | Some pb \<Rightarrow>
               let w = parse welcome_w pb in
               if w ! 0 \<noteq> 3 then None
               else Some \<lparr>cn_fd = fd, cn_client_id = w ! 1, cn_soc_cores = w ! 2, cn_prio = 0,
                      cn_pack_domain = 0, cn_op_domain = 0\<rparr>) } } }"

definition orkd_ping :: "conn option \<Rightarrow> int cm" where
  "orkd_ping c =
     (if \<not> usable c then State_Monad.return (- 1)
      else do {
        ok \<leftarrow> wn (enc_hdr PING 0 2);
        if \<not> ok then State_Monad.return (- 1)
        else do {
          h \<leftarrow> rn (sizeof hdr_w);
          State_Monad.return (case h of None \<Rightarrow> - 1
            | Some hb \<Rightarrow> if parse hdr_w hb ! 0 \<noteq> msg_code PONG then - 1 else 0) } })"

definition orkd_set_priority :: "conn option \<Rightarrow> nat \<Rightarrow> conn option" where
  "orkd_set_priority c prio = map_option (cn_prio_update (\<lambda>_. prio)) c"

definition orkd_set_pack_domain :: "conn option \<Rightarrow> nat \<Rightarrow> conn option" where
  "orkd_set_pack_domain c d = map_option (cn_pack_domain_update (\<lambda>_. d)) c"

definition orkd_set_op_domain :: "conn option \<Rightarrow> nat \<Rightarrow> conn option" where
  "orkd_set_op_domain c d = map_option (cn_op_domain_update (\<lambda>_. d)) c"

definition orkd_domain_alloc :: "conn option \<Rightarrow> int cm" where
  "orkd_domain_alloc c =
     (if \<not> usable c then State_Monad.return (- 1)
      else do {
        ok \<leftarrow> wn (enc_hdr DOM_REQ 0 7);
        if \<not> ok then State_Monad.return (- 1)
        else do {
          r \<leftarrow> handle_reply DOM_OK;
          State_Monad.return (case r of None \<Rightarrow> - 1
            | Some (hid, rc) \<Rightarrow> if rc = 0 then as_int (u32 hid) else - 1) } })"

text \<open>The connection comes back with its pack domain cleared when the freed domain was the pack domain.\<close>

definition orkd_domain_free :: "conn option \<Rightarrow> int \<Rightarrow> (int \<times> conn option) cm" where
  "orkd_domain_free c domain =
     (if \<not> usable c \<or> domain \<le> 0 then State_Monad.return (- 1, c)
      else do {
        ok \<leftarrow> send_parts [enc_hdr DOM_REL (sizeof handle_w) 7, unparse handle_w [nat domain, 0, 0]];
        if \<not> ok then State_Monad.return (- 1, c)
        else
          let c' = (case c of None \<Rightarrow> None
             | Some cn \<Rightarrow> if cn_pack_domain cn = as_u32 domain then Some (cn\<lparr>cn_pack_domain := 0\<rparr>) else Some cn) in do {
            r \<leftarrow> handle_reply DOM_OK;
            State_Monad.return (case r of None \<Rightarrow> - 1 | Some (hid, rc) \<Rightarrow> rc, c') } })"

definition orkd_disconnect :: "conn option \<Rightarrow> unit cm" where
  "orkd_disconnect c =
     (if usable c then do { _ \<leftarrow> wn (enc_hdr BYE 0 0); State_Monad.return () } else State_Monad.return ())"

definition orkd_client_id :: "conn option \<Rightarrow> nat" where
  "orkd_client_id c = (case c of None \<Rightarrow> 0 | Some c \<Rightarrow> cn_client_id c)"

definition orkd_soc_cores :: "conn option \<Rightarrow> nat" where
  "orkd_soc_cores c = (case c of None \<Rightarrow> 0 | Some c \<Rightarrow> cn_soc_cores c)"

end
