(* ===== verification/Orkd_Client_Ops.thy ===== *)
theory Orkd_Client_Ops
  imports Orkd_Client
begin

section \<open>One call per opcode: \<open>src/orkd_client_ops.c\<close>\<close>

text \<open>
  Every call has the shape guard, request, reply. The guard refuses bad arguments before a byte is
  written; the request is the header, the struct (encoded by its width table) and the buffers; the
  reply is read by \<open>handle_reply\<close> or \<open>payload_reply\<close>.
\<close>

definition the_conn :: "conn option \<Rightarrow> conn" where
  "the_conn c = the c"

text \<open>The bytes \<open>write(fd, p, n)\<close> takes from a buffer.\<close>

definition arg_buf :: "byte list option \<Rightarrow> nat \<Rightarrow> byte list" where
  "arg_buf p n = take n (the p)"

subsection \<open>Weights\<close>

text \<open>The three packs differ in the wire dtype and the element size; 0 is the failure.\<close>

definition pack_call :: "nat \<Rightarrow> int \<Rightarrow> conn option \<Rightarrow> int \<Rightarrow> int \<Rightarrow> byte list option \<Rightarrow> nat cm" where
  "pack_call dt esz c K N B =
     (if \<not> usable c \<or> K \<le> 0 \<or> N \<le> 0 \<or> B = None then State_Monad.return 0
      else let n = as_u32 (K * N * esz) in do {
        ok \<leftarrow> send_parts [enc_hdr PACK (u32 (sizeof pack_w + n)) 3,
                unparse pack_w [as_u32 K, as_u32 N, dt, n, cn_pack_domain (the_conn c)], arg_buf B n];
        if \<not> ok then State_Monad.return 0
        else do {
          r \<leftarrow> handle_reply PACK_OK;
          State_Monad.return (case r of None \<Rightarrow> 0 | Some (hid, rc) \<Rightarrow> if rc = 0 then hid else 0) } })"

definition orkd_pack_i8 :: "conn option \<Rightarrow> int \<Rightarrow> int \<Rightarrow> byte list option \<Rightarrow> nat cm" where
  "orkd_pack_i8 = pack_call DT_I8 1"

definition orkd_pack_f16 :: "conn option \<Rightarrow> int \<Rightarrow> int \<Rightarrow> byte list option \<Rightarrow> nat cm" where
  "orkd_pack_f16 = pack_call DT_F16 2"

definition orkd_pack_i4 :: "conn option \<Rightarrow> int \<Rightarrow> int \<Rightarrow> byte list option \<Rightarrow> nat cm" where
  "orkd_pack_i4 = pack_call DT_I4 1"

definition orkd_import_i8 :: "conn option \<Rightarrow> int \<Rightarrow> int \<Rightarrow> int \<Rightarrow> int \<Rightarrow> nat \<Rightarrow> nat \<Rightarrow> nat cm" where
  "orkd_import_i8 c K N bb_fd bf_fd bb_bytes bf_bytes =
     (if \<not> usable c \<or> K \<le> 0 \<or> N \<le> 0 \<or> bb_fd < 0 then State_Monad.return 0
      else do {
        ok \<leftarrow> orkd_send_hdr_fds (bb_fd # (if 0 \<le> bf_fd \<and> bf_bytes \<noteq> 0 then [bf_fd] else []))
                (enc_hdr IMPORT (sizeof import_w) 47);
        ok \<leftarrow> (if ok then wn (unparse import_w
                  [as_u32 K, as_u32 N, DT_I8, cn_pack_domain (the_conn c), bb_bytes, bf_bytes])
              else State_Monad.return False);
        if \<not> ok then State_Monad.return 0
        else do {
          r \<leftarrow> handle_reply IMPORT_OK;
          State_Monad.return (case r of None \<Rightarrow> 0 | Some (hid, rc) \<Rightarrow> if rc = 0 then hid else 0) } })"

definition orkd_free_weight :: "conn option \<Rightarrow> nat \<Rightarrow> int cm" where
  "orkd_free_weight c wid =
     (if \<not> usable c then State_Monad.return (- 1)
      else do {
        ok \<leftarrow> send_parts [enc_hdr FREE (sizeof handle_w) 5, unparse handle_w [wid, 0, 0]];
        if \<not> ok then State_Monad.return (- 1)
        else do {
          r \<leftarrow> handle_reply PACK_OK;
          State_Monad.return (case r of None \<Rightarrow> - 1 | Some (hid, rc) \<Rightarrow> rc) } })"

text \<open>\<open>orkd_kv_alloc\<close>: the handle (0 on failure) and the two weight ids.\<close>

definition orkd_kv_alloc :: "conn option \<Rightarrow> int \<Rightarrow> int \<Rightarrow> (nat \<times> nat \<times> nat) option cm" where
  "orkd_kv_alloc c HD Lmax =
     (if \<not> usable c \<or> HD \<le> 0 \<or> Lmax \<le> 0 then State_Monad.return None
      else do {
        ok \<leftarrow> send_parts [enc_hdr KV_ALLOC (sizeof kv_alloc_w) 3, unparse kv_alloc_w [as_u32 HD, as_u32 Lmax]];
        if \<not> ok then State_Monad.return None
        else do {
          r \<leftarrow> reply_struct KV_ALLOC_OK kv_alloc_ok_w;
          case r of None \<Rightarrow> State_Monad.return None
          | Some (len, ok) \<Rightarrow> do {
              drain_rest len (sizeof kv_alloc_ok_w);
              State_Monad.return (if ok ! 3 \<noteq> 0 then None else Some (ok ! 0, ok ! 1, ok ! 2)) } } })"

definition orkd_kv_append :: "conn option \<Rightarrow> nat \<Rightarrow> int \<Rightarrow> int \<Rightarrow> byte list option \<Rightarrow> byte list option \<Rightarrow> int cm" where
  "orkd_kv_append c kvid key HD kcol vrow =
     (if \<not> usable c \<or> HD \<le> 0 \<or> key < 0 \<or> kcol = None \<or> vrow = None then State_Monad.return (- 2)
      else do {
        ok \<leftarrow> send_parts [enc_hdr KV_APPEND (u32 (sizeof kv_append_w + 2 * nat HD)) 3,
                unparse kv_append_w [kvid, as_u32 key, as_u32 HD], arg_buf kcol (nat HD), arg_buf vrow (nat HD)];
        if \<not> ok then State_Monad.return (- 1)
        else do {
          r \<leftarrow> handle_reply KV_APPEND_OK;
          State_Monad.return (case r of None \<Rightarrow> - 1 | Some (hid, rc) \<Rightarrow> rc) } })"

subsection \<open>Runs\<close>

definition enc_run :: "conn \<Rightarrow> nat \<Rightarrow> int \<Rightarrow> nat \<Rightarrow> byte list" where
  "enc_run c wid M abytes = unparse run_w [wid, as_u32 M, cn_prio c, abytes, cn_op_domain c]"

text \<open>\<open>orkd_run_i8\<close>, \<open>_f16\<close> and \<open>_i4\<close>: the dtype is the weight's, so they differ in A's element size only.\<close>

definition run_call :: "int \<Rightarrow> conn option \<Rightarrow> nat \<Rightarrow> int \<Rightarrow> int \<Rightarrow> int \<Rightarrow> byte list option \<Rightarrow> bool \<Rightarrow>
    (int \<times> byte list list) cm" where
  "run_call esz c wid M K N A C =
     (if \<not> usable c \<or> M \<le> 0 \<or> K \<le> 0 \<or> N \<le> 0 \<or> A = None \<or> \<not> C then State_Monad.return (- 1, [])
      else let n = as_u32 (M * K * esz) in do {
        ok \<leftarrow> send_parts [enc_hdr RUN (u32 (sizeof run_w + n)) 4, enc_run (the_conn c) wid M n, arg_buf A n];
        if \<not> ok then State_Monad.return (- 1, []) else payload_reply RUN_OK [csz (M * N * 4)] })"

definition orkd_run_i8 where "orkd_run_i8 = run_call 1"

definition orkd_run_f16 where "orkd_run_f16 = run_call 2"

definition orkd_run_i4 where "orkd_run_i4 = run_call 1"

text \<open>Zero-copy runs: \<open>afd\<close>, \<open>cfd\<close> are what the dma heap answers, \<open>am\<close>, \<open>cm\<close> whether the mappings
  succeed, \<open>shared\<close> the output buffer's bytes after the run. The result carries what went into the
  shared A.\<close>

definition orkd_run_i8_zc :: "int \<Rightarrow> bool \<Rightarrow> conn option \<Rightarrow> nat \<Rightarrow> int \<Rightarrow> int \<Rightarrow> int \<Rightarrow> byte list option \<Rightarrow> bool \<Rightarrow>
    (int \<times> byte list list) cm" where
  "orkd_run_i8_zc afd am c wid M K N A C =
     (if \<not> usable c \<or> M \<le> 0 \<or> K \<le> 0 \<or> N \<le> 0 \<or> A = None \<or> \<not> C then State_Monad.return (- 1, [])
      else if afd < 0 then State_Monad.return (- 2, [])
      else if \<not> am then State_Monad.return (- 3, [])
      else do {
        ok \<leftarrow> orkd_send_hdr_fds [afd] (enc_hdr RUN_ZC (sizeof run_w) 7);
        ok \<leftarrow> (if ok then wn (enc_run (the_conn c) wid M 0) else State_Monad.return False);
        if \<not> ok then State_Monad.return (- 1, []) else payload_reply RUN_OK [csz (M * N * 4)] })"

definition orkd_run_i8_zc2 :: "int \<Rightarrow> int \<Rightarrow> bool \<Rightarrow> bool \<Rightarrow> byte list \<Rightarrow> conn option \<Rightarrow> nat \<Rightarrow> int \<Rightarrow> int \<Rightarrow> int \<Rightarrow>
    byte list option \<Rightarrow> bool \<Rightarrow> (int \<times> byte list list) cm" where
  "orkd_run_i8_zc2 afd cfd am cm shared c wid M K N A C =
     (if \<not> usable c \<or> M \<le> 0 \<or> K \<le> 0 \<or> N \<le> 0 \<or> A = None \<or> \<not> C then State_Monad.return (- 1, [])
      else if afd < 0 \<or> cfd < 0 then State_Monad.return (- 2, [])
      else if \<not> am \<or> \<not> cm then State_Monad.return (- 3, [])
      else do {
        ok \<leftarrow> orkd_send_hdr_fds [afd, cfd] (enc_hdr RUN_ZC2 (sizeof run_w) 8);
        ok \<leftarrow> (if ok then wn (enc_run (the_conn c) wid M 0) else State_Monad.return False);
        if \<not> ok then State_Monad.return (- 1, [])
        else do {
          r \<leftarrow> handle_reply RUN_OK;
          State_Monad.return (case r of None \<Rightarrow> (- 1, [])
            | Some (hid, rc) \<Rightarrow> (rc, if rc = 0 then [take (csz (M * N * 4)) shared] else [])) } })"

text \<open>The dma-buf probe fills the shared buffer with a pattern and compares hashes; \<open>mapped\<close> is the
  answer of \<open>mmap\<close>, \<open>hash\<close> the client's own \<open>orkd_fnv\<close> of that pattern.\<close>

definition probe_pattern :: "nat \<Rightarrow> byte list" where
  "probe_pattern n = map (\<lambda>i. of_nat (i * 131 + 7)) [0..<n]"

definition orkd_dmabuf_probe :: "int \<Rightarrow> bool \<Rightarrow> (byte list \<Rightarrow> nat) \<Rightarrow> conn option \<Rightarrow> nat \<Rightarrow> int cm" where
  "orkd_dmabuf_probe dfd mapped hash c n =
     (if \<not> usable c \<or> n = 0 then State_Monad.return (- 1)
      else if dfd < 0 then State_Monad.return (- 2)
      else if \<not> mapped then State_Monad.return (- 3)
      else do {
        ok \<leftarrow> orkd_send_hdr_fds [dfd] (enc_hdr DMABUF_PROBE (sizeof dmabuf_w) 6);
        ok \<leftarrow> (if ok then wn (unparse dmabuf_w [n, hash (probe_pattern n), 0, 0]) else State_Monad.return False);
        if \<not> ok then State_Monad.return (- 4)
        else do {
          h \<leftarrow> rn (sizeof hdr_w);
          case h of None \<Rightarrow> State_Monad.return (- 4)
          | Some hb \<Rightarrow>
            if parse hdr_w hb ! 0 \<noteq> msg_code DMABUF_OK then State_Monad.return (- 4)
            else do {
              p \<leftarrow> rn (sizeof dmabuf_w);
              case p of None \<Rightarrow> State_Monad.return (- 4)
              | Some pb \<Rightarrow> do {
                  drain_rest (parse hdr_w hb ! 1) (sizeof dmabuf_w);
                  State_Monad.return (let d = parse dmabuf_w pb in
                    if as_int (d ! 2) = 0 then if d ! 3 \<noteq> 0 then 0 else 1 else - 5) } } } })"

subsection \<open>Fused ops\<close>

definition orkd_ffn_i8 :: "conn option \<Rightarrow> nat \<Rightarrow> nat \<Rightarrow> nat \<Rightarrow> int \<Rightarrow> int \<Rightarrow> int \<Rightarrow> int \<Rightarrow> int \<Rightarrow> int \<Rightarrow> int \<Rightarrow> int \<Rightarrow> int \<Rightarrow> int \<Rightarrow>
    nat \<Rightarrow> nat \<Rightarrow> byte list option \<Rightarrow> bool \<Rightarrow> (int \<times> byte list list) cm" where
  "orkd_ffn_i8 c gate_id up_id down_id M K Nff Kd gate_mult gate_shift up_mult up_shift glu_mult glu_shift
       in_scale out_scale A out =
     (if \<not> usable c \<or> M \<le> 0 \<or> K \<le> 0 \<or> Nff \<le> 0 \<or> Kd \<le> 0 \<or> A = None \<or> \<not> out then State_Monad.return (- 1, [])
      else let n = as_u32 (M * K) in do {
        ok \<leftarrow> send_parts [enc_hdr FFN (u32 (sizeof ffn_w + n)) 49,
                unparse ffn_w [gate_id, up_id, down_id, as_u32 M, as_u32 K, as_u32 Nff, as_u32 Kd,
                  cn_op_domain (the_conn c), as_u32 gate_mult, as_u32 gate_shift, as_u32 up_mult, as_u32 up_shift,
                  as_u32 glu_mult, as_u32 glu_shift, in_scale, out_scale, n, 0], arg_buf A n];
        if \<not> ok then State_Monad.return (- 1, []) else payload_reply FFN_OK [csz (M * Kd * 4)] })"

definition orkd_attn_i8 :: "conn option \<Rightarrow> nat \<Rightarrow> nat \<Rightarrow> nat \<Rightarrow> int \<Rightarrow> int \<Rightarrow> int \<Rightarrow> int \<Rightarrow> int \<Rightarrow> int \<Rightarrow>
    nat \<Rightarrow> nat \<Rightarrow> nat \<Rightarrow> byte list option \<Rightarrow> bool \<Rightarrow> bool \<Rightarrow> (int \<times> byte list list) cm" where
  "orkd_attn_i8 c wkt_id wones_id wv_id Nq Nk Kp dv r_mult r_shift in_scale out_scale max_bias Q sg av =
     (if \<not> usable c \<or> Nq \<le> 0 \<or> Nk \<le> 0 \<or> Kp \<le> 0 \<or> dv \<le> 0 \<or> Q = None \<or> \<not> sg \<or> \<not> av then State_Monad.return (- 1, [])
      else let n = as_u32 (Nq * Kp) in do {
        ok \<leftarrow> send_parts [enc_hdr ATTN (u32 (sizeof attn_w + n)) 55,
                unparse attn_w [wkt_id, wones_id, wv_id, as_u32 Nq, as_u32 Nk, as_u32 Kp, as_u32 dv,
                  cn_op_domain (the_conn c), as_u32 r_mult, as_u32 r_shift, in_scale, out_scale, max_bias, n, 0],
                arg_buf Q n];
        if \<not> ok then State_Monad.return (- 1, [])
        else payload_reply ATTN_OK [csz (Nq * 32 * 4), csz (Nq * dv * 4)] })"

text \<open>The weight-id triples, interleaved.\<close>

fun trips :: "nat list \<Rightarrow> nat list \<Rightarrow> nat list \<Rightarrow> byte list" where
  "trips (a # as) (b # bs) (c # cs) = unparse [8, 8, 8] [a, b, c] @ trips as bs cs"
| "trips as bs cs = []"

definition orkd_attn_rr_i8 :: "conn option \<Rightarrow> int \<Rightarrow> nat list option \<Rightarrow> nat list option \<Rightarrow> nat list option \<Rightarrow>
    int \<Rightarrow> int \<Rightarrow> int \<Rightarrow> int \<Rightarrow> int \<Rightarrow> int \<Rightarrow> nat \<Rightarrow> nat \<Rightarrow> nat \<Rightarrow> byte list option \<Rightarrow> bool \<Rightarrow> bool \<Rightarrow> bool \<Rightarrow>
    (int \<times> byte list list) cm" where
  "orkd_attn_rr_i8 c nchains wkt wones wv Nq Nk Kp dv r_mult r_shift in_scale out_scale max_bias Q sg av mem =
     (if \<not> usable c \<or> nchains < 1 \<or> nchains > int ORKD_ATTN_RR_MAX \<or> Nq \<le> 0 \<or> Nk \<le> 0 \<or> Kp \<le> 0 \<or> dv \<le> 0
       \<or> wkt = None \<or> wones = None \<or> wv = None \<or> Q = None \<or> \<not> sg \<or> \<not> av \<or> \<not> mem then State_Monad.return (- 1, [])
      else let n = as_u32 (nchains * Nq * Kp); k = nat nchains; tb = k * 24 in do {
        ok \<leftarrow> send_parts [enc_hdr ATTN_RR (u32 (sizeof attn_rr_w + tb + n)) 57,
                unparse attn_rr_w [as_u32 nchains, as_u32 Nq, as_u32 Nk, as_u32 Kp, as_u32 dv,
                  cn_op_domain (the_conn c), as_u32 r_mult, as_u32 r_shift, in_scale, out_scale, max_bias, n, 0],
                trips (take k (the wkt)) (take k (the wones)) (take k (the wv)), arg_buf Q n];
        if \<not> ok then State_Monad.return (- 1, [])
        else payload_reply ATTN_RR_OK
               (List.concat (replicate k [csz (Nq * 32 * 4), csz (Nq * dv * 4)])) })"

text \<open>\<open>h\<close> holds the fields of \<open>struct orkd_layer\<close> as the caller filled them; \<open>domain\<close> and \<open>pbytes\<close>
  are set here.\<close>

definition orkd_layer_i8 :: "conn option \<Rightarrow> nat list option \<Rightarrow> byte list option list \<Rightarrow> bool \<Rightarrow> (int \<times> byte list list) cm" where
  "orkd_layer_i8 c h arrays x_out =
     (if \<not> usable c \<or> h = None \<or> None \<in> set arrays \<or> length arrays \<noteq> 6 \<or> \<not> x_out then State_Monad.return (- 1, [])
      else
        let f = the h; D = as_int (f ! 7); Hkv = as_int (f ! 9); dk = as_int (f ! 10); dv = as_int (f ! 11);
            nkv = as_int (f ! 13);
            ns = [csz (D * 4), csz (dk * 4), csz (D * 4), csz (D * 4), csz (Hkv * nkv * dk * 4), csz (Hkv * nkv * dv * 4)];
            pb = u32 (sum_list ns); f' = f[15 := cn_op_domain (the_conn c), 18 := pb] in do {
          ok \<leftarrow> send_parts ([enc_hdr LAYER (u32 (sizeof layer_w + pb)) 59, unparse layer_w f'] @ map2 arg_buf arrays ns);
          if \<not> ok then State_Monad.return (- 1, []) else payload_reply LAYER_OK [csz (D * 4)] })"

subsection \<open>Activation ops\<close>

definition orkd_sdp_call :: "conn option \<Rightarrow> nat \<Rightarrow> int \<Rightarrow> int \<Rightarrow> nat \<Rightarrow> nat \<Rightarrow> nat \<Rightarrow> int \<Rightarrow> int \<Rightarrow> nat \<Rightarrow> nat \<Rightarrow> nat \<Rightarrow> nat \<Rightarrow>
    byte list option \<Rightarrow> byte list option \<Rightarrow> bool \<Rightarrow> (int \<times> byte list list) cm" where
  "orkd_sdp_call c op M N nin in_esz out_esz mult shift in_scale out_scale a_scale b_scale a b out =
     (if \<not> usable c \<or> M \<le> 0 \<or> N \<le> 0 \<or> a = None \<or> \<not> out \<or> (nin = 2 \<and> b = None) then State_Monad.return (- 1, [])
      else
        let half = csz (M * N * int in_esz); outb = csz (M * N * int out_esz); inb = u32 (half * nin) in do {
          ok \<leftarrow> send_parts ([enc_hdr SDP (u32 (sizeof sdp_w + inb)) 9,
                  unparse sdp_w [op, as_u32 M, as_u32 N, nin, in_esz, out_esz, as_u32 mult, as_u32 shift,
                    in_scale, out_scale, a_scale, b_scale, inb, 0], arg_buf a half]
                  @ (if nin = 2 then [arg_buf b half] else []));
          if \<not> ok then State_Monad.return (- 1, []) else payload_reply SDP_OK [outb] })"

definition sdp_unary :: "nat \<Rightarrow> nat \<Rightarrow> conn option \<Rightarrow> byte list option \<Rightarrow> int \<Rightarrow> int \<Rightarrow> nat \<Rightarrow> nat \<Rightarrow> bool \<Rightarrow>
    (int \<times> byte list list) cm" where
  "sdp_unary op esz c inp M N is os out = orkd_sdp_call c op M N 1 esz esz 0 0 is os 0 0 inp None out"

definition orkd_silu_i8 where "orkd_silu_i8 = sdp_unary 1 1"
definition orkd_gelu_i8 where "orkd_gelu_i8 = sdp_unary 2 1"
definition orkd_rsqrt_i8 where "orkd_rsqrt_i8 = sdp_unary 13 1"
definition orkd_exp_i8 where "orkd_exp_i8 = sdp_unary 14 1"
definition orkd_silu_i16 where "orkd_silu_i16 = sdp_unary 7 2"
definition orkd_gelu_i16 where "orkd_gelu_i16 = sdp_unary 8 2"
definition orkd_rsqrt_i16 where "orkd_rsqrt_i16 = sdp_unary 9 2"
definition orkd_exp_i16 where "orkd_exp_i16 = sdp_unary 10 2"

definition sdp_ewmul :: "nat \<Rightarrow> nat \<Rightarrow> conn option \<Rightarrow> byte list option \<Rightarrow> byte list option \<Rightarrow> int \<Rightarrow> int \<Rightarrow> int \<Rightarrow> int \<Rightarrow> bool \<Rightarrow>
    (int \<times> byte list list) cm" where
  "sdp_ewmul op esz c a b M N mult shift out = orkd_sdp_call c op M N 2 esz esz mult shift 0 0 0 0 a b out"

definition orkd_ewmul_i8 where "orkd_ewmul_i8 = sdp_ewmul 3 1"
definition orkd_ewmul_i16 where "orkd_ewmul_i16 = sdp_ewmul 11 2"
definition orkd_ewmul_f16 where "orkd_ewmul_f16 c a b M N out = sdp_ewmul 4 2 c a b M N 0 0 out"

definition sdp_add :: "nat \<Rightarrow> nat \<Rightarrow> conn option \<Rightarrow> byte list option \<Rightarrow> byte list option \<Rightarrow> int \<Rightarrow> int \<Rightarrow> nat \<Rightarrow> nat \<Rightarrow> nat \<Rightarrow> bool \<Rightarrow>
    (int \<times> byte list list) cm" where
  "sdp_add op esz c a b M N as bs os out = orkd_sdp_call c op M N 2 esz esz 0 0 0 os as bs a b out"

definition orkd_add_i8 where "orkd_add_i8 = sdp_add 5 1"
definition orkd_add_i16 where "orkd_add_i16 = sdp_add 12 2"
definition orkd_add_f16 where "orkd_add_f16 c a b M N out = sdp_add 6 2 c a b M N 0 0 0 out"

subsection \<open>Chains and sequences\<close>

record chain_task_c =
  ct_weight :: nat
  ct_M :: int
  ct_K :: int
  ct_N :: int
  ct_A :: "byte list option"
  ct_C :: bool

definition chain_task_bad :: "chain_task_c \<Rightarrow> bool" where
  "chain_task_bad t \<longleftrightarrow> ct_M t \<le> 0 \<or> ct_K t \<le> 0 \<or> ct_N t \<le> 0 \<or> ct_A t = None \<or> \<not> ct_C t"

definition task_abytes :: "chain_task_c \<Rightarrow> nat" where
  "task_abytes t = csz (ct_M t * ct_K t)"

definition task_cbytes :: "chain_task_c \<Rightarrow> nat" where
  "task_cbytes t = csz (ct_M t * ct_N t * 4)"

definition orkd_run_chain_i8 :: "conn option \<Rightarrow> chain_task_c list option \<Rightarrow> (int \<times> byte list list) cm" where
  "orkd_run_chain_i8 c tasks =
     (case tasks of None \<Rightarrow> State_Monad.return (- 1, [])
      | Some ts \<Rightarrow>
        if \<not> usable c \<or> length ts < 1 \<or> length ts > ORKD_CHAIN_MAX \<or> list_ex chain_task_bad ts then State_Monad.return (- 1, [])
        else let atot = (\<Sum>t\<leftarrow>ts. task_abytes t) mod 2 ^ 64 in
          if atot > 0xffffffff then State_Monad.return (- 1, [])
          else do {
            ok \<leftarrow> send_parts ([enc_hdr CHAIN (u32 (sizeof chain_hdr_w + length ts * sizeof chain_task_w + atot)) 10,
                    unparse chain_hdr_w [length ts, 0, atot, cn_op_domain (the_conn c)]]
                    @ map (\<lambda>t. unparse chain_task_w [ct_weight t, as_u32 (ct_M t), as_u32 (ct_M t * ct_K t)]) ts
                    @ map (\<lambda>t. arg_buf (ct_A t) (task_abytes t)) ts);
            if \<not> ok then State_Monad.return (- 1, []) else payload_reply CHAIN_OK (map task_cbytes ts) })"

record seq_op_c =
  so_kind :: nat
  so_weight :: nat
  so_M :: int
  so_N :: int
  so_abytes :: nat
  so_bbytes :: nat
  so_cbytes :: nat
  so_mult :: int
  so_shift :: int
  so_group :: int
  so_in_scale :: nat
  so_out_scale :: nat
  so_b_scale :: nat
  so_A :: "byte list option"
  so_B :: "byte list option"
  so_C :: bool
  so_a_src :: int
  so_b_src :: int
  so_c_keep :: int

definition up_a :: "seq_op_c \<Rightarrow> bool" where "up_a o1 \<longleftrightarrow> so_a_src o1 = 0"

definition up_b :: "seq_op_c \<Rightarrow> bool" where "up_b o1 \<longleftrightarrow> so_b_src o1 = 0 \<and> so_bbytes o1 \<noteq> 0"

definition seq_op_bad :: "seq_op_c \<Rightarrow> bool" where
  "seq_op_bad o1 \<longleftrightarrow> (up_a o1 \<and> so_A o1 = None) \<or> (up_b o1 \<and> so_B o1 = None) \<or> (so_c_keep o1 = 0 \<and> \<not> so_C o1)"

definition seq_in_bytes :: "seq_op_c \<Rightarrow> nat" where
  "seq_in_bytes o1 = (if up_a o1 then so_abytes o1 else 0) + (if up_b o1 then so_bbytes o1 else 0)"

definition enc_seq_op :: "seq_op_c \<Rightarrow> byte list" where
  "enc_seq_op o1 = unparse seq_op_w [so_kind o1, as_u32 (so_M o1), as_u32 (so_N o1), so_weight o1,
     so_abytes o1, so_bbytes o1, so_cbytes o1, as_u32 (so_mult o1), as_u32 (so_shift o1), as_u32 (so_group o1),
     so_in_scale o1, so_out_scale o1, so_b_scale o1, as_u32 (so_a_src o1), as_u32 (so_b_src o1), as_u32 (so_c_keep o1)]"

definition seq_in :: "seq_op_c \<Rightarrow> byte list list" where
  "seq_in o1 = (if up_a o1 then [arg_buf (so_A o1) (so_abytes o1)] else []) @ (if up_b o1 then [arg_buf (so_B o1) (so_bbytes o1)] else [])"

definition orkd_submit_seq :: "conn option \<Rightarrow> seq_op_c list option \<Rightarrow> (int \<times> byte list list) cm" where
  "orkd_submit_seq c ops =
     (case ops of None \<Rightarrow> State_Monad.return (- 1, [])
      | Some os \<Rightarrow>
        if \<not> usable c \<or> length os < 1 \<or> length os > ORKD_SEQ_MAX \<or> list_ex seq_op_bad os then State_Monad.return (- 1, [])
        else let tot = (\<Sum>o1\<leftarrow>os. seq_in_bytes o1) in
          if tot > 0xffffffff then State_Monad.return (- 1, [])
          else do {
            ok \<leftarrow> send_parts ([enc_hdr SEQ (u32 (sizeof seq_hdr_w + length os * sizeof seq_op_w + tot)) 11,
                    unparse seq_hdr_w [length os, 0, tot, cn_op_domain (the_conn c)]]
                    @ map enc_seq_op os @ List.concat (map seq_in os));
            if \<not> ok then State_Monad.return (- 1, [])
            else payload_reply SEQ_OK (map so_cbytes (filter (\<lambda>o1. so_c_keep o1 = 0 \<and> so_cbytes o1 \<noteq> 0) os)) })"

end
