(* ===== verification/Orkd_Rpc.thy ===== *)
theory Orkd_Rpc
  imports Orkd_Client_Ops Orkd_Queue
begin

section \<open>Client and daemon together\<close>

text \<open>
  What one side writes is what the other reads: the stream stays in step on every reply, a reply of the
  daemon comes back as its code and its buffers, and a run the client sends is queued by the daemon as
  the client meant it. \<open>wire_msg\<close> is the message a \<open>Send\<close> of the daemon puts on the wire.
\<close>

definition wire_msg :: "msg_type \<Rightarrow> nat \<Rightarrow> byte list \<Rightarrow> byte list" where
  "wire_msg ty tag payload = enc_hdr ty (u32 (length payload)) tag @ payload"

subsection \<open>Running the socket helpers\<close>

lemma run_rn:
  "State_Monad.run_state (rn n) s =
     (if length (sk_in s) < n then None else Some (take n (sk_in s)), s\<lparr>sk_in := drop n (sk_in s)\<rparr>)"
  by (simp add: rn_def)

lemma run_cdrain: "State_Monad.run_state (cdrain n) s = ((), s\<lparr>sk_in := drop n (sk_in s)\<rparr>)"
proof (induction n arbitrary: s rule: cdrain.induct)
  case (1 n)
  show ?case
  proof (cases "n = 0 \<or> length (sk_in s) < min n 4096")
    case True
    then show ?thesis by (subst cdrain.simps) (auto simp: run_rn)
  next
    case False
    then have "drop (n - min n 4096) (drop (min n 4096) (sk_in s)) = drop n (sk_in s)" by simp
    with False 1 show ?thesis by (subst cdrain.simps) (simp add: run_rn del: drop_drop)
  qed
qed

lemma run_drain_rest:
  "State_Monad.run_state (drain_rest len consumed) s = ((), s\<lparr>sk_in := drop (len - consumed) (sk_in s)\<rparr>)"
  by (simp add: drain_rest_def run_cdrain)

lemma run_read_all:
  "sum_list ns \<le> length (sk_in s) \<Longrightarrow> \<exists>bs. State_Monad.run_state (read_all ns) s =
     (Some bs, s\<lparr>sk_in := drop (sum_list ns) (sk_in s)\<rparr>) \<and> map length bs = ns
     \<and> List.concat bs = take (sum_list ns) (sk_in s)"
proof (induction ns arbitrary: s)
  case (Cons n ns)
  then have "sum_list ns \<le> length (sk_in (s\<lparr>sk_in := drop n (sk_in s)\<rparr>))" by simp
  from Cons.IH [OF this] obtain bs where "State_Monad.run_state (read_all ns) (s\<lparr>sk_in := drop n (sk_in s)\<rparr>) =
      (Some bs, s\<lparr>sk_in := drop (sum_list ns) (drop n (sk_in s))\<rparr>)" "map length bs = ns"
      "List.concat bs = take (sum_list ns) (drop n (sk_in s))"
    by auto
  moreover have "take (n + sum_list ns) (sk_in s) = take n (sk_in s) @ take (sum_list ns) (drop n (sk_in s))"
    by (rule take_add)
  ultimately show ?case using Cons.prems by (auto simp: run_rn add.commute)
qed simp

lemma run_send_parts:
  "sk_room s = None \<Longrightarrow> State_Monad.run_state (send_parts bs) s = (True, s\<lparr>sk_out := sk_out s @ List.concat bs\<rparr>)"
  by (induction bs arbitrary: s) (auto simp: wn_def)

subsection \<open>Headers\<close>

lemma msg_code_lt [simp]: "msg_code m < 4294967296"
  by (cases m) simp_all

lemma msg_code_inj [simp]: "msg_code m = msg_code m' \<longleftrightarrow> m = m'"
  by (metis decode_msg_code option.inject)

lemma enc_hdr_length [simp]: "length (enc_hdr ty len tag) = 16"
  by (simp add: enc_hdr_def hdr_w_def)

lemma parse_enc_hdr:
  "len < 4294967296 \<Longrightarrow> tag < 2 ^ 64 \<Longrightarrow> parse hdr_w (enc_hdr ty len tag @ rest) = [msg_code ty, len, tag]"
  unfolding enc_hdr_def by (rule parse_unparse) (simp_all add: hdr_w_def)

lemma sizeof_hdr [simp]: "sizeof hdr_w = 16" and sizeof_handle [simp]: "sizeof handle_w = 16"
  and sizeof_run [simp]: "sizeof run_w = 24"
  by (simp_all add: sizeof_def hdr_w_def handle_w_def run_w_def)

lemma run_reply_struct:
  assumes "sk_in s = wire_msg ty' tag payload @ rest" "length payload < 4294967296" "tag < 2 ^ 64"
    "ty' = ty \<Longrightarrow> sizeof ws \<le> length payload"
  shows "State_Monad.run_state (reply_struct ty ws) s =
    (if ty' = ty then (Some (length payload, parse ws (take (sizeof ws) payload)),
                       s\<lparr>sk_in := drop (sizeof ws) payload @ rest\<rparr>)
     else (None, s\<lparr>sk_in := rest\<rparr>))"
proof -
  let ?h = "enc_hdr ty' (length payload) tag"
  have inp: "sk_in s = ?h @ payload @ rest" using assms(1,2) by (simp add: wire_msg_def u32_def)
  have "parse hdr_w (take 16 (sk_in s)) = [msg_code ty', length payload, tag]"
    using parse_enc_hdr [OF assms(2,3), of ty' "[]"] by (simp add: inp)
  then show ?thesis using assms(4)
    by (cases "payload = []"; cases "ty' = ty") (auto simp: reply_struct_def run_rn inp run_cdrain Let_def)
qed

text \<open>The payload reply, by cases on what the daemon sent.\<close>

lemma run_payload_reply:
  assumes "sk_in s = wire_msg ty' tag payload @ rest" "length payload < 4294967296" "tag < 2 ^ 64"
    "ty' = ty \<Longrightarrow> 16 \<le> length payload" "sum_list ns < 2 ^ 63"
  defines "rc \<equiv> as_int (parse handle_w (take 16 payload) ! 1)"
  shows "\<exists>bs. State_Monad.run_state (payload_reply ty ns) s =
      ((if ty' \<noteq> ty \<or> rc = 0 \<and> length payload < 16 + sum_list ns then - 1 else rc, bs), s\<lparr>sk_in := rest\<rparr>)
    \<and> (if ty' = ty \<and> rc = 0 \<and> 16 + sum_list ns \<le> length payload
       then map length bs = ns \<and> List.concat bs = take (sum_list ns) (drop 16 payload) else bs = [])"
proof -
  have tot: "(16 + sum_list ns) mod 18446744073709551616 = 16 + sum_list ns" using assms(5) by simp
  note r = run_reply_struct [OF assms(1-3), of ty handle_w]
  let ?t = "s\<lparr>sk_in := drop 16 payload @ rest\<rparr>"
  show ?thesis
  proof (cases "ty' = ty \<and> rc = 0 \<and> 16 + sum_list ns \<le> length payload")
    case True
    then have "sum_list ns + 16 \<le> length payload" by simp
    then have "sum_list ns \<le> length (sk_in ?t)" by simp
    from run_read_all [OF this] True obtain bs where bs: "State_Monad.run_state (read_all ns) ?t =
        (Some bs, s\<lparr>sk_in := drop (16 + sum_list ns) payload @ rest\<rparr>)" "map length bs = ns"
        "List.concat bs = take (sum_list ns) (drop 16 payload)"
      by (auto simp: add.commute)
    have "drop (length payload - (16 + sum_list ns)) (drop (16 + sum_list ns) payload @ rest) = rest" by simp
    then show ?thesis using True r assms(4) bs unfolding payload_reply_def rc_def
      by (simp add: case_prod_unfold tot run_drain_rest Let_def)
  next
    case False
    then show ?thesis using r assms(4) unfolding payload_reply_def rc_def
      by (cases "ty' = ty") (auto simp: case_prod_unfold tot run_drain_rest Let_def)
  qed
qed


definition demo_sock :: sock where
  "demo_sock = \<lparr>sk_in = wire_msg RUN_OK 4 (enc_handle 9 0 @ [1, 2, 3, 4]) @ [77], sk_out = [], sk_room = None, sk_fds = []\<rparr>"


subsection \<open>A run, from the client's call to the daemon's queue\<close>

text \<open>The bytes of the request, and the work item the daemon makes of it.\<close>

lemma csz_sz: "csz = sz"
  by (simp add: csz_def sz_def fun_eq_iff)

lemma as_u32_lt [simp]: "as_u32 x < 4294967296"
proof -
  have "x mod 4294967296 < 4294967296" by simp
  then show ?thesis unfolding as_u32_def by linarith
qed

lemma parse_enc_run:
  "cn_prio c < 2 ^ 32 \<Longrightarrow> cn_op_domain c < 2 ^ 32 \<Longrightarrow> wid < 2 ^ 64 \<Longrightarrow> n < 2 ^ 32 \<Longrightarrow>
     parse run_w (enc_run c wid M n) = [wid, as_u32 M, cn_prio c, n, cn_op_domain c]"
  unfolding enc_run_def using parse_unparse [of run_w "[wid, as_u32 M, cn_prio c, n, cn_op_domain c]" "[]"]
  by (simp add: run_w_def)

lemma enc_run_length [simp]: "length (enc_run c wid M n) = 24"
  by (simp add: enc_run_def run_w_def)

lemma run_call_request:
  assumes "0 \<le> cn_fd cn" "1 \<le> M" "1 \<le> K" "1 \<le> N" "sk_room s = None"
  shows "sk_out (snd (State_Monad.run_state (run_call esz (Some cn) wid M K N (Some A) True) s)) = sk_out s @ enc_hdr RUN (u32 (24 + as_u32 (M * K * esz))) 4
         @ enc_run cn wid M (as_u32 (M * K * esz)) @ take (as_u32 (M * K * esz)) A"
proof -
  have rn: "sk_out (snd (State_Monad.run_state (rn n) t)) = sk_out t" for n t by (simp add: run_rn)
  have ra: "sk_out (snd (State_Monad.run_state (read_all ns) t)) = sk_out t" for ns t
    by (induction ns arbitrary: t) (auto simp: run_rn case_prod_unfold split: option.split)
  have rs: "sk_out (snd (State_Monad.run_state (reply_struct ty ws) t)) = sk_out t" for ty ws t
    by (simp add: reply_struct_def run_rn run_cdrain Let_def case_prod_unfold)
  have pr: "sk_out (snd (State_Monad.run_state (payload_reply ty ns) t)) = sk_out t" for ty ns t
    using rs [of ty handle_w t] ra
    by (auto simp: payload_reply_def case_prod_unfold Let_def run_drain_rest split: option.split)
  show ?thesis
    using assms by (simp add: run_call_def usable_def Let_def run_send_parts the_conn_def arg_buf_def pr
        del: send_parts.simps)
qed

lemma run_readn:
  "State_Monad.run_state (orkd_readn fd n) d =
     (if length (d_inp d fd) < n then None else Some (take n (d_inp d fd)),
      d\<lparr>d_inp := (d_inp d)(fd := drop n (d_inp d fd))\<rparr>)"
  by (simp add: orkd_readn_def gets_def)

lemma run_malloc:
  "State_Monad.run_state (malloc W n) d =
     (w_ptr W (d_log d) (Malloc n) \<noteq> None, d\<lparr>d_log := Malloc n # d_log d\<rparr>)"
  by (simp add: malloc_def ask_ptr_def note_call_def gets_def)

lemma run_malloc_buf:
  "w_ptr W (d_log d) (Malloc n) \<noteq> None \<Longrightarrow> State_Monad.run_state (malloc_buf W n) d =
     (Some (fit n (w_out W (d_log d) (Malloc n))), d\<lparr>d_log := Malloc n # d_log d\<rparr>)"
  by (auto simp: malloc_buf_def note_call_def gets_def)

lemma handle_run_queues:
  assumes "d_inp d (c_fd c) = enc_run cn wid M n @ A" "c = d_cl d ! i" "length A = n"
    "cn_prio cn < 2 ^ 32" "cn_op_domain cn < 2 ^ 32" "wid < 2 ^ 64" "n \<le> ORKD_MAX_BYTES" "1 \<le> n"
    "1 \<le> M" "M < 2147483648" "wt_find c wid = Some cw" "n = as_u32 (M * cw_K cw * orkd_esz_a (cw_dtype cw))"
    "\<And>h e. w_ptr W h e \<noteq> None" "find (\<lambda>k. \<not> k_used (d_q d ! k)) [0..<length (d_q d)] = Some k"
  shows "let r = State_Monad.run_state (orkd_handle_run W i tag) d; d' = snd r; w = d_q d' ! k in
     \<not> fst r \<and> d_inp d' (c_fd c) = [] \<and> d_qn d' = d_qn d + 1
     \<and> k_used w \<and> k_fd w = c_fd c \<and> k_type w = RUN \<and> k_tag w = tag \<and> k_prio w = cn_prio cn
     \<and> k_weight_id w = wid \<and> k_M w = M \<and> k_K w = cw_K cw \<and> k_N w = cw_N cw \<and> k_A w = A \<and> k_m0 w = 0
     \<and> (cn_op_domain cn \<noteq> 0 \<longrightarrow> k_domain w = as_int (cn_op_domain cn))"
proof -
  have n: "n < 2 ^ 32" using assms(7) by (simp add: ORKD_MAX_BYTES_def)
  note p = parse_enc_run [OF assms(4,5,6) n, of M]
  have M: "int (as_u32 M) = M" "as_int (as_u32 M) = M"
    using assms(9,10) by (simp_all add: as_u32_def as_int_def)
  have k: "k < length (d_q d)" using assms(14) by (auto simp: find_Some_iff)
  have e: "\<not> length (enc_run cn wid M n @ A) < 24" "take 24 (enc_run cn wid M n @ A) = enc_run cn wid M n"
    "drop 24 (enc_run cn wid M n @ A) = A" by simp_all
  show ?thesis
    unfolding orkd_handle_run_def
    using assms(3,7,8,11,13,14) k
    by (simp add: assms(12) [symmetric] run_cl_get run_readn run_malloc run_malloc_buf assms(1) assms(2) [symmetric] e p M Let_def
        read_payload_def enqueue_def orkd_wk_alloc_def gets_def wk_set_def run_domain_def ask_rc_def note_call_def
        case_prod_unfold work0_def)
qed

text \<open>C21: a run sent by the client library arrives as it was meant: when the daemon serves the client whose
  stream holds exactly what \<open>orkd_run_i8\<close>, \<open>_f16\<close> or \<open>_i4\<close> wrote, has memory and a free queue entry, and the
  weight's recorded K and element size are the caller's, one item is queued with the caller's operand,
  row count, priority, weight and domain, and the stream is at its end.\<close>

theorem run_request_is_queued:
  assumes "0 \<le> cn_fd cn" "1 \<le> M" "M < 2147483648" "1 \<le> K" "1 \<le> N" "sk_room s = None" "sk_out s = []"
    "cn_prio cn < 2 ^ 32" "cn_op_domain cn < 2 ^ 32" "wid < 2 ^ 64"
    "1 \<le> esz" "length A = nat (M * K * esz)" "length A \<le> ORKD_MAX_BYTES"
    and sent: "d_inp d (c_fd c) = sk_out (snd (State_Monad.run_state (run_call esz (Some cn) wid M K N (Some A) True) s))"
    and "c = d_cl d ! i" "wt_find c wid = Some cw" "cw_K cw = K" "orkd_esz_a (cw_dtype cw) = esz"
    and "\<And>h e. w_ptr W h e \<noteq> None" "find (\<lambda>k. \<not> k_used (d_q d ! k)) [0..<length (d_q d)] = Some k"
  shows "let d' = snd (State_Monad.run_state (serve_client W i (- 1, - 1)) d); w = d_q d' ! k in
     d_inp d' (c_fd c) = [] \<and> d_qn d' = d_qn d + 1
     \<and> k_used w \<and> k_fd w = c_fd c \<and> k_type w = RUN \<and> k_tag w = 4 \<and> k_prio w = cn_prio cn
     \<and> k_weight_id w = wid \<and> k_M w = M \<and> k_K w = K \<and> k_N w = cw_N cw \<and> k_A w = A \<and> k_m0 w = 0
     \<and> (cn_op_domain cn \<noteq> 0 \<longrightarrow> k_domain w = as_int (cn_op_domain cn))"
proof -
  have pos: "1 \<le> M * K * esz" using assms(2,4,11) by (smt (verit) mult_pos_pos)
  have n: "as_u32 (M * K * esz) = length A"
  proof -
    have "M * K * esz < 4294967296" using assms(12,13) pos unfolding ORKD_MAX_BYTES_def by linarith
    then have "M * K * esz mod 4294967296 = M * K * esz" using pos by (intro mod_pos_pos_trivial) auto
    then show ?thesis unfolding as_u32_def by (simp only: assms(12))
  qed
  have inp: "d_inp d (c_fd c) = enc_hdr RUN (u32 (24 + length A)) 4 @ enc_run cn wid M (length A) @ A"
    using sent run_call_request [OF assms(1,2,4,5,6), of esz wid A] by (simp add: n assms(7))
  let ?d = "d\<lparr>d_inp := (d_inp d)(c_fd c := enc_run cn wid M (length A) @ A), d_submits := Suc (d_submits d)\<rparr>"
  have h: "parse hdr_w (enc_hdr RUN (u32 (24 + length A)) 4) = [18, 24 + length A, 4]"
    using parse_enc_hdr [of "24 + length A" 4 RUN "[]"] assms(13) by (simp add: u32_def ORKD_MAX_BYTES_def)
  have q: "let r = State_Monad.run_state (orkd_handle_run W i 4) ?d; d' = snd r; w = d_q d' ! k in
     \<not> fst r \<and> d_inp d' (c_fd c) = [] \<and> d_qn d' = d_qn ?d + 1
     \<and> k_used w \<and> k_fd w = c_fd c \<and> k_type w = RUN \<and> k_tag w = 4 \<and> k_prio w = cn_prio cn
     \<and> k_weight_id w = wid \<and> k_M w = M \<and> k_K w = cw_K cw \<and> k_N w = cw_N cw \<and> k_A w = A \<and> k_m0 w = 0
     \<and> (cn_op_domain cn \<noteq> 0 \<longrightarrow> k_domain w = as_int (cn_op_domain cn))"
  proof (rule handle_run_queues [OF _ _ refl assms(8,9,10,13) _ assms(2,3,16)])
    show "d_inp ?d (c_fd c) = enc_run cn wid M (length A) @ A" by simp
    show "c = d_cl ?d ! i" using assms(15) by simp
    show "1 \<le> length A" using assms(12) pos by simp
    show "length A = as_u32 (M * cw_K cw * orkd_esz_a (cw_dtype cw))" by (simp add: n assms(17,18))
    show "find (\<lambda>k. \<not> k_used (d_q ?d ! k)) [0..<length (d_q ?d)] = Some k" using assms(20) by simp
  qed (rule assms(19))
  have dm: "decode_msg 18 = Some RUN" using decode_msg_code [of RUN] by simp
  have inp': "d_inp d (c_fd (d_cl d ! i)) = enc_hdr RUN (u32 (24 + length A)) 4 @ enc_run cn wid M (length A) @ A"
    using inp assms(15) by simp
  have up: "d_submits_update Suc (d\<lparr>d_inp := x\<rparr>) = d\<lparr>d_inp := x, d_submits := Suc (d_submits d)\<rparr>" for x
    by (intro daemon.equality) simp_all
  have stays: "\<not> fst (State_Monad.run_state (orkd_handle_run W i 4) ?d)"
    using q unfolding Let_def by blast
  have "snd (State_Monad.run_state (serve_client W i (- 1, - 1)) d) = snd (State_Monad.run_state (orkd_handle_run W i 4) ?d)"
    using stays unfolding assms(15)
    by (simp add: up serve_client_def run_readn inp' h dm handle_msg_def count_submit_def case_prod_unfold
        close2_def close_fd_def stray_fds_def)
  then show ?thesis using q assms(17) by (simp add: Let_def)
qed

text \<open>A world with memory, a client with one resident 2x3 weight, and its connection.\<close>

definition rich_world :: world where
  "rich_world = \<lparr>w_ptr = (\<lambda>_ _. Some 1), w_rc = (\<lambda>_ _. 0), w_out = (\<lambda>_ _. [])\<rparr>"

definition demo_conn :: conn where
  "demo_conn = \<lparr>cn_fd = 3, cn_client_id = 1, cn_soc_cores = 3, cn_prio = 2, cn_pack_domain = 0, cn_op_domain = 6\<rparr>"

definition idle_sock :: sock where
  "idle_sock = \<lparr>sk_in = [], sk_out = [], sk_room = None, sk_fds = []\<rparr>"

definition demo_client :: client where
  "demo_client = slot0\<lparr>c_fd := 5, c_wt := [\<lparr>cw_id = 1, cw_w = 40, cw_K = 2, cw_N = 3, cw_dtype = DT_I8\<rparr>]\<rparr>"

definition demo_daemon :: daemon where
  "demo_daemon = (daemon_init [demo_client] False 3)\<lparr>d_nc := 1, d_q := replicate 2 work0,
     d_inp := (\<lambda>_. sk_out (snd (State_Monad.run_state (orkd_run_i8 (Some demo_conn) 1 1 2 3 (Some [7, 8]) True) idle_sock)))\<rparr>"

theorem run_request_is_queued_witness:
  "let w = d_q (snd (State_Monad.run_state (serve_client rich_world 0 (- 1, - 1)) demo_daemon)) ! 0
   in k_used w \<and> k_A w = [7, 8] \<and> k_M w = 1 \<and> k_prio w = 2 \<and> k_domain w = 6"
proof -
  let ?c = "d_cl demo_daemon ! 0"
  have "wt_find ?c 1 = Some \<lparr>cw_id = 1, cw_w = 40, cw_K = 2, cw_N = 3, cw_dtype = DT_I8\<rparr>"
    by (simp add: demo_daemon_def daemon_init_def demo_client_def wt_find_def)
  moreover have "d_inp demo_daemon (c_fd ?c) =
      sk_out (snd (State_Monad.run_state (run_call 1 (Some demo_conn) 1 1 2 3 (Some [7, 8]) True) idle_sock))"
    by (simp add: demo_daemon_def orkd_run_i8_def)
  moreover have "find (\<lambda>k. \<not> k_used (d_q demo_daemon ! k)) [0..<length (d_q demo_daemon)] = Some 0"
    by (simp add: demo_daemon_def work0_def upt_conv_Cons)
  ultimately show ?thesis
    using run_request_is_queued [of demo_conn 1 2 3 idle_sock 1 1 "[7, 8]" demo_daemon ?c 0 _ rich_world 0]
    by (simp add: demo_conn_def idle_sock_def ORKD_MAX_BYTES_def orkd_esz_a_def DT_I8_def DT_F16_def
        rich_world_def as_int_def Let_def)
qed

end
