(* ===== verification/Orkd_Ring.thy ===== *)
theory Orkd_Ring
  imports Orkd_Client Orkd_Queue
begin

section \<open>The shared ring: client and daemon on one region\<close>

text \<open>
  \<open>orkd_ring_submit\<close> and \<open>orkd_ring_collect\<close> of \<open>src/orkd_client.c\<close> work on the region the daemon
  serves with \<open>ring_service\<close>. The client owns a counter \<open>next\<close> (\<open>ring_next\<close>), the daemon a counter
  \<open>ring_tail\<close>; the slot's state word passes a slot from one side to the other. \<open>collect\<close> spins until
  the answer is there: one poll of it is a function whose result \<open>None\<close> is another round. The \<open>stop\<close>
  word is its argument.
\<close>

definition blank_slot :: ring_slot where
  "blank_slot = \<lparr>rs_state = EMPTY, rs_weight = 0, rs_M = 0, rs_K = 0, rs_N = 0, rs_dtype = 0, rs_abytes = 0,
     rs_cbytes = 0, rs_rc = 0, rs_domain = 0, rs_data = replicate ORKD_RING_SLOT_DATA 0\<rparr>"

definition new_ring :: ring where
  "new_ring = \<lparr>r_magic = ORKD_RING_MAGIC, r_nslots = ORKD_RING_SLOTS, r_slot_data = ORKD_RING_SLOT_DATA,
     r_slots = replicate ORKD_RING_SLOTS blank_slot\<rparr>"

text \<open>\<open>mfd\<close>, \<open>sized\<close>, \<open>mapped\<close>: the answers of \<open>memfd_create\<close>, \<open>ftruncate\<close> and \<open>mmap\<close>.\<close>

definition orkd_ring_setup :: "int \<Rightarrow> bool \<Rightarrow> bool \<Rightarrow> conn option \<Rightarrow> ring option \<Rightarrow> (int \<times> ring option) cm" where
  "orkd_ring_setup mfd sized mapped c rg =
     (if \<not> usable c then State_Monad.return (- 1, rg)
      else if rg \<noteq> None then State_Monad.return (0, rg)
      else if mfd < 0 \<or> \<not> sized \<or> \<not> mapped then State_Monad.return (- 1, rg)
      else do {
        ok \<leftarrow> orkd_send_hdr_fds [mfd] (enc_hdr RING_SETUP (sizeof ring_setup_w) 6);
        ok \<leftarrow> (if ok then wn (unparse ring_setup_w [ORKD_RING_BYTES]) else State_Monad.return False);
        if \<not> ok then State_Monad.return (- 1, rg)
        else do {
          r \<leftarrow> reply_struct RING_OK handle_w;
          State_Monad.return (case r of None \<Rightarrow> (- 1, rg)
            | Some (len, hh) \<Rightarrow> if as_int (hh ! 1) \<noteq> 0 then (- 1, rg) else (0, Some new_ring)) } })"

definition orkd_has_ring :: "ring option \<Rightarrow> bool" where
  "orkd_has_ring rg \<longleftrightarrow> rg \<noteq> None"

definition ring_esz_a :: "nat \<Rightarrow> int" where
  "ring_esz_a dt = (if dt = DT_F16 then 2 else 1)"

definition request_slot :: "nat \<Rightarrow> nat \<Rightarrow> int \<Rightarrow> int \<Rightarrow> int \<Rightarrow> nat \<Rightarrow> byte list \<Rightarrow> ring_slot \<Rightarrow> ring_slot" where
  "request_slot op_domain wid M K N dt A sl =
     (let abytes = csz (M * K * ring_esz_a dt); cbytes = csz (M * N * 4) in
      sl\<lparr>rs_weight := wid, rs_M := as_u32 M, rs_K := as_u32 K, rs_N := as_u32 N, rs_dtype := dt,
        rs_abytes := u32 abytes, rs_cbytes := u32 cbytes, rs_rc := 0, rs_domain := op_domain,
        rs_data := take abytes A @ drop abytes (rs_data sl), rs_state := REQ\<rparr>)"

text \<open>The result is the ticket or an error code, and the region and the counter afterwards.\<close>

definition orkd_ring_submit ::
    "nat \<Rightarrow> nat \<Rightarrow> int \<Rightarrow> int \<Rightarrow> int \<Rightarrow> nat \<Rightarrow> byte list option \<Rightarrow> ring option \<times> nat \<Rightarrow> int \<times> ring option \<times> nat" where
  "orkd_ring_submit op_domain wid M K N dt A s =
     (case s of
        (None, next) \<Rightarrow> (- 1, None, next)
      | (Some r, next) \<Rightarrow>
          if M \<le> 0 \<or> K \<le> 0 \<or> N \<le> 0 \<or> A = None then (- 1, Some r, next)
          else if csz (M * K * ring_esz_a dt) > r_slot_data r \<or> csz (M * N * 4) > r_slot_data r then (- 2, Some r, next)
          else let idx = next mod r_nslots r; sl = r_slots r ! idx in
            if rs_state sl \<noteq> EMPTY then (- 2, Some r, next)
            else (int idx, Some (r\<lparr>r_slots := (r_slots r)[idx := request_slot op_domain wid M K N dt (the A) sl]\<rparr>),
                  u32 (next + 1)))"

definition orkd_ring_collect :: "bool \<Rightarrow> int \<Rightarrow> bool \<Rightarrow> ring option \<Rightarrow> (int \<times> byte list \<times> ring option) option" where
  "orkd_ring_collect stop ticket C rg =
     (case rg of None \<Rightarrow> Some (- 1, [], None)
      | Some r \<Rightarrow>
          if ticket < 0 \<or> ticket \<ge> int (r_nslots r) \<or> \<not> C then Some (- 1, [], rg)
          else let sl = r_slots r ! nat ticket in
            if rs_state sl \<noteq> RESP then if stop then Some (- 1, [], rg) else None
            else Some (rs_rc sl, if rs_rc sl = 0 then take (rs_cbytes sl) (rs_data sl) else [],
                       Some (r\<lparr>r_slots := (r_slots r)[nat ticket := sl\<lparr>rs_state := EMPTY\<rparr>]\<rparr>)))"

text \<open>The spinning \<open>orkd_ring_collect\<close> with what the daemon does to the region between two polls, and the
  synchronous call over it; \<open>None\<close>: still spinning.\<close>

fun collect_spin :: "(ring option \<Rightarrow> ring option) list \<Rightarrow> bool \<Rightarrow> int \<Rightarrow> bool \<Rightarrow> ring option \<Rightarrow>
    (int \<times> byte list \<times> ring option) option" where
  "collect_spin [] stop t C rg = orkd_ring_collect stop t C rg"
| "collect_spin (turn # turns) stop t C rg =
     (case orkd_ring_collect stop t C rg of Some r \<Rightarrow> Some r | None \<Rightarrow> collect_spin turns stop t C (turn rg))"

definition orkd_ring_run ::
    "(ring option \<Rightarrow> ring option) list \<Rightarrow> bool \<Rightarrow> nat \<Rightarrow> nat \<Rightarrow> int \<Rightarrow> int \<Rightarrow> int \<Rightarrow> nat \<Rightarrow> byte list option \<Rightarrow> bool \<Rightarrow>
     ring option \<times> nat \<Rightarrow> (int \<times> byte list \<times> ring option \<times> nat) option" where
  "orkd_ring_run turns stop op_domain wid M K N dt A C s =
     (case orkd_ring_submit op_domain wid M K N dt A s of
        (t, rg, next) \<Rightarrow>
          if t < 0 then Some (t, [], rg, next)
          else map_option (\<lambda>(rc, out, rg'). (rc, out, rg', next)) (collect_spin turns stop t C rg))"

definition orkd_run_i8_ring ::
    "(ring option \<Rightarrow> ring option) list \<Rightarrow> bool \<Rightarrow> nat \<Rightarrow> nat \<Rightarrow> int \<Rightarrow> int \<Rightarrow> int \<Rightarrow> byte list option \<Rightarrow> bool \<Rightarrow>
     ring option \<times> nat \<Rightarrow> (int \<times> byte list \<times> ring option \<times> nat) option" where
  "orkd_run_i8_ring turns stop op_domain wid M K N A C s = orkd_ring_run turns stop op_domain wid M K N DT_I8 A C s"

subsection \<open>Both sides interleaved\<close>

text \<open>The daemon, the client's counter and, as a ghost, the requests submitted so far. A step is a
  submit, a poll of collect, or a pass of the daemon over the ring of its client \<open>i\<close> at address \<open>p\<close>.\<close>

record ring_sys =
  y_d :: daemon
  y_next :: nat
  y_sent :: "ring_slot list"

definition with_ring :: "nat \<Rightarrow> ring option \<Rightarrow> daemon \<Rightarrow> daemon" where
  "with_ring p rg d = (case rg of None \<Rightarrow> d | Some r \<Rightarrow> d\<lparr>d_shm := (d_shm d)(p := r)\<rparr>)"

inductive ring_step :: "world \<Rightarrow> nat \<Rightarrow> nat \<Rightarrow> ring_sys \<Rightarrow> ring_sys \<Rightarrow> bool" for W i p where
  submit_ok: "orkd_ring_submit od wid M K N dt (Some A) (Some (d_shm (y_d y) p), y_next y) = (tk, Some r, n) \<Longrightarrow>
     0 \<le> tk \<Longrightarrow> ring_step W i p y (y\<lparr>y_d := with_ring p (Some r) (y_d y), y_next := n,
       y_sent := y_sent y @ [r_slots r ! nat tk]\<rparr>)"
| submit_refused: "orkd_ring_submit od wid M K N dt A (Some (d_shm (y_d y) p), y_next y) = (tk, Some r, n) \<Longrightarrow>
     tk < 0 \<Longrightarrow> ring_step W i p y (y\<lparr>y_d := with_ring p (Some r) (y_d y), y_next := n\<rparr>)"
| collect: "orkd_ring_collect stop tk True (Some (d_shm (y_d y) p)) = Some (rc, C, Some r) \<Longrightarrow>
     ring_step W i p y (y\<lparr>y_d := with_ring p (Some r) (y_d y)\<rparr>)"
| serve: "ring_step W i p y (y\<lparr>y_d := snd (State_Monad.run_state (ring_drain W i b) (y_d y))\<rparr>)"

definition ring_start :: "nat \<Rightarrow> nat \<Rightarrow> ring_sys \<Rightarrow> bool" where
  "ring_start i p y \<longleftrightarrow> i < length (d_cl (y_d y)) \<and> c_ring (d_cl (y_d y) ! i) = Some p
     \<and> c_ring_tail (d_cl (y_d y) ! i) = 0 \<and> y_next y = 0 \<and> y_sent y = [] \<and> d_shm (y_d y) p = new_ring"

inductive ring_reach :: "world \<Rightarrow> nat \<Rightarrow> nat \<Rightarrow> ring_sys \<Rightarrow> bool" for W i p where
  ring_init: "ring_start i p y \<Longrightarrow> ring_reach W i p y"
| ring_more: "ring_reach W i p y \<Longrightarrow> ring_step W i p y y' \<Longrightarrow> ring_reach W i p y'"

text \<open>The invariant: with \<open>t\<close> requests served of \<open>n\<close> submitted, the \<open>n - t\<close> waiting ones sit in their
  slots as they were written; a slot after those is free, or holds the answer to the request that was
  last in it.\<close>

definition answers :: "ring_slot \<Rightarrow> ring_slot \<Rightarrow> bool" where
  "answers sl req \<longleftrightarrow> (\<exists>rc cb out. sl = answer_slot rc cb out req)"

definition slots_inv :: "nat \<Rightarrow> ring_slot list \<Rightarrow> ring_slot list \<Rightarrow> bool" where
  "slots_inv t sent sl \<longleftrightarrow> length sl = 8 \<and> t \<le> length sent \<and> length sent \<le> t + 8
     \<and> (\<forall>q \<in> set sent. rs_state q = REQ)
     \<and> (\<forall>k. t \<le> k \<longrightarrow> k < length sent \<longrightarrow> sl ! (k mod 8) = sent ! k)
     \<and> (\<forall>k. length sent \<le> k \<longrightarrow> k < t + 8 \<longrightarrow>
          rs_state (sl ! (k mod 8)) = EMPTY \<or> 8 \<le> k \<and> answers (sl ! (k mod 8)) (sent ! (k - 8)))"

definition ring_inv :: "nat \<Rightarrow> nat \<Rightarrow> ring_sys \<Rightarrow> bool" where
  "ring_inv i p y \<longleftrightarrow> i < length (d_cl (y_d y)) \<and> c_ring (d_cl (y_d y) ! i) = Some p
     \<and> r_nslots (d_shm (y_d y) p) = 8 \<and> r_slot_data (d_shm (y_d y) p) = ORKD_RING_SLOT_DATA
     \<and> y_next y = u32 (length (y_sent y))
     \<and> (\<exists>t. c_ring_tail (d_cl (y_d y) ! i) = u32 t \<and> slots_inv t (y_sent y) (r_slots (d_shm (y_d y) p)))"

lemma mod8_neq: "a < b \<Longrightarrow> b < a + 8 \<Longrightarrow> a mod 8 \<noteq> (b mod 8 :: nat)"
proof
  assume "a < b" "b < a + 8" "a mod 8 = b mod 8"
  then have "8 dvd b - a" using mod_eq_dvd_iff_nat [of a b 8] by simp
  then show False using \<open>a < b\<close> \<open>b < a + 8\<close> by (auto dest: dvd_imp_le)
qed

lemma u32_mod8 [simp]: "u32 n mod 8 = n mod 8"
  unfolding u32_def by (rule mod_mod_cancel) simp

lemma u32_Suc: "u32 (Suc (u32 n)) = u32 (Suc n)"
  by (simp add: u32_def mod_Suc_eq)

lemma answer_state [simp]: "rs_state (answer_slot rc cb out sl) = RESP"
  by (simp add: answer_slot_def)

lemma slots_waiting: "slots_inv t sent sl \<Longrightarrow> t \<le> k \<Longrightarrow> k < length sent \<Longrightarrow> sl ! (k mod 8) = sent ! k \<and> rs_state (sent ! k) = REQ"
  unfolding slots_inv_def by auto

lemma slots_free: "slots_inv t sent sl \<Longrightarrow> length sent \<le> k \<Longrightarrow> k < t + 8 \<Longrightarrow>
    rs_state (sl ! (k mod 8)) = EMPTY \<or> 8 \<le> k \<and> answers (sl ! (k mod 8)) (sent ! (k - 8))"
  unfolding slots_inv_def by blast

lemma slots_invI:
  "length sl = 8 \<Longrightarrow> t \<le> length sent \<Longrightarrow> length sent \<le> t + 8 \<Longrightarrow> \<forall>q \<in> set sent. rs_state q = REQ \<Longrightarrow>
   (\<And>k. t \<le> k \<Longrightarrow> k < length sent \<Longrightarrow> sl ! (k mod 8) = sent ! k) \<Longrightarrow>
   (\<And>k. length sent \<le> k \<Longrightarrow> k < t + 8 \<Longrightarrow>
      rs_state (sl ! (k mod 8)) = EMPTY \<or> 8 \<le> k \<and> answers (sl ! (k mod 8)) (sent ! (k - 8))) \<Longrightarrow>
   slots_inv t sent sl"
  unfolding slots_inv_def by blast

lemma slots_sizes: "slots_inv t sent sl \<Longrightarrow> length sl = 8 \<and> t \<le> length sent \<and> length sent \<le> t + 8
    \<and> (\<forall>q \<in> set sent. rs_state q = REQ)"
  unfolding slots_inv_def by blast

lemma slots_submit:
  assumes inv: "slots_inv t sent sl" and e: "rs_state (sl ! (length sent mod 8)) = EMPTY" and q: "rs_state q = REQ"
  shows "slots_inv t (sent @ [q]) (sl[length sent mod 8 := q])"
proof -
  let ?n = "length sent"
  note sz = slots_sizes [OF inv]
  have "?n \<noteq> t + 8"
  proof
    assume n: "?n = t + 8"
    with slots_waiting [OF inv, of t] e show False by simp
  qed
  with sz have room: "?n < t + 8" by simp
  have other: "sl[?n mod 8 := q] ! (k mod 8) = sl ! (k mod 8)" if "t \<le> k" "k < t + 8" "k \<noteq> ?n" for k
  proof -
    have "k mod 8 \<noteq> ?n mod 8"
    proof (cases "k < ?n")
      case True
      then show ?thesis by (rule mod8_neq) (use that room in linarith)
    next
      case False
      then have "?n < k" using that by simp
      then have "?n mod 8 \<noteq> k mod 8" by (rule mod8_neq) (use that sz in linarith)
      then show ?thesis by simp
    qed
    then show ?thesis by simp
  qed
  show ?thesis
  proof (rule slots_invI)
    show "length (sent @ [q]) \<le> t + 8" using room by simp
  next
    fix k assume k: "t \<le> k" "k < length (sent @ [q])"
    show "sl[?n mod 8 := q] ! (k mod 8) = (sent @ [q]) ! k"
    proof (cases "k = ?n")
      case False
      with k have "k < ?n" by simp
      then show ?thesis using slots_waiting [OF inv k(1)] other [of k] k sz room by (simp add: nth_append)
    qed (use sz in simp)
  next
    fix k assume k: "length (sent @ [q]) \<le> k" "k < t + 8"
    then have "rs_state (sl ! (k mod 8)) = EMPTY \<or> 8 \<le> k \<and> answers (sl ! (k mod 8)) (sent ! (k - 8))"
      by (intro slots_free [OF inv]) simp_all
    moreover have "8 \<le> k \<Longrightarrow> k - 8 < ?n" using k sz by linarith
    ultimately show "rs_state (sl[?n mod 8 := q] ! (k mod 8)) = EMPTY
        \<or> 8 \<le> k \<and> answers (sl[?n mod 8 := q] ! (k mod 8)) ((sent @ [q]) ! (k - 8))"
      using other [of k] k sz by (auto simp: nth_append)
  qed (use sz q in auto)
qed

lemma slots_collect:
  assumes inv: "slots_inv t sent sl" and "k < 8" "rs_state (sl ! k) = RESP"
  shows "slots_inv t sent (sl[k := (sl ! k)\<lparr>rs_state := EMPTY\<rparr>])"
proof (rule slots_invI)
  note sz = slots_sizes [OF inv]
  fix j assume j: "t \<le> j" "j < length sent"
  then have "j mod 8 \<noteq> k" using slots_waiting [OF inv j] assms(3) by auto
  then show "sl[k := (sl ! k)\<lparr>rs_state := EMPTY\<rparr>] ! (j mod 8) = sent ! j" using slots_waiting [OF inv j] by simp
next
  fix j assume j: "length sent \<le> j" "j < t + 8"
  show "rs_state (sl[k := (sl ! k)\<lparr>rs_state := EMPTY\<rparr>] ! (j mod 8)) = EMPTY
      \<or> 8 \<le> j \<and> answers (sl[k := (sl ! k)\<lparr>rs_state := EMPTY\<rparr>] ! (j mod 8)) (sent ! (j - 8))"
    using slots_free [OF inv j] slots_sizes [OF inv] by (cases "j mod 8 = k") auto
qed (use slots_sizes [OF inv] in auto)

lemma slots_serve:
  assumes inv: "slots_inv t sent sl" and t: "t < length sent"
  shows "slots_inv (Suc t) sent (sl[t mod 8 := answer_slot rc cb out (sl ! (t mod 8))])"
proof -
  let ?a = "answer_slot rc cb out (sl ! (t mod 8))"
  note sz = slots_sizes [OF inv]
  have own: "?a = answer_slot rc cb out (sent ! t)" using slots_waiting [OF inv _ t] by simp
  have other: "sl[t mod 8 := ?a] ! (k mod 8) = sl ! (k mod 8)" if "t < k" "k < t + 8" for k
    using mod8_neq [OF that] by simp
  show ?thesis
  proof (rule slots_invI)
    fix k assume k: "Suc t \<le> k" "k < length sent"
    then show "sl[t mod 8 := ?a] ! (k mod 8) = sent ! k"
      using other [of k] slots_waiting [OF inv, of k] sz by simp
  next
    fix k assume k: "length sent \<le> k" "k < Suc t + 8"
    show "rs_state (sl[t mod 8 := ?a] ! (k mod 8)) = EMPTY
        \<or> 8 \<le> k \<and> answers (sl[t mod 8 := ?a] ! (k mod 8)) (sent ! (k - 8))"
    proof (cases "k = t + 8")
      case True
      then have "sl[t mod 8 := ?a] ! (k mod 8) = ?a" using sz by simp
      then show ?thesis using True own by (auto simp: answers_def)
    next
      case False
      then show ?thesis using other [of k] slots_free [OF inv k(1)] k t by simp
    qed
  qed (use sz t in auto)
qed

subsection \<open>The invariant over all interleavings\<close>

lemma ring_run_answers:
  "\<exists>rc cb out lg. State_Monad.run_state (ring_run W c n sl) d = (answer_slot rc cb out sl, d\<lparr>d_log := lg\<rparr>)"
proof -
  have same: "\<exists>lg. d = d\<lparr>d_log := lg\<rparr>" by (rule exI [of _ "d_log d"]) simp
  have more: "\<exists>lg. d_log_update ((#) e) d = d\<lparr>d_log := lg\<rparr>" for e
    by (rule exI [of _ "e # d_log d"]) (intro daemon.equality, simp_all)
  have "\<exists>rc cb out. fst (State_Monad.run_state (ring_run W c n sl) d) = answer_slot rc cb out sl"
    "\<exists>lg. snd (State_Monad.run_state (ring_run W c n sl) d) = d\<lparr>d_log := lg\<rparr>"
    using same more by (auto simp: ring_run_def ask_out_def note_call_def Let_def case_prod_unfold split: option.split)
  then show ?thesis by (metis prod.collapse)
qed

lemma ring_inv_shm:
  "ring_inv i p y \<longleftrightarrow> ring_inv i p (y\<lparr>y_d := (y_d y)\<lparr>d_log := lg, d_submits := a, d_wraps := b\<rparr>\<rparr>)"
  by (simp add: ring_inv_def)

lemma ring_drain_inv: "ring_inv i p y \<Longrightarrow> ring_inv i p (y\<lparr>y_d := snd (State_Monad.run_state (ring_drain W i b) (y_d y))\<rparr>)"
proof (induction b arbitrary: y)
  case (Suc b)
  let ?d = "y_d y" let ?c = "d_cl (y_d y) ! i" let ?r = "d_shm (y_d y) p"
  from Suc.prems obtain t where inv: "i < length (d_cl ?d)" "c_ring ?c = Some p" "r_nslots ?r = 8"
    "r_slot_data ?r = ORKD_RING_SLOT_DATA" "y_next y = u32 (length (y_sent y))" "c_ring_tail ?c = u32 t"
    and sl: "slots_inv t (y_sent y) (r_slots ?r)" by (auto simp: ring_inv_def)
  show ?case
  proof (cases "rs_state (r_slots ?r ! (t mod 8)) = REQ")
    case False
    then show ?thesis using inv Suc.prems by (simp add: Let_def)
  next
    case True
    have t: "t < length (y_sent y)"
    proof (rule ccontr)
      assume "\<not> t < length (y_sent y)"
      then have "rs_state (r_slots ?r ! (t mod 8)) = EMPTY \<or> 8 \<le> t \<and> answers (r_slots ?r ! (t mod 8)) (y_sent y ! (t - 8))"
        by (intro slots_free [OF sl]) auto
      with True show False by (auto simp: answers_def)
    qed
    obtain rc cb out lg where r: "State_Monad.run_state (ring_run W ?c (r_slot_data ?r) (r_slots ?r ! (t mod 8))) ?d
        = (answer_slot rc cb out (r_slots ?r ! (t mod 8)), ?d\<lparr>d_log := lg\<rparr>)" using ring_run_answers by blast
    let ?a = "answer_slot rc cb out (r_slots ?r ! (t mod 8))"
    define d' where "d' = snd (State_Monad.run_state (do {
         modify (d_shm_update (\<lambda>m. m(p := (m p)\<lparr>r_slots := (r_slots (m p))[t mod 8 := ?a]\<rparr>)));
         cl_upd i (\<lambda>c. c\<lparr>c_ring_tail := u32 (u32 t + 1)\<rparr>);
         modify (\<lambda>s. s\<lparr>d_submits := d_submits s + 1,
            d_wraps := (if u32 (u32 t + 1) mod 8 = 0 then d_wraps s + 1 else d_wraps s)\<rparr>) }) (?d\<lparr>d_log := lg\<rparr>))"
    have "ring_inv i p (y\<lparr>y_d := d'\<rparr>)"
      using inv slots_serve [OF sl t, of rc cb out] unfolding d'_def
      by (auto simp: ring_inv_def nth_upd u32_Suc simp del: u32_mod8 intro!: exI [of _ "Suc t"])
    from Suc.IH [OF this, of ] have "ring_inv i p (y\<lparr>y_d := snd (State_Monad.run_state (ring_drain W i b) d')\<rparr>)" by simp
    moreover have "snd (State_Monad.run_state (ring_drain W i (Suc b)) ?d) = snd (State_Monad.run_state (ring_drain W i b) d')"
      using inv True slots_sizes [OF sl] r unfolding d'_def by (simp add: Let_def case_prod_unfold)
    ultimately show ?thesis by simp
  qed
qed simp

lemma submit_cases:
  assumes "orkd_ring_submit od wid M K N dt A (Some r, n) = (tk, Some r', n')"
  shows "(tk < 0 \<and> r' = r \<and> n' = n)
    \<or> (A \<noteq> None \<and> tk = int (n mod r_nslots r) \<and> n' = u32 (n + 1) \<and> rs_state (r_slots r ! (n mod r_nslots r)) = EMPTY
       \<and> r' = r\<lparr>r_slots := (r_slots r)[n mod r_nslots r := request_slot od wid M K N dt (the A) (r_slots r ! (n mod r_nslots r))]\<rparr>)"
  using assms by (auto simp: orkd_ring_submit_def Let_def split: if_splits)

lemma request_state [simp]: "rs_state (request_slot od wid M K N dt A sl) = REQ"
  by (simp add: request_slot_def Let_def)

lemma collect_cases:
  assumes "orkd_ring_collect stop tk True (Some r) = Some (rc, C, Some r')"
  shows "r' = r \<or> (0 \<le> tk \<and> nat tk < r_nslots r \<and> rs_state (r_slots r ! nat tk) = RESP
       \<and> r' = r\<lparr>r_slots := (r_slots r)[nat tk := (r_slots r ! nat tk)\<lparr>rs_state := EMPTY\<rparr>]\<rparr>)"
  using assms by (auto simp: orkd_ring_collect_def Let_def split: if_splits)

lemma with_ring_simps [simp]:
  "d_shm (with_ring p (Some r) d) = (d_shm d)(p := r)" "d_cl (with_ring p (Some r) d) = d_cl d"
  by (simp_all add: with_ring_def)

lemma ring_step_inv: "ring_step W i p y y' \<Longrightarrow> ring_inv i p y \<Longrightarrow> ring_inv i p y'"
proof (induction rule: ring_step.induct)
  case (submit_ok od wid M K N dt A y tk r n)
  let ?r = "d_shm (y_d y) p" let ?k = "length (y_sent y) mod 8"
  from submit_ok(3) obtain t where inv: "i < length (d_cl (y_d y))" "c_ring (d_cl (y_d y) ! i) = Some p" "r_nslots ?r = 8"
    "r_slot_data ?r = ORKD_RING_SLOT_DATA" "y_next y = u32 (length (y_sent y))" "c_ring_tail (d_cl (y_d y) ! i) = u32 t"
    and sl: "slots_inv t (y_sent y) (r_slots ?r)" by (auto simp: ring_inv_def)
  have c: "tk = int ?k" "n = u32 (Suc (length (y_sent y)))" "rs_state (r_slots ?r ! ?k) = EMPTY"
    "r = ?r\<lparr>r_slots := (r_slots ?r)[?k := request_slot od wid M K N dt A (r_slots ?r ! ?k)]\<rparr>"
    using submit_cases [OF submit_ok(1)] submit_ok(2) inv by (auto simp: u32_Suc)
  have "?k < length (r_slots ?r)" using slots_sizes [OF sl] by simp
  with slots_submit [OF sl c(3) request_state] inv c show ?case
    by (auto simp: ring_inv_def)
next
  case (submit_refused od wid M K N dt A y tk r n)
  then show ?case using submit_cases [OF submit_refused(1)] by (auto simp: ring_inv_def)
next
  case (collect stop tk y rc C r)
  then obtain t where sl: "slots_inv t (y_sent y) (r_slots (d_shm (y_d y) p))"
    "c_ring_tail (d_cl (y_d y) ! i) = u32 t" by (auto simp: ring_inv_def)
  from collect_cases [OF collect(1)] show ?case
    using collect(2) sl slots_collect [OF sl(1), of "nat tk"] by (auto simp: ring_inv_def)
next
  case (serve y b)
  then show ?case by (rule ring_drain_inv)
qed

lemma ring_start_inv: "ring_start i p y \<Longrightarrow> ring_inv i p y"
  by (auto simp: ring_start_def ring_inv_def new_ring_def blank_slot_def slots_inv_def ORKD_RING_SLOTS_def u32_def
      intro!: exI [of _ 0])

lemma ring_reach_inv: "ring_reach W i p y \<Longrightarrow> ring_inv i p y"
  by (induction rule: ring_reach.induct) (auto intro: ring_start_inv ring_step_inv)

text \<open>C22: however submits, polls and passes of the daemon interleave, and however the counters wrap, the
  ring loses, overwrites and reorders nothing: the requests not yet served stand unchanged in their
  slots in the order of their submission, the daemon's cursor on the oldest, never more than eight; and
  a slot that shows an answer shows the answer to the last request submitted with that ticket.\<close>

theorem ring_fifo:
  assumes "ring_reach W i p y"
  defines "sl \<equiv> r_slots (d_shm (y_d y) p)" and "sent \<equiv> y_sent y"
  shows "\<exists>t. c_ring_tail (d_cl (y_d y) ! i) = u32 t \<and> t \<le> length sent \<and> length sent \<le> t + 8
    \<and> (\<forall>k. t \<le> k \<longrightarrow> k < length sent \<longrightarrow> sl ! (k mod 8) = sent ! k)
    \<and> (\<forall>j < 8. rs_state (sl ! j) = RESP \<longrightarrow>
         (\<exists>k < t. k mod 8 = j \<and> length sent \<le> k + 8 \<and> answers (sl ! j) (sent ! k)))"
proof -
  obtain t where t: "c_ring_tail (d_cl (y_d y) ! i) = u32 t" and inv: "slots_inv t sent sl"
    using ring_reach_inv [OF assms(1)] by (auto simp: ring_inv_def sl_def sent_def)
  note sz = slots_sizes [OF inv]
  have "\<exists>k < t. k mod 8 = j \<and> length sent \<le> k + 8 \<and> answers (sl ! j) (sent ! k)"
    if j: "j < 8" "rs_state (sl ! j) = RESP" for j
  proof -
    define k where "k = t + (j + 8 - t mod 8) mod 8"
    have k: "t \<le> k" "k < t + 8" "k mod 8 = j"
    proof -
      have "k mod 8 = (t + (j + 8 - t mod 8)) mod 8" unfolding k_def by (rule mod_add_right_eq)
      also have "\<dots> = (t mod 8 + (j + 8 - t mod 8)) mod 8" by (rule mod_add_left_eq [symmetric])
      also have "t mod 8 + (j + 8 - t mod 8) = j + 8" by (rule le_add_diff_inverse) (use j mod_less_divisor [of 8 t] in linarith)
      finally show "k mod 8 = j" using j by simp
    qed (simp_all add: k_def)
    have "\<not> k < length sent" using slots_waiting [OF inv k(1)] k(3) j(2) by auto
    then have "8 \<le> k \<and> answers (sl ! j) (sent ! (k - 8))" using slots_free [OF inv _ k(2)] k(3) j(2) by auto
    moreover have "(k - 8) mod 8 = j" if "8 \<le> k" using k(3) that by (simp add: le_mod_geq)
    ultimately show ?thesis using k \<open>\<not> k < length sent\<close> by (intro exI [of _ "k - 8"]) auto
  qed
  with t sz slots_waiting [OF inv] show ?thesis by blast
qed

definition ring_demo :: ring_sys where
  "ring_demo = \<lparr>y_d = (daemon_init [slot0\<lparr>c_fd := 5, c_ring := Some 1\<rparr>] False 3)\<lparr>d_nc := 1, d_shm := (\<lambda>_. new_ring)\<rparr>,
     y_next = 0, y_sent = []\<rparr>"

theorem ring_fifo_witness:
  "ring_reach world0 0 1 ring_demo \<and> c_ring_tail (d_cl (y_d ring_demo) ! 0) = 0"
proof -
  have "ring_start 0 1 ring_demo" by (simp add: ring_start_def ring_demo_def daemon_init_def slot0_def)
  then have r: "ring_reach world0 0 1 ring_demo" by (rule ring_init)
  obtain t where "c_ring_tail (d_cl (y_d ring_demo) ! 0) = u32 t" "t \<le> length (y_sent ring_demo)"
    using ring_fifo [OF r] by blast
  with r show ?thesis by (simp add: ring_demo_def u32_def)
qed

end
