(* ===== verification/Pack_Header.thy ===== *)
theory Pack_Header
  imports Run_Loop Slice_F16 Soc Orkd_Wire
begin

section \<open>The pack header and the fp16 planner: \<open>src/npu/core/packhdr.c\<close>, \<open>src/npu/f16/plan.c\<close>\<close>

text \<open>
  A persisted weight starts with one page that names the caps it was planned against; every loader
  refuses a page that does not fit. A context is an option (\<open>None\<close>: NULL), its \<open>soc\<close> pointer another;
  \<open>det\<close> is what \<open>ork_soc_detect\<close> answers (theory \<open>Soc\<close>). The identity is an FNV-1a hash on 32-bit
  words. The second part is the planner of \<open>f16/plan.c\<close>: the tiler of \<open>Slice_F16\<close> over the run loop's
  own envelope.
\<close>

unbundle bit_operations_syntax

type_synonym npu_ctx = "ork_soc option"

definition ORK_PACK_MAGIC :: nat where "ORK_PACK_MAGIC = 0x4b50414f"
definition ORK_PACK_HDR_BYTES :: nat where "ORK_PACK_HDR_BYTES = 4096"
definition ORK_PACK_CAPS_RULE :: int where "ORK_PACK_CAPS_RULE = 1"
definition ORK_F16_MMAX_RULE :: int where "ORK_F16_MMAX_RULE = 2"
definition ORK_PACK_FORMAT_VERSION :: nat where "ORK_PACK_FORMAT_VERSION = 1"

datatype pack_err = PACK_OK' | PACKERR_SHORT | PACKERR_UNSTAMPED | PACKERR_FORMAT | PACKERR_CAPS | PACKERR_SHAPE

fun packerr_code :: "pack_err \<Rightarrow> int" where
  "packerr_code PACK_OK' = 0" | "packerr_code PACKERR_SHORT = - 1" | "packerr_code PACKERR_UNSTAMPED = - 2"
| "packerr_code PACKERR_FORMAT = - 3" | "packerr_code PACKERR_CAPS = - 4" | "packerr_code PACKERR_SHAPE = - 5"

subsection \<open>The identity of the caps\<close>

definition fnv32 :: "32 word \<Rightarrow> 32 word \<Rightarrow> 32 word" where
  "fnv32 b h = (h XOR b) * 16777619"

text \<open>The \<open>MIX\<close> macro: the four bytes of an \<open>unsigned\<close>, low byte first.\<close>

definition mix_bytes :: "int \<Rightarrow> 32 word list" where
  "mix_bytes v = map (\<lambda>b. drop_bit (b * 8) (word_of_int v) AND 0xff) [0..<4]"

definition str_bytes :: "string \<Rightarrow> 32 word list" where
  "str_bytes s = map of_char s"

definition hash_bytes :: "32 word list \<Rightarrow> nat" where
  "hash_bytes bs = (let h = fold fnv32 bs 2166136261 in unat (if h \<noteq> 0 then h else 1))"

definition ork_slice_f16_capid :: "ork_slice_f16_caps \<Rightarrow> string option \<Rightarrow> nat" where
  "ork_slice_f16_capid c i =
     hash_bytes (mix_bytes (fc_kmax c) @ mix_bytes (fc_kmul c) @ mix_bytes (fc_nmax c) @ mix_bytes (fc_nmul c)
       @ mix_bytes ORK_F16_MMAX_RULE @ (case i of None \<Rightarrow> [] | Some s \<Rightarrow> str_bytes s))"

definition pack_soc :: "ork_soc option \<Rightarrow> npu_ctx option \<Rightarrow> ork_soc option" where
  "pack_soc det ctx = (case ctx of Some (Some soc) \<Rightarrow> Some soc | _ \<Rightarrow> det)"

definition capid_bytes :: "ork_soc option \<Rightarrow> 32 word list" where
  "capid_bytes so =
     mix_bytes ORK_PACK_CAPS_RULE @ mix_bytes ORK_F16_MMAX_RULE @ mix_bytes (int ORK_PACK_FORMAT_VERSION)
     @ (case so of None \<Rightarrow> []
        | Some soc \<Rightarrow> mix_bytes (soc_ks soc) @ mix_bytes (soc_nmax soc) @ mix_bytes (soc_cbuf_elems soc)
            @ mix_bytes (soc_cores soc) @ str_bytes (soc_id soc))"

definition orki_pack_capid :: "ork_soc option \<Rightarrow> npu_ctx option \<Rightarrow> nat" where
  "orki_pack_capid det ctx = hash_bytes (capid_bytes (pack_soc det ctx))"

subsection \<open>Stamping and checking\<close>

text \<open>The fields of \<open>ork_pack_hdr\<close> before the SoC name: magic, fmt, capid, dtype, K, N, hdr_bytes, flags.\<close>

definition pack_hdr_w :: "nat list" where
  "pack_hdr_w = [4, 4, 4, 4, 4, 4, 4, 4]"

definition ork_pack_hdr_bytes :: nat where
  "ork_pack_hdr_bytes = ORK_PACK_HDR_BYTES"

definition ork_pack_format_version :: nat where
  "ork_pack_format_version = ORK_PACK_FORMAT_VERSION"

text \<open>\<open>strncpy\<close> of at most 15 characters into the 16-byte field, NUL-filled.\<close>

definition soc_field :: "ork_soc option \<Rightarrow> byte list" where
  "soc_field so =
     (let s = (case so of None \<Rightarrow> [] | Some soc \<Rightarrow> map of_char (take 15 (soc_id soc)))
      in s @ replicate (16 - length s) 0)"

definition hdr_page :: "ork_soc option \<Rightarrow> npu_ctx option \<Rightarrow> int \<Rightarrow> int \<Rightarrow> int \<Rightarrow> byte list" where
  "hdr_page det ctx dtype K N =
     (let h = unparse pack_hdr_w [ORK_PACK_MAGIC, ork_pack_format_version, orki_pack_capid det ctx, as_u32 dtype,
                as_u32 K, as_u32 N, ORK_PACK_HDR_BYTES, 0] @ soc_field (pack_soc det ctx)
      in h @ replicate (ORK_PACK_HDR_BYTES - length h) 0)"

text \<open>The page is written over the first bytes of the buffer.\<close>

definition orki_pack_stamp :: "ork_soc option \<Rightarrow> npu_ctx option \<Rightarrow> byte list option \<Rightarrow> int \<Rightarrow> int \<Rightarrow> int \<Rightarrow> byte list option" where
  "orki_pack_stamp det ctx out dtype K N =
     map_option (\<lambda>bs. hdr_page det ctx dtype K N @ drop ORK_PACK_HDR_BYTES bs) out"

definition orki_pack_check :: "ork_soc option \<Rightarrow> npu_ctx option \<Rightarrow> byte list option \<Rightarrow> nat \<Rightarrow> int \<Rightarrow> int \<Rightarrow> int \<Rightarrow> pack_err" where
  "orki_pack_check det ctx blob n dtype K N =
     (case blob of None \<Rightarrow> PACKERR_SHORT
      | Some bs \<Rightarrow>
        if n < ORK_PACK_HDR_BYTES then PACKERR_SHORT
        else let h = parse pack_hdr_w bs in
          if h ! 0 \<noteq> ORK_PACK_MAGIC then PACKERR_UNSTAMPED
          else if h ! 1 \<noteq> ork_pack_format_version then PACKERR_FORMAT
          else if h ! 2 \<noteq> orki_pack_capid det ctx then PACKERR_CAPS
          else if h ! 6 \<noteq> ORK_PACK_HDR_BYTES then PACKERR_FORMAT
          else if as_int (h ! 3) \<noteq> dtype \<or> as_int (h ! 4) \<noteq> K \<or> as_int (h ! 5) \<noteq> N then PACKERR_SHAPE
          else PACK_OK')"

subsection \<open>Lemmas\<close>

lemma hash_bytes_bounds: "0 < hash_bytes bs" "hash_bytes bs < 4294967296"
proof -
  show "0 < hash_bytes bs" by (simp add: hash_bytes_def Let_def unat_gt_0)
  show "hash_bytes bs < 4294967296" proof -
    have "unat w < 4294967296" for w :: "32 word" using unsigned_less [of w] by simp
    then show ?thesis by (simp only: hash_bytes_def Let_def)
  qed
qed

lemma as_u32_bound: "as_u32 r < 4294967296"
  by (simp add: as_u32_def nat_less_iff)

lemma soc_field_length: "length (soc_field so) = 16"
  by (cases so) (simp_all add: soc_field_def Let_def)

lemma hdr_page_length: "length (hdr_page det ctx dt K N) = 4096"
  by (simp add: hdr_page_def Let_def unparse_length pack_hdr_w_def soc_field_length ORK_PACK_HDR_BYTES_def)

lemma parse_hdr_page:
  "parse pack_hdr_w (hdr_page det ctx dt K N @ rest) =
     [ORK_PACK_MAGIC, ork_pack_format_version, orki_pack_capid det ctx, as_u32 dt, as_u32 K, as_u32 N, ORK_PACK_HDR_BYTES, 0]"
proof -
  have "orki_pack_capid det ctx < 4294967296" by (simp add: orki_pack_capid_def hash_bytes_bounds)
  then show ?thesis
    unfolding hdr_page_def Let_def append_assoc
    by (intro parse_unparse)
      (simp_all add: pack_hdr_w_def ORK_PACK_MAGIC_def ork_pack_format_version_def ORK_PACK_FORMAT_VERSION_def
        ORK_PACK_HDR_BYTES_def as_u32_bound)
qed

text \<open>Each round of the hash is injective in the hash and in the byte: the multiplier is odd.\<close>

lemma fnv32_mult_inj: "a * 16777619 = b * (16777619 :: 32 word) \<Longrightarrow> a = b"
proof -
  assume "a * 16777619 = b * (16777619 :: 32 word)"
  then have "a * 16777619 * 899433627 = b * 16777619 * (899433627 :: 32 word)" by simp
  moreover have "(16777619 * 899433627 :: 32 word) = 1" by transfer (simp add: take_bit_eq_mod)
  ultimately show ?thesis by (simp only: mult.assoc mult_1_right)
qed

lemma xor_cancel: "(h XOR b) XOR b = (h :: 32 word)" "h XOR (h XOR b) = (b :: 32 word)"
  by (simp add: xor.assoc) (simp add: xor.assoc [symmetric])

lemma fnv32_inj_hash: "fnv32 b h = fnv32 b h' \<Longrightarrow> h = h'"
  unfolding fnv32_def by (drule fnv32_mult_inj) (metis xor_cancel(1))

lemma fnv32_inj_byte: "fnv32 b h = fnv32 b' h \<Longrightarrow> b = b'"
  unfolding fnv32_def by (drule fnv32_mult_inj) (metis xor_cancel(2))

lemma fold_fnv_inj: "fold fnv32 bs h = fold fnv32 bs h' \<Longrightarrow> h = h'"
  by (induction bs arbitrary: h h') (auto dest: fnv32_inj_hash)


text \<open>C23: what a dump stamped, a load with the same caps accepts for the same dtype, K and N, whatever
  tiles follow; other caps are refused as such before the shape is looked at, and another shape as a
  shape. A blob shorter than the page or without the magic is refused before anything of it is believed.\<close>

theorem pack_header_roundtrip:
  assumes "-2147483648 \<le> dt" "dt < 2147483648" "-2147483648 \<le> K" "K < 2147483648" "-2147483648 \<le> N" "N < 2147483648"
    and "length out \<ge> 4096" "orki_pack_stamp det ctx (Some out) dt K N = Some blob"
  shows "length blob = length out \<and> drop 4096 blob = drop 4096 out
    \<and> orki_pack_check det' ctx' (Some blob) (length blob) dt' K' N' =
       (if orki_pack_capid det' ctx' \<noteq> orki_pack_capid det ctx then PACKERR_CAPS
        else if dt' \<noteq> dt \<or> K' \<noteq> K \<or> N' \<noteq> N then PACKERR_SHAPE else PACK_OK')
    \<and> (n < 4096 \<longrightarrow> orki_pack_check det' ctx' (Some blob) n dt' K' N' = PACKERR_SHORT)"
proof -
  have blob: "blob = hdr_page det ctx dt K N @ drop 4096 out"
    using assms(8) by (simp add: orki_pack_stamp_def ORK_PACK_HDR_BYTES_def)
  have len: "length blob = length out" using assms(7) by (simp add: blob hdr_page_length)
  moreover have "drop 4096 blob = drop 4096 out" by (simp add: blob hdr_page_length)
  moreover have "orki_pack_check det' ctx' (Some blob) (length blob) dt' K' N' =
       (if orki_pack_capid det' ctx' \<noteq> orki_pack_capid det ctx then PACKERR_CAPS
        else if dt' \<noteq> dt \<or> K' \<noteq> K \<or> N' \<noteq> N then PACKERR_SHAPE else PACK_OK')"
    using assms(7) unfolding len
    by (simp add: orki_pack_check_def blob parse_hdr_page as_int_u32 [OF assms(1,2)] as_int_u32 [OF assms(3,4)]
        as_int_u32 [OF assms(5,6)] ORK_PACK_HDR_BYTES_def)
  ultimately show ?thesis by (simp add: orki_pack_check_def ORK_PACK_HDR_BYTES_def)
qed

theorem pack_header_roundtrip_witness:
  "\<exists>blob. orki_pack_stamp None (Some (Some ork_soc_rk3588)) (Some (replicate 8192 7)) 1 512 64 = Some blob
     \<and> orki_pack_check None (Some (Some ork_soc_rk3588)) (Some blob) (length blob) 1 512 64 = PACK_OK'
     \<and> orki_pack_check None (Some (Some ork_soc_rk3588)) (Some blob) (length blob) 1 512 32 = PACKERR_SHAPE"
proof -
  obtain blob where b: "orki_pack_stamp None (Some (Some ork_soc_rk3588)) (Some (replicate 8192 7)) 1 512 64 = Some blob"
    by (simp add: orki_pack_stamp_def)
  note r = pack_header_roundtrip [OF _ _ _ _ _ _ _ b, simplified]
  show ?thesis
    using b r [THEN conjunct2, THEN conjunct2, THEN conjunct1, of None "Some (Some ork_soc_rk3588)"] by (intro exI [of _ blob]) auto
qed

text \<open>The identity tells caps apart that differ in one of the bytes it hashes (a K-slice, a column cap,
  a core count one step away), whatever the others are; the reserved value 0 is never one.\<close>

theorem pack_capid_detects_one_byte:
  assumes "capid_bytes (pack_soc det ctx) = xs @ b # ys" "capid_bytes (pack_soc det' ctx') = xs @ b' # ys" "b \<noteq> b'"
    and "orki_pack_capid det ctx \<noteq> 1"
  shows "orki_pack_capid det ctx \<noteq> orki_pack_capid det' ctx' \<and> orki_pack_capid det ctx \<noteq> 0"
proof -
  let ?h = "\<lambda>b. fold fnv32 (xs @ b # ys) 2166136261"
  have ne: "?h b \<noteq> ?h b'" using assms(3) by (auto dest: fold_fnv_inj fnv32_inj_byte)
  have "?h b \<noteq> 0" using assms(4) by (auto simp: orki_pack_capid_def hash_bytes_def Let_def assms(1))
  then show ?thesis
    using ne assms(4) hash_bytes_bounds(1) [of "capid_bytes (pack_soc det ctx)"]
    by (auto simp: orki_pack_capid_def hash_bytes_def Let_def assms(1,2) word_unat_eq_iff split: if_splits)
qed

text \<open>The same step on integers, which evaluates quickly.\<close>

definition fnv_int :: "int \<Rightarrow> int \<Rightarrow> int" where
  "fnv_int b h = (h XOR b) * 16777619 mod 4294967296"

lemma fold_fnv_int: "uint (fold fnv32 bs h) = fold fnv_int (map uint bs) (uint h)"
proof (induction bs arbitrary: h)
  case (Cons b bs)
  have "uint (fnv32 b h) = fnv_int (uint b) (uint h)"
    by (simp add: fnv32_def fnv_int_def uint_word_ariths(3) unsigned_xor_eq)
  with Cons show ?case by simp
qed simp

lemma capid_rk3588: "orki_pack_capid None (Some (Some ork_soc_rk3588)) \<noteq> 1"
proof -
  let ?bs = "[1, 0, 0, 0, 2, 0, 0, 0, 1, 0, 0, 0, 0, 8, 0, 0, 0, 32, 0, 0, 0, 224, 0, 0, 3, 0, 0, 0, 114, 107, 51, 53, 56, 56]"
  have "capid_bytes (Some ork_soc_rk3588) = ?bs" by code_simp
  moreover have "fold fnv_int (map uint (?bs :: 32 word list)) 2166136261 \<notin> {0, 1}" by (simp add: fnv_int_def)
  then have "fold fnv32 ?bs 2166136261 \<noteq> 0" "fold fnv32 ?bs 2166136261 \<noteq> 1"
    using fold_fnv_int [of ?bs 2166136261] by (auto simp del: fold.simps list.map)
  moreover have "unat w \<noteq> 1" if "w \<noteq> 1" for w :: "32 word" using that by (simp add: word_unat_eq_iff)
  ultimately show ?thesis
    by (simp add: orki_pack_capid_def pack_soc_def hash_bytes_def Let_def del: fold.simps One_nat_def)
qed

theorem pack_capid_detects_one_byte_witness:
  "orki_pack_capid None (Some (Some ork_soc_rk3588)) \<noteq> orki_pack_capid None (Some (Some (ork_soc_rk3588\<lparr>soc_cores := 2\<rparr>)))"
proof -
  let ?pre = "mix_bytes 1 @ mix_bytes 2 @ mix_bytes 1 @ mix_bytes 2048 @ mix_bytes 8192 @ mix_bytes 57344"
  let ?post = "[0, 0, 0] @ str_bytes ''rk3588''"
  have m: "mix_bytes 3 = [3, 0, 0, 0]" "mix_bytes 2 = [2, 0, 0, 0]" by code_simp+
  have "capid_bytes (pack_soc None (Some (Some ork_soc_rk3588))) = ?pre @ 3 # ?post"
    "capid_bytes (pack_soc None (Some (Some (ork_soc_rk3588\<lparr>soc_cores := 2\<rparr>)))) = ?pre @ 2 # ?post"
    by (simp_all add: capid_bytes_def pack_soc_def ork_soc_rk3588_def m ORK_PACK_CAPS_RULE_def ORK_F16_MMAX_RULE_def
        ORK_PACK_FORMAT_VERSION_def)
  from pack_capid_detects_one_byte [OF this _ capid_rk3588] show ?thesis by simp
qed


subsection \<open>The planner\<close>

text \<open>\<open>menv\<close> and \<open>kenv\<close> are \<open>ORK_F16_MTILE\<close> and \<open>ORK_F16_KTILE\<close>, as in \<open>F16_Envelope\<close>.\<close>

definition ork_f16_mm_mmax :: "int option \<Rightarrow> npu_ctx option \<Rightarrow> int \<Rightarrow> int \<Rightarrow> int" where
  "ork_f16_mm_mmax menv ctx K N =
     (case ctx of Some (Some soc) \<Rightarrow>
        if K \<le> 0 \<or> N \<le> 0 \<or> c_mod K 32 \<noteq> 0 \<or> c_mod N 16 \<noteq> 0 then - 2
        else if N > soc_nmax soc then - 2
        else orki_f16_mcap_n menv K (orki_f16_sched K) N
      | _ \<Rightarrow> - 2)"

definition plan_mmax :: "int option \<Rightarrow> npu_ctx option \<Rightarrow> int \<Rightarrow> int \<Rightarrow> int" where
  "plan_mmax menv ctx Kslice Ntile = ork_f16_mm_mmax menv ctx Kslice Ntile"

definition orki_f16_plan_caps :: "int option \<Rightarrow> int option \<Rightarrow> npu_ctx option \<Rightarrow> ork_slice_f16_caps" where
  "orki_f16_plan_caps menv kenv ctx =
     (let c = ork_slice_f16_caps_rk3588;
          c = (case ctx of Some (Some soc) \<Rightarrow>
                 let c = (if 0 < orki_f16_ks kenv then c\<lparr>fc_kmax := orki_f16_ks kenv\<rparr> else c)
                 in if 0 < soc_nmax soc then c\<lparr>fc_nmax := soc_nmax soc\<rparr> else c
               | _ \<Rightarrow> c)
      in c\<lparr>fc_mmax := Some (plan_mmax menv ctx)\<rparr>)"

definition orki_f16_plan_capid :: "int option \<Rightarrow> int option \<Rightarrow> npu_ctx option \<Rightarrow> nat" where
  "orki_f16_plan_capid menv kenv ctx =
     ork_slice_f16_capid (orki_f16_plan_caps menv kenv ctx)
       (case ctx of Some (Some soc) \<Rightarrow> Some (soc_id soc) | _ \<Rightarrow> None)"

text \<open>The return code and what \<open>*programs\<close> holds afterwards.\<close>

definition ork_f16_mm_plan :: "int option \<Rightarrow> int option \<Rightarrow> npu_ctx option \<Rightarrow> int \<Rightarrow> int \<Rightarrow> int \<Rightarrow> (int \<times> int) option" where
  "ork_f16_mm_plan menv kenv ctx M K N =
     (case ctx of Some (Some soc) \<Rightarrow>
        if M \<le> 0 then Some (- 2, 0)
        else map_option (\<lambda>n. if n < 0 then (n, 0) else (0, n))
               (ork_slice_f16_count K N M (Some (orki_f16_plan_caps menv kenv ctx)))
      | _ \<Rightarrow> Some (- 2, 0))"

text \<open>The run loop's slice indices are the planner's intervals.\<close>

lemma loop_upto_nth:
  "0 < st \<Longrightarrow> i < length (loop_upto b st hi lo) \<Longrightarrow>
     loop_upto b st hi lo ! i = (lo + int i * st, if lo + int i * st + st < hi then lo + int i * st + st else hi)"
proof (induction b st hi lo arbitrary: i rule: loop_upto.induct)
  case (2 b st hi lo)
  then show ?case
  proof (cases "lo < hi")
    case True
    with 2 show ?thesis by (cases i) (auto simp: algebra_simps)
  qed simp
qed simp

lemma loop_upto_slices:
  assumes "0 < st" "0 < hi"
  shows "loop_upto (nat hi) st hi 0 = map (\<lambda>i. (int i * st, int i * st + slice_len hi st (int i * st))) [0..<slice_count hi st]"
proof (rule nth_equalityI)
  have "int (length (loop_upto (nat hi) st hi 0)) = ceil_div hi st"
    using loop_upto_length [of st hi 0 "nat hi"] assms by simp
  then show l: "length (loop_upto (nat hi) st hi 0) = length (map (\<lambda>i. (int i * st, int i * st + slice_len hi st (int i * st))) [0..<slice_count hi st])"
    by (simp add: slice_count_def)
  fix i assume "i < length (loop_upto (nat hi) st hi 0)"
  with l loop_upto_nth [OF assms(1), of i "nat hi" hi 0] show
    "loop_upto (nat hi) st hi 0 ! i = map (\<lambda>i. (int i * st, int i * st + slice_len hi st (int i * st))) [0..<slice_count hi st] ! i"
    by (auto simp: slice_len_def)
qed


lemma orki_f16_ks_props: "32 dvd orki_f16_ks kenv" "32 \<le> orki_f16_ks kenv"
proof -
  have "32 dvd v" if "32 \<le> v" "c_mod v 32 = 0" for v :: int using that by (simp add: c_mod_nonneg mod_0_imp_dvd)
  then show "32 dvd orki_f16_ks kenv" "32 \<le> orki_f16_ks kenv"
    by (auto simp: orki_f16_ks_def Let_def split: option.splits)
qed

lemma step_aligned: "0 < mul \<Longrightarrow> mul dvd cap \<Longrightarrow> mul \<le> cap \<Longrightarrow> ork_slice_step cap mul = cap"
  by (simp add: ork_slice_step_def Let_def c_div_nonneg dvd_div_mult_self)

lemma slice_len_aligned:
  assumes "(m :: int) dvd whole" "m dvd step" "0 < step" "0 < whole" "i < slice_count whole step"
  shows "m dvd slice_len whole step (int i * step)" "1 \<le> slice_len whole step (int i * step)"
    "slice_len whole step (int i * step) \<le> step"
  using slice_count_lt [OF assms(3-5)] assms(1-4) by (auto simp: slice_len_def dvd_diff)

lemma plan_mmax_slice:
  assumes "32 dvd Kp" "16 dvd Nc" "1 \<le> Kp" "1 \<le> Nc" "Nc \<le> soc_nmax soc"
  shows "plan_mmax menv (Some (Some soc)) Kp Nc = orki_f16_mcap_n menv Kp (orki_f16_sched Kp) Nc"
  using assms by (simp add: plan_mmax_def ork_f16_mm_mmax_def c_mod_nonneg)

lemma sum_list_concat: "sum_list (List.concat xss) = (\<Sum>xs\<leftarrow>xss. sum_list xs :: nat)"
  by (induction xss) auto

lemma length_loop_progs:
  "length (loop_progs ovr d Sn Sk) =
     (\<Sum>i\<leftarrow>[0..<Sn]. \<Sum>j\<leftarrow>[0..<Sk]. length (loop_upto (nat (ld_M d))
        (orki_run_loop_chunk ovr (ld_dt d) (slice_len (ld_K d) (ld_KS d) (int j * ld_KS d))
           (slice_len (ld_N d) (ld_NMAX d) (int i * ld_NMAX d)) (ld_RB d)) (ld_M d) 0))"
  by (simp add: loop_progs_def tile_progs_def Let_def length_concat comp_def)

text \<open>C25: the planner's answer is the runtime's behaviour. For an aligned shape on a chip whose column cap
  is a multiple of 16 it succeeds, and the count it reports is the number of NPU programs that the run
  loop of \<open>orki_run\<close> builds for that shape, with the K-slice and column cap the runtime uses; -1 only when
  that number does not fit an \<open>int\<close>.\<close>

theorem plan_counts_run_loop:
  assumes "0 < M" "0 < K" "0 < N" "32 dvd K" "16 dvd N" "16 dvd soc_nmax soc" "0 < soc_nmax soc" "orki_f16_ks kenv \<le> 16384"
    and d_def: "d = \<lparr>ld_dt = 0, ld_M = M, ld_K = K, ld_N = N, ld_KS = orki_f16_ks kenv, ld_NMAX = soc_nmax soc, ld_RB = rb\<rparr>"
  shows "ork_f16_mm_plan None kenv (Some (Some soc)) M K N =
    Some (let n = int (length (loop_progs None d (slice_count N (soc_nmax soc)) (slice_count K (orki_f16_ks kenv))))
          in if n > 0x7fffffff then (- 1, 0) else (0, n))"
proof -
  define ks where "ks = orki_f16_ks kenv"
  define f where "f = plan_mmax None (Some (Some soc))"
  define c where "c = orki_f16_plan_caps None kenv (Some (Some soc))"
  have ks: "32 dvd ks" "32 \<le> ks" "ks \<le> 16384" using orki_f16_ks_props assms(8) by (simp_all add: ks_def)
  have nm: "16 \<le> soc_nmax soc" using assms(6,7) by (auto elim: dvdE)
  have c: "fc_kmax c = ks" "fc_kmul c = 32" "fc_nmax c = soc_nmax soc" "fc_nmul c = 16" "fc_mmax c = Some f"
    using ks nm by (auto simp: c_def orki_f16_plan_caps_def ork_slice_f16_caps_rk3588_def Let_def ks_def f_def)
  have ok: "f16_caps_ok c" by (simp add: f16_caps_ok_def c)
  let ?Sn = "slice_count N (soc_nmax soc)" and ?Sk = "slice_count K ks"
  let ?Nc = "\<lambda>i. slice_len N (soc_nmax soc) (int i * soc_nmax soc)" and ?Kp = "\<lambda>j. slice_len K ks (int j * ks)"
  let ?ps = "f16_pairs_of c K N"
  have ps: "?ps = List.concat (map (\<lambda>i. map (\<lambda>j. ((int i * soc_nmax soc, int i * soc_nmax soc + ?Nc i), (int j * ks, int j * ks + ?Kp j)))
      [0..<?Sk]) [0..<?Sn])"
    using ks nm assms(2,3,6)
    by (simp add: f16_pairs_def c step_aligned loop_upto_slices comp_def)
  have len: "iv_len (x, x + y) = y" for x y by (simp add: iv_len_def)
  have f: "f (?Kp j) (?Nc i) = orki_f16_mcap_n None (?Kp j) (orki_f16_sched (?Kp j)) (?Nc i)
      \<and> f (?Kp j) (?Nc i) = orki_run_loop_chunk None 0 (?Kp j) (?Nc i) rb" if "i < ?Sn" "j < ?Sk" for i j
  proof -
    note a = slice_len_aligned [OF assms(5,6,7,3) that(1)] slice_len_aligned [OF assms(4) ks(1) _ assms(2) that(2)]
    have "f (?Kp j) (?Nc i) = orki_f16_mcap_n None (?Kp j) (orki_f16_sched (?Kp j)) (?Nc i)"
      unfolding f_def using a ks by (intro plan_mmax_slice) auto
    moreover have "?Kp j \<le> 16384" using a(6) ks by simp
    ultimately show ?thesis using a ks by (simp add: run_chunk_f16)
  qed
  have "1 \<le> f (?Kp j) (?Nc i)" if "i < ?Sn" "j < ?Sk" for i j using f [OF that] mcap_n_pos by simp
  then have nr: "\<not> f16_refused f ?ps" by (auto simp: f16_refused_def ps len) (metis not_one_le_zero less_irrefl not_le)
  have "ork_slice_f16_check K N (Some c) = Some 0"
    using nr assms(2-5) unfolding slice_f16_check_total_aux [OF ok] f16_refused_def by (auto simp: c)
  then have "ork_slice_f16_count K N M (Some c) = Some (f16_count f M ?ps 0)"
    using assms(1) by (simp add: ork_slice_f16_count_def c)
  moreover have "length (List.concat (map (f16_block f M) ?ps)) = length (loop_progs None d ?Sn ?Sk)"
    unfolding length_loop_progs ps
    by (simp add: d_def ks_def [symmetric] length_concat map_concat comp_def f16_block_def len sum_list_concat)
      (intro sum_list_cong_set, simp add: f [THEN conjunct2] comp_def)
  ultimately show ?thesis
    using assms(1) nr by (simp add: ork_f16_mm_plan_def c_def [symmetric] f16_count_eq Let_def ks_def)
qed


theorem plan_counts_run_loop_witness:
  "ork_f16_mm_plan None None (Some (Some ork_soc_rk3588)) 300 2048 64 = Some (0, 6)"
proof -
  let ?d = "\<lparr>ld_dt = 0, ld_M = 300, ld_K = 2048, ld_N = 64, ld_KS = orki_f16_ks None, ld_NMAX = soc_nmax ork_soc_rk3588, ld_RB = 0\<rparr>"
  have ks: "orki_f16_ks None = 1024" "soc_nmax ork_soc_rk3588 = 8192" by (simp_all add: orki_f16_ks_def ork_soc_rk3588_def)
  have sl: "slice_count 64 8192 = 1" "slice_count 2048 1024 = 2" by (simp_all add: slice_count_def ceil_div_def)
  have "orki_f16_mcap_n None 1024 (orki_f16_sched 1024) 64 = 128" by code_simp
  then have ch: "orki_run_loop_chunk None 0 1024 64 0 = 128" by (simp add: run_chunk_f16)
  have len: "length (loop_upto 300 128 300 0) = 3"
    using loop_upto_length [of 128 300 0 300] by (simp add: ceil_div_def)
  have up: "[0..<1] = [0]" "[0..<2] = [0, Suc 0]" by (simp_all add: numeral_2_eq_2)
  have "length (loop_progs None ?d 1 2) = 6"
    unfolding length_loop_progs up by (simp add: ks slice_len_def ch len)
  then show ?thesis
    using plan_counts_run_loop [of 300 2048 64 ork_soc_rk3588 None ?d 0] by (simp add: ks sl)
qed

end
