(* ===== verification/Mode.thy ===== *)
theory Mode
  imports Prelude
begin

section \<open>The mode-transition layer: \<open>src/npu/core/mode.c\<close>\<close>

text \<open>
  Every run path calls \<open>ork_npu_enter\<close> before it touches the NPU; one row of the table \<open>XSPEC\<close> per call
  site says when to reset the device, which warm-up marks to clear and which output buffers to give up.
  The state is the fields of \<open>ork_npu\<close> the layer owns. What it does to the device is recorded in
  \<open>m_acts\<close>, newest last. The environment variables are a record: \<open>ORK_MIXED_NOTHRASH\<close>,
  \<open>ORK_SSM_KEEPWARM\<close>, \<open>ORK_SDP_NORESET\<close>, \<open>ORK_XSPEC_NORESET\<close>, \<open>ORK_XSPEC_NOCLEAR\<close>, \<open>ORK_RESET_DRAIN\<close>.
\<close>

definition DT_F16' :: int where "DT_F16' = 0"
definition DT_I8' :: int where "DT_I8' = 1"
definition DT_I4' :: int where "DT_I4' = 2"
definition I8_CHAIN :: int where "I8_CHAIN = 3"
definition I4_CHAIN :: int where "I4_CHAIN = 4"
definition I4_STREAM :: int where "I4_STREAM = 5"

definition ORK_MAXCORE :: nat where "ORK_MAXCORE = 4"

datatype xprofile = XP_MC_MM | XP_SC_MM | XP_CHAIN_NT | XP_STREAM_I8 | XP_STREAM_F16
  | XP_I4_MC | XP_I4_MWARM | XP_I4_INCR | XP_I4CHAIN | XP_I4_STREAM | XP_SDP

datatype chain_kind = OCK_NONE | OCK_SW | OCK_HW | OCK_FUSED

datatype kwp = KWP_NONE | KWP_MC | KWP_SC | KWP_NTI | KWP_NTL | KWP_F16
datatype rcond = RC_NEVER | RC_NOTKW | RC_I8ENTRY | RC_NOTLIVE | RC_NOTLIVE_NOTKW | RC_ALWAYS | RC_SDPKW
datatype target = TG_NONE | TG_SCALAR | TG_PERCORE | TG_BOTH
datatype wcond = WC_NONE | WC_NOTKW | WC_NOTLIVE_NOTKW | WC_ALWAYS | WC_NT | WC_NT_NOTKW

record ork_xspec =
  x_kwp :: kwp
  x_rst :: rcond
  x_wtg :: target
  x_wc :: wcond
  x_stg :: target
  x_sc :: wcond
  x_setdt :: bool

fun XSPEC :: "xprofile \<Rightarrow> ork_xspec" where
  "XSPEC XP_MC_MM = \<lparr>x_kwp = KWP_MC, x_rst = RC_I8ENTRY, x_wtg = TG_PERCORE, x_wc = WC_NOTKW, x_stg = TG_PERCORE, x_sc = WC_NT_NOTKW, x_setdt = True\<rparr>"
| "XSPEC XP_SC_MM = \<lparr>x_kwp = KWP_SC, x_rst = RC_I8ENTRY, x_wtg = TG_SCALAR, x_wc = WC_NOTKW, x_stg = TG_SCALAR, x_sc = WC_NT_NOTKW, x_setdt = True\<rparr>"
| "XSPEC XP_CHAIN_NT = \<lparr>x_kwp = KWP_MC, x_rst = RC_NOTLIVE_NOTKW, x_wtg = TG_SCALAR, x_wc = WC_NOTKW, x_stg = TG_SCALAR, x_sc = WC_NOTKW, x_setdt = True\<rparr>"
| "XSPEC XP_STREAM_I8 = \<lparr>x_kwp = KWP_MC, x_rst = RC_NOTLIVE_NOTKW, x_wtg = TG_BOTH, x_wc = WC_NOTLIVE_NOTKW, x_stg = TG_NONE, x_sc = WC_NONE, x_setdt = True\<rparr>"
| "XSPEC XP_STREAM_F16 = \<lparr>x_kwp = KWP_F16, x_rst = RC_NOTKW, x_wtg = TG_BOTH, x_wc = WC_NOTKW, x_stg = TG_NONE, x_sc = WC_NONE, x_setdt = True\<rparr>"
| "XSPEC XP_I4_MC = \<lparr>x_kwp = KWP_NTI, x_rst = RC_NOTKW, x_wtg = TG_PERCORE, x_wc = WC_NOTKW, x_stg = TG_PERCORE, x_sc = WC_NT, x_setdt = True\<rparr>"
| "XSPEC XP_I4_MWARM = \<lparr>x_kwp = KWP_NTI, x_rst = RC_NOTKW, x_wtg = TG_PERCORE, x_wc = WC_NOTKW, x_stg = TG_NONE, x_sc = WC_NONE, x_setdt = True\<rparr>"
| "XSPEC XP_I4_INCR = \<lparr>x_kwp = KWP_NTI, x_rst = RC_NOTKW, x_wtg = TG_NONE, x_wc = WC_NONE, x_stg = TG_NONE, x_sc = WC_NONE, x_setdt = True\<rparr>"
| "XSPEC XP_I4CHAIN = \<lparr>x_kwp = KWP_NONE, x_rst = RC_ALWAYS, x_wtg = TG_SCALAR, x_wc = WC_ALWAYS, x_stg = TG_SCALAR, x_sc = WC_ALWAYS, x_setdt = True\<rparr>"
| "XSPEC XP_I4_STREAM = \<lparr>x_kwp = KWP_NONE, x_rst = RC_ALWAYS, x_wtg = TG_BOTH, x_wc = WC_ALWAYS, x_stg = TG_NONE, x_sc = WC_NONE, x_setdt = True\<rparr>"
| "XSPEC XP_SDP = \<lparr>x_kwp = KWP_NONE, x_rst = RC_SDPKW, x_wtg = TG_NONE, x_wc = WC_NONE, x_stg = TG_NONE, x_sc = WC_NONE, x_setdt = True\<rparr>"

text \<open>The dtype predicates of \<open>internal.h\<close>; the int4 chain marker is deliberately in none of them.\<close>

definition ORK_I8_LIVE :: "int \<Rightarrow> bool" where "ORK_I8_LIVE dt \<longleftrightarrow> dt = DT_I8' \<or> dt = 3"
definition ORK_INT_DT :: "int \<Rightarrow> bool" where "ORK_INT_DT dt \<longleftrightarrow> dt = DT_I8' \<or> dt = DT_I4' \<or> dt = 3"
definition ORK_KW_DT :: "int \<Rightarrow> bool" where "ORK_KW_DT dt \<longleftrightarrow> ORK_I8_LIVE dt \<or> dt = DT_F16'"

record mode_env =
  e_nothrash :: bool
  e_f16warm :: bool
  e_sdp_noreset :: bool
  e_noreset :: bool
  e_noclear :: bool
  e_reset_drain :: int

datatype npu_act = ACT_RESET | DRAIN nat

record mode_state =
  m_last_dt :: int
  m_last_chain :: chain_kind
  m_warmed :: int
  m_mwarm :: "int list"
  m_ccsz :: nat
  m_mccsz :: "nat list"
  m_lut_loaded :: "int list"
  m_task_built :: "int list"
  m_acts :: "npu_act list"

definition keep_warm :: "mode_env \<Rightarrow> kwp \<Rightarrow> int \<Rightarrow> int \<Rightarrow> bool" where
  "keep_warm e k from to = (case k of
      KWP_MC \<Rightarrow> (e_nothrash e \<and> ORK_INT_DT from \<and> ORK_INT_DT to) \<or> (e_f16warm e \<and> ORK_KW_DT from \<and> ORK_KW_DT to)
    | KWP_SC \<Rightarrow> e_f16warm e \<and> ORK_KW_DT from \<and> ORK_KW_DT to
    | KWP_NTI \<Rightarrow> e_nothrash e \<and> ORK_INT_DT from
    | KWP_NTL \<Rightarrow> e_nothrash e \<and> ORK_I8_LIVE from
    | KWP_F16 \<Rightarrow> e_f16warm e \<and> ORK_KW_DT from
    | KWP_NONE \<Rightarrow> False)"

definition wants_reset :: "mode_env \<Rightarrow> rcond \<Rightarrow> bool \<Rightarrow> int \<Rightarrow> int \<Rightarrow> bool" where
  "wants_reset e r kw from to = (case r of
      RC_NOTKW \<Rightarrow> \<not> kw
    | RC_I8ENTRY \<Rightarrow> to = DT_I8' \<and> \<not> ORK_I8_LIVE from \<and> \<not> kw
    | RC_NOTLIVE \<Rightarrow> \<not> ORK_I8_LIVE from
    | RC_NOTLIVE_NOTKW \<Rightarrow> \<not> ORK_I8_LIVE from \<and> \<not> kw
    | RC_ALWAYS \<Rightarrow> True
    | RC_SDPKW \<Rightarrow> \<not> e_sdp_noreset e
    | RC_NEVER \<Rightarrow> False)"

definition warm_clear :: "wcond \<Rightarrow> bool \<Rightarrow> int \<Rightarrow> bool" where
  "warm_clear w kw from = (case w of
      WC_NOTKW \<Rightarrow> \<not> kw | WC_NOTLIVE_NOTKW \<Rightarrow> \<not> ORK_I8_LIVE from \<and> \<not> kw | WC_ALWAYS \<Rightarrow> True | _ \<Rightarrow> False)"

definition size_clear :: "mode_env \<Rightarrow> wcond \<Rightarrow> bool \<Rightarrow> bool" where
  "size_clear e w kw = (case w of
      WC_NOTKW \<Rightarrow> \<not> kw | WC_NT \<Rightarrow> \<not> e_nothrash e | WC_NT_NOTKW \<Rightarrow> \<not> e_nothrash e \<and> \<not> kw | WC_ALWAYS \<Rightarrow> True | _ \<Rightarrow> False)"

definition scalar :: "target \<Rightarrow> bool" where "scalar t \<longleftrightarrow> t = TG_SCALAR \<or> t = TG_BOTH"
definition percore :: "target \<Rightarrow> bool" where "percore t \<longleftrightarrow> t = TG_PERCORE \<or> t = TG_BOTH"

text \<open>The reset itself: the ioctl, the LUT and task marks, and the sacrificial ops of \<open>ORK_RESET_DRAIN\<close>.\<close>

definition drain_masks :: "int \<Rightarrow> npu_act list" where
  "drain_masks rd = (if rd = 1 then [DRAIN 0xffffffff] else if rd = 2 then [DRAIN 1] else if rd = 3 then [DRAIN 6] else [])"

definition do_reset :: "mode_env \<Rightarrow> mode_state \<Rightarrow> mode_state" where
  "do_reset e s = s\<lparr>m_acts := m_acts s @ ACT_RESET # drain_masks (e_reset_drain e),
     m_lut_loaded := replicate ORK_MAXCORE 0, m_task_built := replicate ORK_MAXCORE 0\<rparr>"

definition ork_npu_enter :: "mode_env \<Rightarrow> int \<Rightarrow> xprofile \<Rightarrow> chain_kind \<Rightarrow> mode_state \<Rightarrow> int \<times> mode_state" where
  "ork_npu_enter e to p ch s =
     (let x = XSPEC p; from = m_last_dt s; s = s\<lparr>m_last_chain := ch\<rparr> in
      if x_setdt x \<and> from = to then (0, s)
      else
        let kw = keep_warm e (x_kwp x) from to;
            rst = wants_reset e (x_rst x) kw from to \<and> \<not> e_noreset e;
            s = (if rst then do_reset e s else s);
            wclr = warm_clear (x_wc x) kw from \<and> \<not> e_noclear e;
            s = (if wclr \<and> scalar (x_wtg x) then s\<lparr>m_warmed := 0\<rparr> else s);
            s = (if wclr \<and> percore (x_wtg x) then s\<lparr>m_mwarm := replicate ORK_MAXCORE 0\<rparr> else s);
            sclr = size_clear e (x_sc x) kw;
            s = (if sclr \<and> scalar (x_stg x) then s\<lparr>m_ccsz := 0\<rparr> else s);
            s = (if sclr \<and> percore (x_stg x) then s\<lparr>m_mccsz := replicate ORK_MAXCORE 0\<rparr> else s);
            s = (if x_setdt x then s\<lparr>m_last_dt := to\<rparr> else s)
        in (1, s))"

definition ork_npu_mode_invalidate :: "mode_state option \<Rightarrow> mode_state option" where
  "ork_npu_mode_invalidate c = map_option (\<lambda>s. s\<lparr>m_last_dt := - 1, m_warmed := 0, m_mwarm := replicate ORK_MAXCORE 0\<rparr>) c"

definition ork_npu_mode_reset :: "mode_state option \<Rightarrow> mode_state option" where
  "ork_npu_mode_reset c = ork_npu_mode_invalidate (map_option (\<lambda>s. s\<lparr>m_acts := m_acts s @ [ACT_RESET]\<rparr>) c)"


subsection \<open>What a transition does\<close>

text \<open>The (target, profile) pairs of the calls in the source, the SDP calls apart: those pass the current mode.\<close>

definition call_site :: "xprofile \<Rightarrow> int \<Rightarrow> bool" where
  "call_site p to = (case p of
      XP_MC_MM \<Rightarrow> to = DT_F16' \<or> to = DT_I8' | XP_SC_MM \<Rightarrow> to = DT_F16' \<or> to = DT_I8'
    | XP_CHAIN_NT \<Rightarrow> to = I8_CHAIN | XP_STREAM_I8 \<Rightarrow> to = I8_CHAIN | XP_STREAM_F16 \<Rightarrow> to = DT_F16'
    | XP_I4CHAIN \<Rightarrow> to = I4_CHAIN | XP_I4_STREAM \<Rightarrow> to = I4_STREAM | _ \<Rightarrow> False)"

text \<open>The documented policy, by source and target mode.\<close>

definition reset_policy :: "mode_env \<Rightarrow> xprofile \<Rightarrow> int \<Rightarrow> int \<Rightarrow> bool" where
  "reset_policy e p from to \<longleftrightarrow>
     to \<in> {4, 5}
   \<or> to \<in> {1, 3} \<and> from \<notin> {1, 3} \<and> \<not> (from = 0 \<and> e_f16warm e) \<and> \<not> (from = 2 \<and> e_nothrash e \<and> p \<noteq> XP_SC_MM)
   \<or> to = 0 \<and> p = XP_STREAM_F16 \<and> \<not> (from \<in> {1, 3} \<and> e_f16warm e)"

lemmas mode_defs = DT_F16'_def DT_I8'_def DT_I4'_def I8_CHAIN_def I4_CHAIN_def I4_STREAM_def
  ORK_I8_LIVE_def ORK_INT_DT_def ORK_KW_DT_def keep_warm_def wants_reset_def

lemma wants_reset_policy:
  assumes "call_site p to" "from \<noteq> to"
  shows "wants_reset e (x_rst (XSPEC p)) (keep_warm e (x_kwp (XSPEC p)) from to) from to \<longleftrightarrow> reset_policy e p from to"
  using assms by (cases p) (auto simp: call_site_def mode_defs reset_policy_def)

lemma setdt [simp]: "x_setdt (XSPEC p)"
  by (cases p) simp_all

lemma enter_same: "m_last_dt s = to \<Longrightarrow> ork_npu_enter e to p ch s = (0, s\<lparr>m_last_chain := ch\<rparr>)"
  by (simp add: ork_npu_enter_def Let_def)

lemma enter_last_dt: "m_last_dt (snd (ork_npu_enter e to p ch s)) = to"
  by (simp add: ork_npu_enter_def Let_def do_reset_def)

lemma enter_acts:
  assumes "call_site p to" "m_last_dt s \<noteq> to" "\<not> e_noreset e"
  shows "m_acts (snd (ork_npu_enter e to p ch s)) = m_acts s @
     (if reset_policy e p (m_last_dt s) to then ACT_RESET # drain_masks (e_reset_drain e) else [])"
  using assms wants_reset_policy [OF assms(1,2), of e]
  by (simp add: ork_npu_enter_def Let_def do_reset_def)

lemma enter_marks:
  assumes "call_site p to" "m_last_dt s \<noteq> to" "\<not> e_noreset e" "reset_policy e p (m_last_dt s) to"
  shows "m_lut_loaded (snd (ork_npu_enter e to p ch s)) = replicate ORK_MAXCORE 0
    \<and> m_task_built (snd (ork_npu_enter e to p ch s)) = replicate ORK_MAXCORE 0"
  using assms wants_reset_policy [OF assms(1,2), of e]
  by (simp add: ork_npu_enter_def Let_def do_reset_def)


definition default_env :: mode_env where
  "default_env = \<lparr>e_nothrash = False, e_f16warm = True, e_sdp_noreset = True, e_noreset = False, e_noclear = False,
     e_reset_drain = 0\<rparr>"

definition mode_at :: "int \<Rightarrow> mode_state" where
  "mode_at dt = \<lparr>m_last_dt = dt, m_last_chain = OCK_NONE, m_warmed = 1, m_mwarm = [1, 1, 1, 1], m_ccsz = 4096,
     m_mccsz = [4096, 4096, 4096, 4096], m_lut_loaded = [1, 1, 1, 1], m_task_built = [1, 1, 1, 1], m_acts = []\<rparr>"


subsection \<open>Sequences of transitions\<close>

definition enter_all :: "mode_env \<Rightarrow> (int \<times> xprofile \<times> chain_kind) list \<Rightarrow> mode_state \<Rightarrow> mode_state" where
  "enter_all e cs s = fold (\<lambda>(to, p, ch) s. snd (ork_npu_enter e to p ch s)) cs s"

definition fp16_matmul :: "int \<times> xprofile \<times> chain_kind \<Rightarrow> bool" where
  "fp16_matmul c \<longleftrightarrow> fst c = DT_F16' \<and> (fst (snd c) = XP_MC_MM \<or> fst (snd c) = XP_SC_MM)"

lemma enter_acts_mono: "set (m_acts s) \<subseteq> set (m_acts (snd (ork_npu_enter e to p ch s)))"
  by (auto simp: ork_npu_enter_def Let_def do_reset_def)

lemma enter_all_mono: "set (m_acts s) \<subseteq> set (m_acts (enter_all e cs s))"
proof (induction cs arbitrary: s)
  case (Cons c cs)
  obtain to p ch where c: "c = (to, p, ch)" by (cases c)
  show ?case using enter_acts_mono [of s e to p ch] Cons [of "snd (ork_npu_enter e to p ch s)"]
    by (auto simp: enter_all_def c)
qed (simp add: enter_all_def)

lemma leave_i4_resets:
  assumes "\<forall>(to, p, ch) \<in> set cs. call_site p to" "\<forall>c \<in> set cs. \<not> fp16_matmul c" "\<not> e_noreset e"
    "m_last_dt s \<in> {4, 5}" "m_last_dt (enter_all e cs s) \<noteq> m_last_dt s"
  shows "ACT_RESET \<in> set (m_acts (enter_all e cs s))"
  using assms
proof (induction cs arbitrary: s)
  case Nil
  then show ?case by (simp add: enter_all_def)
next
  case (Cons c cs)
  obtain to p ch where c: "c = (to, p, ch)" by (cases c)
  let ?s = "snd (ork_npu_enter e to p ch s)"
  have rest: "enter_all e (c # cs) s = enter_all e cs ?s" by (simp add: enter_all_def c)
  have cs: "call_site p to" using Cons.prems(1) by (simp add: c)
  show ?case
  proof (cases "m_last_dt s = to")
    case True
    then have "?s = s\<lparr>m_last_chain := ch\<rparr>" by (simp add: enter_same)
    then have "m_last_dt ?s = m_last_dt s" by simp
    with Cons.IH [of ?s] Cons.prems rest show ?thesis by auto
  next
    case False
    have "reset_policy e p (m_last_dt s) to"
      using cs Cons.prems(2,4) by (cases p) (auto simp: call_site_def mode_defs reset_policy_def c fp16_matmul_def)
    then have "ACT_RESET \<in> set (m_acts ?s)" using enter_acts [OF cs False Cons.prems(3)] by simp
    then show ?thesis using enter_all_mono [of ?s e cs] rest by auto
  qed
qed

text \<open>C27: the int4 chain boundary is never crossed warm by the chain, stream and int8 paths: over any
  sequence of their transitions that starts in an int4 chain or stream mode and ends in another mode the
  device has been reset, whatever the knobs. An fp16 single- or multi-core matmul in the sequence breaks
  this: it enters fp16 without a reset, and with \<open>ORK_SSM_KEEPWARM\<close> on, the default, the int8 chain after
  it does not reset either.\<close>

theorem int4_boundary_resets:
  assumes "\<forall>(to, p, ch) \<in> set cs. call_site p to" "\<not> e_noreset e"
    "m_last_dt s \<in> {4, 5}" "m_last_dt (enter_all e cs s) \<noteq> m_last_dt s"
  shows "((\<forall>c \<in> set cs. \<not> fp16_matmul c) \<longrightarrow> ACT_RESET \<in> set (m_acts (enter_all e cs s)))
    \<and> m_acts (enter_all default_env [(DT_F16', XP_SC_MM, OCK_NONE), (I8_CHAIN, XP_CHAIN_NT, OCK_HW)] (mode_at I4_CHAIN)) = []"
proof
  show "(\<forall>c \<in> set cs. \<not> fp16_matmul c) \<longrightarrow> ACT_RESET \<in> set (m_acts (enter_all e cs s))"
    using leave_i4_resets [OF assms(1) _ assms(2-4)] by blast
qed (simp add: enter_all_def ork_npu_enter_def Let_def mode_defs default_env_def mode_at_def scalar_def percore_def
      warm_clear_def size_clear_def)

theorem int4_boundary_resets_witness:
  "ACT_RESET \<in> set (m_acts (enter_all default_env [(0, XP_STREAM_F16, OCK_SW), (3, XP_CHAIN_NT, OCK_HW)] (mode_at 4)))"
proof -
  let ?cs = "[(0, XP_STREAM_F16, OCK_SW), (3, XP_CHAIN_NT, OCK_HW)]"
  have "m_last_dt (enter_all default_env ?cs (mode_at 4)) = 3" by (simp add: enter_all_def enter_last_dt)
  then show ?thesis
    using int4_boundary_resets [of ?cs default_env "mode_at 4"]
    by (simp add: call_site_def mode_defs default_env_def mode_at_def fp16_matmul_def)
qed

text \<open>The SDP row is dead. Every SDP call passes the current mode, the row has its mode mark set, and so
  the call is the no-op of an unchanged mode, also with \<open>ORK_SDP_NORESET=0\<close>, which asks for the reset.\<close>

lemma sdp_enter_is_noop:
  "ork_npu_enter e (m_last_dt s) XP_SDP ch s = (0, s\<lparr>m_last_chain := ch\<rparr>)"
  by (rule enter_same) simp

end
