(* ===== verification/Dma_Buf.thy ===== *)
theory Dma_Buf
  imports Prelude "HOL-Library.Word"
begin

section \<open>DMA buffers and the IOVA guard: \<open>src/npu/core/buf.c\<close>, \<open>src/npu/core/domain.c\<close>, \<open>src/npu.c\<close>\<close>

text \<open>
  The driver keeps, per IOMMU domain, a ledger of the bytes it has had the kernel map, and refuses an
  allocation that would pass a ceiling. A buffer is the C struct; addresses, handles and sizes are numbers
  and \<open>bf_cpu = 0\<close> is the failed buffer. What the kernel answers to one call is an argument of the call
  (\<open>answers\<close>); what it keeps because of the calls is recorded beside the driver's own state: the objects
  it has mapped (handle, domain, bytes), the user mappings and the open descriptors. Environment
  variables are a record. Trace output and timers are not modelled.
\<close>

unbundle bit_operations_syntax

record buf =
  bf_handle :: nat
  bf_dma :: nat
  bf_obj :: nat
  bf_cpu :: nat
  bf_size :: nat
  bf_heap :: int
  bf_dom :: int

definition no_buf :: buf where
  "no_buf = \<lparr>bf_handle = 0, bf_dma = 0, bf_obj = 0, bf_cpu = 0, bf_size = 0, bf_heap = 0, bf_dom = 0\<rparr>"

record dom_env =
  v_pin :: int
  v_base :: int
  v_default :: int
  v_ceil_mb :: "int option"
  v_uncached :: bool
  v_sram_total :: nat

record answers =
  a_create :: "32 word \<Rightarrow> (nat \<times> nat \<times> nat \<times> nat) option"
  a_map :: bool
  a_mmap :: "nat option"
  a_heap :: "int option"
  a_setdom :: bool
  a_prime :: bool
  a_import :: "(nat \<times> nat \<times> nat) option"
  a_destroy :: bool

record dma =
  dm_iova :: "int \<Rightarrow> nat"
  dm_live :: "(nat \<times> nat) list"
  dm_sram_got :: nat
  dm_objs :: "(nat \<times> int \<times> nat) list"
  dm_maps :: "nat list"
  dm_fds :: "int list"

definition ORK_IOVA_NDOM :: int where "ORK_IOVA_NDOM = 64"
definition ORK_IOVA_CEIL_DEFAULT_MB :: int where "ORK_IOVA_CEIL_DEFAULT_MB = 3900"
definition MEM_CACHEABLE :: "32 word" where "MEM_CACHEABLE = 2"
definition MEM_KERNEL_MAPPING :: "32 word" where "MEM_KERNEL_MAPPING = 8"
definition MEM_TRY_ALLOC_SRAM :: "32 word" where "MEM_TRY_ALLOC_SRAM = 256"

subsection \<open>Pages, domains, the ledger\<close>

text \<open>\<open>(s+4095)&~4095\<close> on a 64-bit \<open>size_t\<close>.\<close>

definition orki_pgup :: "nat \<Rightarrow> nat" where
  "orki_pgup s = (s + 4095) mod 18446744073709551616 div 4096 * 4096"

definition orki_dma_fits32 :: "nat \<Rightarrow> nat \<Rightarrow> bool" where
  "orki_dma_fits32 addr bytes \<longleftrightarrow> (addr + bytes) mod 18446744073709551616 \<le> 0x100000000"

definition ork_dom :: "dom_env \<Rightarrow> int \<Rightarrow> int" where
  "ork_dom e dmn =
     (let d = (if 0 \<le> v_pin e then v_pin e else if 0 \<le> dmn then dmn else v_default e)
      in if 0 < v_base e then d + v_base e else d)"

definition ork_iova_ceiling :: "dom_env \<Rightarrow> nat" where
  "ork_iova_ceiling e =
     (let mb = (case v_ceil_mb e of None \<Rightarrow> ORK_IOVA_CEIL_DEFAULT_MB | Some v \<Rightarrow> v);
          mb = (if mb \<le> 0 then ORK_IOVA_CEIL_DEFAULT_MB else mb);
          mb = (if nat mb * 1048576 mod 18446744073709551616 > 0xffffffff then ORK_IOVA_CEIL_DEFAULT_MB else mb)
      in nat mb * 1048576 mod 18446744073709551616)"

definition tracked :: "int \<Rightarrow> bool" where
  "tracked d \<longleftrightarrow> 0 \<le> d \<and> d < ORK_IOVA_NDOM"

definition ork_iova_reserve :: "dom_env \<Rightarrow> int \<Rightarrow> nat \<Rightarrow> dma \<Rightarrow> bool \<times> dma" where
  "ork_iova_reserve e dmn need s =
     (if \<not> tracked dmn then (True, s)
      else let sum = (dm_iova s dmn + need) mod 18446744073709551616 in
        if sum > ork_iova_ceiling e then (False, s)
        else (True, s\<lparr>dm_iova := (dm_iova s)(dmn := sum)\<rparr>))"

definition ork_iova_release :: "int \<Rightarrow> nat \<Rightarrow> dma \<Rightarrow> dma" where
  "ork_iova_release dmn bytes s =
     (if \<not> tracked dmn then s
      else s\<lparr>dm_iova := (dm_iova s)(dmn := if dm_iova s dmn > bytes then dm_iova s dmn - bytes else 0)\<rparr>)"

definition orki_live_add :: "nat \<Rightarrow> nat \<Rightarrow> dma \<Rightarrow> dma" where
  "orki_live_add h obj s = s\<lparr>dm_live := dm_live s @ [(h, obj)]\<rparr>"

text \<open>The first entry with the handle is overwritten by the last one.\<close>

fun swap_out :: "('a \<Rightarrow> bool) \<Rightarrow> 'a list \<Rightarrow> 'a list" where
  "swap_out P [] = []"
| "swap_out P (x # xs) = (if P x then (if xs = [] then [] else last xs # butlast xs) else x # swap_out P xs)"

definition orki_live_del :: "nat \<Rightarrow> dma \<Rightarrow> dma" where
  "orki_live_del h s = s\<lparr>dm_live := swap_out (\<lambda>en. fst en = h) (dm_live s)\<rparr>"

subsection \<open>Creating, importing and destroying\<close>

text \<open>What the kernel keeps after a successful \<open>MEM_CREATE\<close> and \<open>mmap\<close>.\<close>

definition k_mapped :: "nat \<Rightarrow> int \<Rightarrow> nat \<Rightarrow> dma \<Rightarrow> dma" where
  "k_mapped h dmn bytes s = s\<lparr>dm_objs := dm_objs s @ [(h, dmn, bytes)]\<rparr>"

definition k_mmap :: "nat \<Rightarrow> dma \<Rightarrow> dma" where
  "k_mmap p s = s\<lparr>dm_maps := dm_maps s @ [p]\<rparr>"

definition k_munmap :: "nat \<Rightarrow> dma \<Rightarrow> dma" where
  "k_munmap p s = s\<lparr>dm_maps := remove1 p (dm_maps s)\<rparr>"

definition k_open :: "int \<Rightarrow> dma \<Rightarrow> dma" where "k_open fd s = s\<lparr>dm_fds := dm_fds s @ [fd]\<rparr>"
definition k_close :: "int \<Rightarrow> dma \<Rightarrow> dma" where "k_close fd s = s\<lparr>dm_fds := remove1 fd (dm_fds s)\<rparr>"

text \<open>The flags the request goes out with, and the ioctl with its retry in DRAM.\<close>

definition create_flags :: "dom_env \<Rightarrow> 32 word \<Rightarrow> 32 word" where
  "create_flags e flags =
     (let flags = (if flags AND MEM_TRY_ALLOC_SRAM \<noteq> 0 \<and> v_sram_total e = 0 then flags AND NOT MEM_TRY_ALLOC_SRAM else flags)
      in if v_uncached e then flags AND NOT MEM_CACHEABLE else flags)"

definition mem_create :: "answers \<Rightarrow> 32 word \<Rightarrow> (nat \<times> nat \<times> nat \<times> nat) option" where
  "mem_create a flags = (case a_create a flags of Some r \<Rightarrow> Some r
     | None \<Rightarrow> if flags AND MEM_TRY_ALLOC_SRAM \<noteq> 0 then a_create a (flags AND NOT MEM_TRY_ALLOC_SRAM) else None)"

definition orki_bcreate :: "dom_env \<Rightarrow> answers \<Rightarrow> nat \<Rightarrow> 32 word \<Rightarrow> int \<Rightarrow> dma \<Rightarrow> buf \<times> dma" where
  "orki_bcreate e a bytes flags domain s =
     (let dmn = ork_dom e domain; need = orki_pgup bytes; (ok, s) = ork_iova_reserve e dmn need s
      in if \<not> ok then (no_buf, s)
      else case mem_create a (create_flags e flags) of
        None \<Rightarrow> (no_buf, ork_iova_release dmn need s)
      | Some (h, addr, obj, sram) \<Rightarrow>
        let s = k_mapped h dmn need s in
        if \<not> a_map a then (no_buf, ork_iova_release dmn need s)
        else case a_mmap a of None \<Rightarrow> (no_buf, ork_iova_release dmn need s)
        | Some p \<Rightarrow>
          let s = k_mmap p s in
          if \<not> orki_dma_fits32 addr need then (no_buf, s)
          else let s = orki_live_add h obj s in
            (\<lparr>bf_handle = h, bf_dma = addr, bf_obj = obj, bf_cpu = p, bf_size = need, bf_heap = 0, bf_dom = dmn\<rparr>,
             s\<lparr>dm_sram_got := dm_sram_got s + sram\<rparr>))"

text \<open>The shared end of both imports, from the reservation on; \<open>drop\<close> undoes what the caller did before.\<close>

definition import_tail :: "dom_env \<Rightarrow> answers \<Rightarrow> int \<Rightarrow> nat \<Rightarrow> nat \<Rightarrow> int \<Rightarrow> (dma \<Rightarrow> dma) \<Rightarrow> dma \<Rightarrow> buf \<times> dma" where
  "import_tail e a dbuf p sz dmn undo s =
     (let (ok, s) = ork_iova_reserve e dmn sz s in
      if \<not> ok then (no_buf, undo s)
      else if \<not> a_setdom a then (no_buf, undo (ork_iova_release dmn sz s))
      else if \<not> a_prime a then (no_buf, undo (ork_iova_release dmn sz s))
      else case a_import a of None \<Rightarrow> (no_buf, undo (ork_iova_release dmn sz s))
      | Some (h, addr, obj) \<Rightarrow>
        let s = k_mapped h dmn sz s in
        if \<not> orki_dma_fits32 addr sz then (no_buf, s)
        else (\<lparr>bf_handle = h, bf_dma = addr, bf_obj = obj, bf_cpu = p, bf_size = sz, bf_heap = dbuf, bf_dom = dmn\<rparr>,
              orki_live_add h obj s))"

definition orki_bimport_f :: "dom_env \<Rightarrow> answers \<Rightarrow> nat \<Rightarrow> int \<Rightarrow> 32 word \<Rightarrow> dma \<Rightarrow> buf \<times> dma" where
  "orki_bimport_f e a bytes domain memflags s =
     (let sz = orki_pgup bytes in
      case a_heap a of None \<Rightarrow> (no_buf, s)
      | Some dbuf \<Rightarrow>
        let s = k_open dbuf s in
        case a_mmap a of None \<Rightarrow> (no_buf, k_close dbuf s)
        | Some p \<Rightarrow> import_tail e a dbuf p sz (ork_dom e domain) (k_close dbuf \<circ> k_munmap p) (k_mmap p s))"

definition orki_bimport :: "dom_env \<Rightarrow> answers \<Rightarrow> nat \<Rightarrow> int \<Rightarrow> dma \<Rightarrow> buf \<times> dma" where
  "orki_bimport e a bytes domain s = orki_bimport_f e a bytes domain 0 s"

definition orki_bimport_fd :: "dom_env \<Rightarrow> answers \<Rightarrow> int \<Rightarrow> nat \<Rightarrow> int \<Rightarrow> dma \<Rightarrow> buf \<times> dma" where
  "orki_bimport_fd e a dbuf bytes domain s =
     (if dbuf < 0 then (no_buf, s)
      else case a_mmap a of None \<Rightarrow> (no_buf, s)
      | Some p \<Rightarrow> import_tail e a dbuf p (orki_pgup bytes) (ork_dom e domain) (k_munmap p) (k_mmap p s))"

definition orki_bdestroy :: "answers \<Rightarrow> buf \<Rightarrow> dma \<Rightarrow> buf \<times> dma" where
  "orki_bdestroy a b s =
     (if bf_cpu b = 0 then (b, s)
      else
        let s = k_munmap (bf_cpu b) s;
            s = (if a_destroy a then s\<lparr>dm_objs := filter (\<lambda>ob. fst ob \<noteq> bf_handle b) (dm_objs s)\<rparr> else s);
            s = orki_live_del (bf_handle b) s;
            s = ork_iova_release (bf_dom b) (bf_size b) s
        in if 0 < bf_heap b then (b\<lparr>bf_heap := 0, bf_cpu := 0\<rparr>, k_close (bf_heap b) s)
           else (b\<lparr>bf_cpu := 0\<rparr>, s))"


subsection \<open>The guard holds over every run\<close>

lemma ceiling_le: "ork_iova_ceiling e \<le> 0xffffffff"
  by (auto simp: ork_iova_ceiling_def Let_def ORK_IOVA_CEIL_DEFAULT_MB_def)

lemma pgup_ge: "b < 9223372036854775808 \<Longrightarrow> b \<le> orki_pgup b \<and> orki_pgup b < b + 4096 \<and> 4096 dvd orki_pgup b"
proof -
  assume b: "b < 9223372036854775808"
  have p: "orki_pgup b = (b + 4095) - (b + 4095) mod 4096" using b by (simp add: orki_pgup_def minus_mod_eq_div_mult)
  have "(b + 4095) mod 4096 < 4096" by simp
  then have "b \<le> orki_pgup b \<and> orki_pgup b < b + 4096" using p by linarith
  moreover have "4096 dvd orki_pgup b" by (simp add: orki_pgup_def)
  ultimately show ?thesis by simp
qed

definition held_bytes :: "int \<Rightarrow> buf list \<Rightarrow> nat" where
  "held_bytes d H = (\<Sum>b\<leftarrow>filter (\<lambda>b. bf_dom b = d) H. bf_size b)"

text \<open>A step is one call with some answers of the kernel; a successful mapping is never at address 0, and
  no caller asks for half the address space. The held buffers are those handed out and not destroyed.\<close>

inductive dma_step :: "dom_env \<Rightarrow> dma \<times> buf list \<Rightarrow> dma \<times> buf list \<Rightarrow> bool" for e where
  create: "orki_bcreate e a n fl dmn s = (b, s') \<Longrightarrow> a_mmap a \<noteq> Some 0 \<Longrightarrow> n < 9223372036854775808 \<Longrightarrow>
     dma_step e (s, H) (s', if bf_cpu b = 0 then H else H @ [b])"
| import_heap: "orki_bimport_f e a n dmn fl s = (b, s') \<Longrightarrow> a_mmap a \<noteq> Some 0 \<Longrightarrow> n < 9223372036854775808 \<Longrightarrow>
     dma_step e (s, H) (s', if bf_cpu b = 0 then H else H @ [b])"
| import_fd: "orki_bimport_fd e a fd n dmn s = (b, s') \<Longrightarrow> a_mmap a \<noteq> Some 0 \<Longrightarrow> n < 9223372036854775808 \<Longrightarrow>
     dma_step e (s, H) (s', if bf_cpu b = 0 then H else H @ [b])"
| destroy: "b \<in> set H \<Longrightarrow> dma_step e (s, H) (snd (orki_bdestroy a b s), remove1 b H)"

inductive dma_reach :: "dom_env \<Rightarrow> dma \<times> buf list \<Rightarrow> bool" for e where
  start: "dm_iova s = (\<lambda>_. 0) \<Longrightarrow> dma_reach e (s, [])"
| step: "dma_reach e y \<Longrightarrow> dma_step e y y' \<Longrightarrow> dma_reach e y'"

definition ledger_inv :: "dom_env \<Rightarrow> dma \<times> buf list \<Rightarrow> bool" where
  "ledger_inv e y \<longleftrightarrow>
     (\<forall>d. tracked d \<longrightarrow> held_bytes d (snd y) \<le> dm_iova (fst y) d \<and> dm_iova (fst y) d \<le> ork_iova_ceiling e)
   \<and> (\<forall>b \<in> set (snd y). bf_cpu b \<noteq> 0 \<and> orki_dma_fits32 (bf_dma b) (bf_size b))"

lemma iova_simps [simp]:
  "dm_iova (k_mapped h d n s) = dm_iova s" "dm_iova (k_mmap p s) = dm_iova s" "dm_iova (k_munmap p s) = dm_iova s"
  "dm_iova (k_open fd s) = dm_iova s" "dm_iova (k_close fd s) = dm_iova s" "dm_iova (orki_live_add h ob s) = dm_iova s"
  "dm_iova (orki_live_del h s) = dm_iova s"
  by (simp_all add: k_mapped_def k_mmap_def k_munmap_def k_open_def k_close_def orki_live_add_def orki_live_del_def)

text \<open>A reservation either fails and changes nothing or adds exactly what was asked; releasing it restores.\<close>

lemma reserve_cases:
  assumes "ork_iova_reserve e d n s = (ok, s')" "n < 9223372036854779904" "\<forall>d. tracked d \<longrightarrow> dm_iova s d \<le> ork_iova_ceiling e"
  shows "if ok then s' = s\<lparr>dm_iova := (dm_iova s)(d := if tracked d then dm_iova s d + n else dm_iova s d)\<rparr>
           \<and> (tracked d \<longrightarrow> dm_iova s d + n \<le> ork_iova_ceiling e) else s' = s"
proof (cases "tracked d")
  case True
  then have "dm_iova s d \<le> 0xffffffff" using assms(3) ceiling_le le_trans by blast
  then have "(dm_iova s d + n) mod 18446744073709551616 = dm_iova s d + n" using assms(2) by simp
  then show ?thesis using assms(1) True by (auto simp: ork_iova_reserve_def Let_def split: if_splits)
next
  case False
  then show ?thesis using assms(1) by (auto simp: ork_iova_reserve_def)
qed


text \<open>What a call that may hand out a buffer does to the ledger.\<close>

definition guarded :: "dom_env \<Rightarrow> dma \<Rightarrow> buf \<times> dma \<Rightarrow> bool" where
  "guarded e s r \<longleftrightarrow>
     (\<forall>d. tracked d \<longrightarrow> dm_iova s d \<le> dm_iova (snd r) d \<and> dm_iova (snd r) d \<le> ork_iova_ceiling e)
   \<and> (bf_cpu (fst r) \<noteq> 0 \<longrightarrow> orki_dma_fits32 (bf_dma (fst r)) (bf_size (fst r))
        \<and> (tracked (bf_dom (fst r)) \<longrightarrow> dm_iova s (bf_dom (fst r)) + bf_size (fst r) \<le> dm_iova (snd r) (bf_dom (fst r))))"

lemma release_reserved:
  "dm_iova (ork_iova_release d n (s\<lparr>dm_iova := (dm_iova s)(d := if tracked d then dm_iova s d + n else dm_iova s d)\<rparr>)) = dm_iova s"
  by (auto simp: ork_iova_release_def)

lemma no_buf_cpu [simp]: "bf_cpu no_buf = 0"
  by (simp add: no_buf_def)

lemma release_iova_cong: "dm_iova s = dm_iova s' \<Longrightarrow> dm_iova (ork_iova_release d n s) = dm_iova (ork_iova_release d n s')"
  by (simp add: ork_iova_release_def)

lemma bcreate_guarded:
  assumes "\<forall>d. tracked d \<longrightarrow> dm_iova s d \<le> ork_iova_ceiling e" "n < 9223372036854775808"
  shows "guarded e s (orki_bcreate e a n fl dmn s)"
proof -
  define d where "d = ork_dom e dmn"
  obtain ok s1 where r: "ork_iova_reserve e d (orki_pgup n) s = (ok, s1)" by (cases "ork_iova_reserve e d (orki_pgup n) s")
  have "orki_pgup n < 9223372036854779904" using pgup_ge [OF assms(2)] assms(2) by linarith
  note rc = reserve_cases [OF r this assms(1)]
  have rel: "dm_iova (ork_iova_release d (orki_pgup n) s2) = dm_iova s" if ok "dm_iova s2 = dm_iova s1" for s2
    using rc that release_reserved [of d "orki_pgup n" s]
    by (subst release_iova_cong [of s2 s1]) simp_all
  show ?thesis
  proof (cases ok)
    case True
    with rc have s1: "dm_iova s1 = (dm_iova s)(d := if tracked d then dm_iova s d + orki_pgup n else dm_iova s d)"
      "tracked d \<longrightarrow> dm_iova s d + orki_pgup n \<le> ork_iova_ceiling e" by auto
    show ?thesis
      using True assms(1) s1 rel
      by (auto simp: orki_bcreate_def guarded_def Let_def r d_def [symmetric] split: option.splits prod.splits)
  next
    case False
    with rc assms(1) show ?thesis by (simp add: orki_bcreate_def guarded_def Let_def r d_def [symmetric])
  qed
qed


lemma import_tail_guarded:
  assumes "\<forall>d. tracked d \<longrightarrow> dm_iova s d \<le> ork_iova_ceiling e" "n < 9223372036854779904" "\<And>s. dm_iova (undo s) = dm_iova s"
  shows "guarded e s (import_tail e a dbuf p n d undo s)"
proof -
  obtain ok s1 where r: "ork_iova_reserve e d n s = (ok, s1)" by (cases "ork_iova_reserve e d n s")
  note rc = reserve_cases [OF r assms(2,1)]
  have rel: "dm_iova (ork_iova_release d n s2) = dm_iova s" if ok "dm_iova s2 = dm_iova s1" for s2
    using rc that release_reserved [of d n s] by (subst release_iova_cong [of s2 s1]) simp_all
  show ?thesis
  proof (cases ok)
    case True
    with rc have s1: "dm_iova s1 = (dm_iova s)(d := if tracked d then dm_iova s d + n else dm_iova s d)"
      "tracked d \<longrightarrow> dm_iova s d + n \<le> ork_iova_ceiling e" by auto
    show ?thesis
      using True assms(1,3) s1 rel
      by (auto simp: import_tail_def guarded_def Let_def r split: option.splits prod.splits)
  next
    case False
    with rc assms(1,3) show ?thesis by (simp add: import_tail_def guarded_def Let_def r)
  qed
qed

lemma guarded_cong: "dm_iova s = dm_iova s' \<Longrightarrow> guarded e s r = guarded e s' r"
  by (simp add: guarded_def)

lemma guarded_refl: "\<forall>d. tracked d \<longrightarrow> dm_iova s d \<le> ork_iova_ceiling e \<Longrightarrow> dm_iova s' = dm_iova s \<Longrightarrow> guarded e s (no_buf, s')"
  by (simp add: guarded_def)

lemma bimport_guarded:
  assumes "\<forall>d. tracked d \<longrightarrow> dm_iova s d \<le> ork_iova_ceiling e" "n < 9223372036854775808"
  shows "guarded e s (orki_bimport_f e a n dmn fl s)" "guarded e s (orki_bimport_fd e a fd n dmn s)"
proof -
  have n: "orki_pgup n < 9223372036854779904" using pgup_ge [OF assms(2)] assms(2) by linarith
  have t: "guarded e s (import_tail e a dbuf p (orki_pgup n) d undo s2)"
    if "dm_iova s2 = dm_iova s" "\<And>s. dm_iova (undo s) = dm_iova s" for dbuf p d undo s2
    using import_tail_guarded [of s2 e "orki_pgup n" undo a dbuf p d] that n assms(1) guarded_cong [OF that(1)] by simp
  show "guarded e s (orki_bimport_f e a n dmn fl s)"
    by (auto simp: orki_bimport_f_def Let_def intro!: t guarded_refl assms(1) split: option.splits)
  show "guarded e s (orki_bimport_fd e a fd n dmn s)"
    by (auto simp: orki_bimport_fd_def intro!: t guarded_refl assms(1) split: option.splits)
qed

lemma held_snoc: "held_bytes d (H @ [b]) = held_bytes d H + (if bf_dom b = d then bf_size b else 0)"
  by (simp add: held_bytes_def)

lemma held_remove: "b \<in> set H \<Longrightarrow> held_bytes d (remove1 b H) = held_bytes d H - (if bf_dom b = d then bf_size b else 0)
    \<and> (if bf_dom b = d then bf_size b else 0) \<le> held_bytes d H"
  by (induction H) (auto simp: held_bytes_def)

lemma add_guarded:
  assumes "ledger_inv e (s, H)" "guarded e s (b, s')"
  shows "ledger_inv e (s', if bf_cpu b = 0 then H else H @ [b])"
proof -
  have "held_bytes d (H @ [b]) \<le> dm_iova s' d" if "tracked d" "bf_cpu b \<noteq> 0" for d
  proof (cases "bf_dom b = d")
    case True
    then have "dm_iova s d + bf_size b \<le> dm_iova s' d" "held_bytes d H \<le> dm_iova s d"
      using assms that by (auto simp: guarded_def ledger_inv_def)
    then show ?thesis using True by (simp add: held_snoc)
  next
    case False
    have "dm_iova s d \<le> dm_iova s' d" "held_bytes d H \<le> dm_iova s d"
      using assms that by (auto simp: guarded_def ledger_inv_def)
    then show ?thesis using False by (simp add: held_snoc)
  qed
  moreover have "held_bytes d H \<le> dm_iova s' d" if "tracked d" for d
  proof -
    have "held_bytes d H \<le> dm_iova s d" "dm_iova s d \<le> dm_iova s' d"
      using assms that by (auto simp: guarded_def ledger_inv_def)
    then show ?thesis by simp
  qed
  ultimately show ?thesis using assms by (auto simp: guarded_def ledger_inv_def)
qed

lemma destroy_inv:
  assumes "ledger_inv e (s, H)" "b \<in> set H"
  shows "ledger_inv e (snd (orki_bdestroy a b s), remove1 b H)"
proof -
  have nz: "bf_cpu b \<noteq> 0" using assms by (auto simp: ledger_inv_def)
  have iova: "dm_iova (snd (orki_bdestroy a b s)) d =
      (if tracked (bf_dom b) \<and> d = bf_dom b then dm_iova s d - bf_size b else dm_iova s d)" for d
    using nz by (auto simp: orki_bdestroy_def Let_def ork_iova_release_def)
  have "held_bytes d (remove1 b H) \<le> dm_iova (snd (orki_bdestroy a b s)) d
      \<and> dm_iova (snd (orki_bdestroy a b s)) d \<le> ork_iova_ceiling e" if "tracked d" for d
  proof -
    have "held_bytes d H \<le> dm_iova s d" "dm_iova s d \<le> ork_iova_ceiling e"
      using assms(1) that by (auto simp: ledger_inv_def)
    then show ?thesis using held_remove [OF assms(2), of d] that by (auto simp: iova)
  qed
  moreover have "\<forall>b' \<in> set (remove1 b H). bf_cpu b' \<noteq> 0 \<and> orki_dma_fits32 (bf_dma b') (bf_size b')"
    using assms(1) notin_set_remove1 by (fastforce simp: ledger_inv_def)
  ultimately show ?thesis by (simp add: ledger_inv_def)
qed

lemma reach_ledger_inv: "dma_reach e y \<Longrightarrow> ledger_inv e y"
proof (induction rule: dma_reach.induct)
  case (start s)
  then show ?case by (simp add: ledger_inv_def held_bytes_def)
next
  case (step y y')
  have le: "\<forall>d. tracked d \<longrightarrow> dm_iova (fst y) d \<le> ork_iova_ceiling e" using step.IH by (simp add: ledger_inv_def)
  from step.hyps(2) show ?case
  proof cases
    case (create a n fl dmn s b s' H)
    then show ?thesis using add_guarded [of e s H b s'] bcreate_guarded [of s e n a fl dmn] le step.IH by simp
  next
    case (import_heap a n dmn fl s b s' H)
    then show ?thesis using add_guarded [of e s H b s'] bimport_guarded(1) [of s e n a dmn fl] le step.IH by simp
  next
    case (import_fd a fd n dmn s b s' H)
    then show ?thesis using add_guarded [of e s H b s'] bimport_guarded(2) [of s e n a fd dmn] le step.IH by simp
  next
    case (destroy b H s a)
    then show ?thesis using destroy_inv [of e s H b a] step.IH by simp
  qed
qed



definition plain_env :: dom_env where
  "plain_env = \<lparr>v_pin = - 1, v_base = 0, v_default = 0, v_ceil_mb = None, v_uncached = False, v_sram_total = 0\<rparr>"

definition answer_at :: "nat \<Rightarrow> answers" where
  "answer_at addr = \<lparr>a_create = (\<lambda>_. Some (5, addr, 77, 0)), a_map = True, a_mmap = Some 4096, a_heap = Some 9,
     a_setdom = True, a_prime = True, a_import = Some (6, addr, 78), a_destroy = True\<rparr>"

definition no_dma :: dma where
  "no_dma = \<lparr>dm_iova = (\<lambda>_. 0), dm_live = [], dm_sram_got = 0, dm_objs = [], dm_maps = [], dm_fds = []\<rparr>"

lemma plain_ceiling: "ork_iova_ceiling plain_env = 4089446400"
  by (simp add: ork_iova_ceiling_def plain_env_def ORK_IOVA_CEIL_DEFAULT_MB_def Let_def)

lemma plain_create:
  "orki_bcreate plain_env (answer_at addr) 100 0x403 2 no_dma =
     (if orki_dma_fits32 addr 4096 then
        (\<lparr>bf_handle = 5, bf_dma = addr, bf_obj = 77, bf_cpu = 4096, bf_size = 4096, bf_heap = 0, bf_dom = 2\<rparr>,
         no_dma\<lparr>dm_iova := (\<lambda>_. 0)(2 := 4096), dm_live := [(5, 77)], dm_objs := [(5, 2, 4096)], dm_maps := [4096]\<rparr>)
      else (no_buf, no_dma\<lparr>dm_iova := (\<lambda>_. 0)(2 := 4096), dm_objs := [(5, 2, 4096)], dm_maps := [4096]\<rparr>))"
  by (simp add: orki_bcreate_def ork_iova_reserve_def plain_ceiling tracked_def ORK_IOVA_NDOM_def mem_create_def answer_at_def
      k_mapped_def k_mmap_def orki_live_add_def no_dma_def Let_def orki_pgup_def)
    (simp add: ork_dom_def plain_env_def)




end
