(* ===== verification/Dma_Table.thy ===== *)
theory Dma_Table
  imports Dma_Buf "HOL-Library.Multiset"
begin

section \<open>The zero-copy table and the weight arena: \<open>src/npu/core/buf.c\<close>, \<open>src/npu/core/domain.c\<close>\<close>

text \<open>
  The buffers a caller got from \<open>ork_dma_alloc\<close> and its kin stand in a table of 64; a matmul asks the table
  whether its operands lie in one of them. Weights are carved out of large arena chunks. The context is the
  part of \<open>ork_npu\<close> these operations touch; \<open>cx_anchor\<close> is the array of per-domain anchors, taken as large
  enough (growing it only fails when memory is out).
\<close>

record ctx =
  cx_dma :: dma
  cx_tab :: "buf list"
  cx_pack_dom :: int
  cx_anchor :: "int \<Rightarrow> buf"
  cx_chunks :: "buf list"
  cx_off :: nat

definition TAB_MAX :: nat where "TAB_MAX = 64"

subsection \<open>Anchors\<close>

text \<open>\<open>bimp\<close> is \<open>ORK_BIMPORT_DOM\<close>. The callees apply \<open>ork_dom\<close> to the domain they are given, as here.\<close>

definition anchor_buf :: "dom_env \<Rightarrow> bool \<Rightarrow> answers \<Rightarrow> int \<Rightarrow> dma \<Rightarrow> buf \<times> dma" where
  "anchor_buf e bimp a d s = (if bimp then orki_bimport e a 65536 d s else orki_bcreate e a 65536 0x403 d s)"

definition set_anchor :: "dom_env \<Rightarrow> bool \<Rightarrow> answers \<Rightarrow> int \<Rightarrow> ctx \<Rightarrow> ctx" where
  "set_anchor e bimp a d c =
     (let (b, s) = anchor_buf e bimp a d (cx_dma c) in c\<lparr>cx_dma := s, cx_anchor := (cx_anchor c)(d := b)\<rparr>)"

definition ork_dom_prime :: "dom_env \<Rightarrow> bool \<Rightarrow> answers \<Rightarrow> int \<Rightarrow> ctx \<Rightarrow> ctx" where
  "ork_dom_prime e bimp a dmn c =
     (let d = ork_dom e dmn in
      if d \<le> 0 then c else if bf_cpu (cx_anchor c d) \<noteq> 0 then c else set_anchor e bimp a d c)"

definition ork_dom_reanchor :: "dom_env \<Rightarrow> bool \<Rightarrow> answers \<Rightarrow> int \<Rightarrow> ctx \<Rightarrow> ctx" where
  "ork_dom_reanchor e bimp a dmn c =
     (let d = ork_dom e dmn in
      if d \<le> 0 then c
      else
        let c = (if bf_cpu (cx_anchor c d) \<noteq> 0 then
                   let (b, s) = orki_bdestroy a (cx_anchor c d) (cx_dma c)
                   in c\<lparr>cx_dma := s, cx_anchor := (cx_anchor c)(d := b)\<rparr>
                 else c)
        in set_anchor e bimp a d c)"

definition orki_bscratch :: "dom_env \<Rightarrow> bool \<Rightarrow> answers \<Rightarrow> nat \<Rightarrow> 32 word \<Rightarrow> int \<Rightarrow> dma \<Rightarrow> buf \<times> dma" where
  "orki_bscratch e bimp a bytes flags dmn s =
     (if bimp \<and> 0 < ork_dom e dmn then orki_bimport_f e a bytes dmn (flags AND MEM_KERNEL_MAPPING) s
      else orki_bcreate e a bytes flags dmn s)"

subsection \<open>The table\<close>

definition into_tab :: "buf \<times> dma \<Rightarrow> ctx \<Rightarrow> nat \<times> ctx" where
  "into_tab r c =
     (if bf_cpu (fst r) = 0 then (0, c\<lparr>cx_dma := snd r\<rparr>)
      else (bf_cpu (fst r), c\<lparr>cx_dma := snd r, cx_tab := cx_tab c @ [fst r]\<rparr>))"

definition ork_dma_alloc_flags :: "dom_env \<Rightarrow> answers \<Rightarrow> nat \<Rightarrow> 32 word \<Rightarrow> ctx \<Rightarrow> nat \<times> ctx" where
  "ork_dma_alloc_flags e a bytes flags c =
     (if length (cx_tab c) \<ge> TAB_MAX then (0, c) else into_tab (orki_bcreate e a bytes flags (cx_pack_dom c) (cx_dma c)) c)"

definition ork_dma_alloc :: "dom_env \<Rightarrow> answers \<Rightarrow> nat \<Rightarrow> ctx \<Rightarrow> nat \<times> ctx" where
  "ork_dma_alloc e a bytes c =
     (if length (cx_tab c) \<ge> TAB_MAX then (0, c) else into_tab (orki_bcreate e a bytes 0x401 (cx_pack_dom c) (cx_dma c)) c)"

definition ork_dma_alloc_sram :: "dom_env \<Rightarrow> answers \<Rightarrow> nat \<Rightarrow> ctx \<Rightarrow> nat \<times> ctx" where
  "ork_dma_alloc_sram e a bytes c = ork_dma_alloc_flags e a bytes (0x401 OR MEM_TRY_ALLOC_SRAM) c"

text \<open>\<open>aa\<close>: the answers to the anchor's calls, \<open>a\<close> those to the import's.\<close>

definition ork_dma_import :: "dom_env \<Rightarrow> bool \<Rightarrow> answers \<Rightarrow> answers \<Rightarrow> nat \<Rightarrow> ctx \<Rightarrow> nat \<times> ctx" where
  "ork_dma_import e bimp aa a bytes c =
     (if length (cx_tab c) \<ge> TAB_MAX then (0, c)
      else let c = ork_dom_prime e bimp aa (cx_pack_dom c) c
           in into_tab (orki_bimport e a bytes (cx_pack_dom c) (cx_dma c)) c)"

definition ork_dma_import_fd :: "dom_env \<Rightarrow> bool \<Rightarrow> answers \<Rightarrow> answers \<Rightarrow> int \<Rightarrow> nat \<Rightarrow> ctx \<Rightarrow> nat \<times> ctx" where
  "ork_dma_import_fd e bimp aa a fd bytes c =
     (if fd < 0 \<or> length (cx_tab c) \<ge> TAB_MAX then (0, c)
      else let c = ork_dom_prime e bimp aa (cx_pack_dom c) c
           in into_tab (orki_bimport_fd e a fd bytes (cx_pack_dom c) (cx_dma c)) c)"

definition ork_dma_free :: "answers \<Rightarrow> nat \<Rightarrow> ctx \<Rightarrow> ctx" where
  "ork_dma_free a ptr c =
     (if ptr = 0 then c
      else case find (\<lambda>b. bf_cpu b = ptr) (cx_tab c) of
        None \<Rightarrow> c
      | Some b \<Rightarrow> c\<lparr>cx_dma := snd (orki_bdestroy a b (cx_dma c)), cx_tab := swap_out (\<lambda>b. bf_cpu b = ptr) (cx_tab c)\<rparr>)"

definition ork_dma_import_free :: "answers \<Rightarrow> nat \<Rightarrow> ctx \<Rightarrow> ctx" where
  "ork_dma_import_free a ptr c = ork_dma_free a ptr c"

definition covers :: "buf \<Rightarrow> nat \<Rightarrow> bool" where
  "covers b p \<longleftrightarrow> bf_cpu b \<le> p \<and> p < bf_cpu b + bf_size b"

definition orki_dma_find :: "ctx \<Rightarrow> nat \<Rightarrow> buf option" where
  "orki_dma_find c p = find (\<lambda>b. covers b p) (cx_tab c)"

text \<open>A scratch or table buffer that holds a 32-bit device address.\<close>

definition holds_dma :: "buf \<Rightarrow> nat \<Rightarrow> bool" where
  "holds_dma b addr \<longleftrightarrow> bf_cpu b \<noteq> 0 \<and> bf_dma b \<le> addr \<and> addr < bf_dma b + bf_size b"

definition orki_is_valid_dma_addr :: "buf list \<Rightarrow> ctx \<Rightarrow> nat \<Rightarrow> buf list option \<Rightarrow> buf list \<Rightarrow> bool" where
  "orki_is_valid_dma_addr scratch c addr w extra =
     (if addr = 0 then False
      else list_ex (\<lambda>b. holds_dma b addr) scratch \<or> list_ex (\<lambda>b. holds_dma b addr) (cx_tab c)
        \<or> (case w of None \<Rightarrow> False | Some bs \<Rightarrow> list_ex (\<lambda>b. holds_dma b addr) bs)
        \<or> list_ex (\<lambda>b. holds_dma b addr) extra)"

subsection \<open>The arena and the resident size\<close>

text \<open>\<open>mb\<close> is \<open>ORK_WARENA_CHUNK_MB\<close>. The result is the chunk's index and the offset in it.\<close>

definition chunk_bytes :: "int option \<Rightarrow> nat \<Rightarrow> nat" where
  "chunk_bytes mb al = (let csz = nat (case mb of None \<Rightarrow> 1024 | Some v \<Rightarrow> v) * 1048576 mod 18446744073709551616
     in if al > csz then al else csz)"

definition arena_grant :: "nat \<Rightarrow> ctx \<Rightarrow> (nat \<times> nat) option \<times> ctx" where
  "arena_grant al c = (Some (length (cx_chunks c) - 1, cx_off c), c\<lparr>cx_off := cx_off c + al\<rparr>)"

definition orki_warena_reserve :: "dom_env \<Rightarrow> int option \<Rightarrow> answers \<Rightarrow> nat \<Rightarrow> ctx \<Rightarrow> (nat \<times> nat) option \<times> ctx" where
  "orki_warena_reserve e mb a need c =
     (let al = orki_pgup need in
      if cx_chunks c = [] \<or> cx_off c + al > bf_size (last (cx_chunks c)) then
        if length (cx_chunks c) \<ge> 64 then (None, c)
        else if (case mb of None \<Rightarrow> 1024 | Some v \<Rightarrow> v) \<le> 0 then (None, c)
        else let (b, s) = orki_bcreate e a (chunk_bytes mb al) 0x403 (- 1) (cx_dma c) in
          if bf_cpu b = 0 then (None, c\<lparr>cx_dma := s\<rparr>)
          else arena_grant al (c\<lparr>cx_dma := s, cx_chunks := cx_chunks c @ [b], cx_off := 0\<rparr>)
      else arena_grant al c)"

text \<open>The bytes of one weight resident at \<open>wbits\<close>; \<open>no_bf\<close> is \<open>ORK_NO_BF\<close>.\<close>

definition ORK_I4_KS :: nat where "ORK_I4_KS = 10752"

definition c_slice :: "nat \<Rightarrow> nat \<Rightarrow> nat \<Rightarrow> nat" where
  "c_slice whole st i = (if whole - i * st < st then whole - i * st else st)"

definition ork_w_resident_bytes :: "bool \<Rightarrow> nat option \<Rightarrow> int \<Rightarrow> int \<Rightarrow> nat \<Rightarrow> int \<Rightarrow> nat" where
  "ork_w_resident_bytes no_bf soc_nmax K N wbits want_bf =
     (if K \<le> 0 \<or> N \<le> 0 then 0
      else
        let NMAX = (case soc_nmax of None \<Rightarrow> 8192 | Some v \<Rightarrow> v); KS = (if wbits = 8 then 1024 else ORK_I4_KS);
            K = nat K; N = nat N; Sk = (K + KS - 1) div KS; Sn = (N + NMAX - 1) div NMAX;
            tot = (\<Sum>ns\<leftarrow>[0..<Sn]. \<Sum>ks\<leftarrow>[0..<Sk].
                     orki_pgup (c_slice K KS ks * c_slice N NMAX ns div (if wbits = 8 then 1 else 2)));
            bf = (if want_bf < 0 then \<not> no_bf else want_bf \<noteq> 0)
        in if wbits = 8 \<and> K \<le> 10752 \<and> bf then tot + (\<Sum>ns\<leftarrow>[0..<Sn]. orki_pgup (K * c_slice N NMAX ns)) else tot)"


subsection \<open>The table finds the owner of an address\<close>

definition apart :: "buf \<Rightarrow> buf \<Rightarrow> bool" where
  "apart a b \<longleftrightarrow> bf_cpu a + bf_size a \<le> bf_cpu b \<or> bf_cpu b + bf_size b \<le> bf_cpu a"

lemma apart_sym: "apart a b = apart b a"
  by (auto simp: apart_def)

text \<open>What \<open>mmap\<close> promises: not address 0, never for length 0, and a region nobody else has.\<close>

definition fresh_map :: "answers \<Rightarrow> nat \<Rightarrow> buf list \<Rightarrow> bool" where
  "fresh_map a n tab \<longleftrightarrow> n < 9223372036854775808 \<and> (\<forall>p. a_mmap a = Some p \<longrightarrow> p \<noteq> 0 \<and> 0 < n
     \<and> (\<forall>b \<in> set tab. p + orki_pgup n \<le> bf_cpu b \<or> bf_cpu b + bf_size b \<le> p))"

inductive tab_step :: "dom_env \<Rightarrow> ctx \<Rightarrow> ctx \<Rightarrow> bool" for e where
  alloc: "fresh_map a n (cx_tab c) \<Longrightarrow> tab_step e c (snd (ork_dma_alloc e a n c))"
| alloc_flags: "fresh_map a n (cx_tab c) \<Longrightarrow> tab_step e c (snd (ork_dma_alloc_flags e a n fl c))"
| import_heap: "fresh_map a n (cx_tab c) \<Longrightarrow> tab_step e c (snd (ork_dma_import e bimp aa a n c))"
| import_fd: "fresh_map a n (cx_tab c) \<Longrightarrow> tab_step e c (snd (ork_dma_import_fd e bimp aa a fd n c))"
| free: "tab_step e c (ork_dma_free a ptr c)"

inductive tab_reach :: "dom_env \<Rightarrow> ctx \<Rightarrow> bool" for e where
  start: "cx_tab c = [] \<Longrightarrow> tab_reach e c"
| step: "tab_reach e c \<Longrightarrow> tab_step e c c' \<Longrightarrow> tab_reach e c'"

definition tab_inv :: "buf list \<Rightarrow> bool" where
  "tab_inv tab \<longleftrightarrow> length tab \<le> TAB_MAX \<and> sorted_wrt apart tab \<and> (\<forall>b \<in> set tab. bf_cpu b \<noteq> 0 \<and> 0 < bf_size b)"

text \<open>A buffer handed out has the address and the size of its mapping.\<close>

lemma bcreate_shape: "bf_cpu (fst (orki_bcreate e a n fl d s)) \<noteq> 0 \<Longrightarrow>
    a_mmap a = Some (bf_cpu (fst (orki_bcreate e a n fl d s))) \<and> bf_size (fst (orki_bcreate e a n fl d s)) = orki_pgup n"
  by (auto simp: orki_bcreate_def Let_def split: option.splits prod.splits if_splits)

lemma import_tail_shape:
  "0 < bf_cpu (fst (import_tail e a dbuf p sz d undo s)) \<Longrightarrow> p = bf_cpu (fst (import_tail e a dbuf p sz d undo s))"
  "0 < bf_cpu (fst (import_tail e a dbuf p sz d undo s)) \<Longrightarrow> bf_size (fst (import_tail e a dbuf p sz d undo s)) = sz"
  by (auto simp: import_tail_def Let_def split: option.splits prod.splits if_splits)

lemma bimport_shape:
  "bf_cpu (fst (orki_bimport_f e a n d fl s)) \<noteq> 0 \<Longrightarrow>
    a_mmap a = Some (bf_cpu (fst (orki_bimport_f e a n d fl s))) \<and> bf_size (fst (orki_bimport_f e a n d fl s)) = orki_pgup n"
  "bf_cpu (fst (orki_bimport_fd e a fd n d s)) \<noteq> 0 \<Longrightarrow>
    a_mmap a = Some (bf_cpu (fst (orki_bimport_fd e a fd n d s))) \<and> bf_size (fst (orki_bimport_fd e a fd n d s)) = orki_pgup n"
  by (auto simp: orki_bimport_f_def orki_bimport_fd_def Let_def intro: import_tail_shape split: option.splits if_splits)

lemma into_tab_inv:
  assumes "tab_inv (cx_tab c)" "length (cx_tab c) < TAB_MAX" "fresh_map a n (cx_tab c)"
    and "bf_cpu (fst r) \<noteq> 0 \<Longrightarrow> a_mmap a = Some (bf_cpu (fst r)) \<and> bf_size (fst r) = orki_pgup n"
  shows "tab_inv (cx_tab (snd (into_tab r c)))"
proof (cases "bf_cpu (fst r) = 0")
  case False
  have "n \<le> orki_pgup n" using assms(3) pgup_ge [of n] by (simp add: fresh_map_def)
  with False assms show ?thesis
    by (auto simp: into_tab_def tab_inv_def sorted_wrt_append apart_def fresh_map_def)
qed (use assms in \<open>simp add: into_tab_def\<close>)

lemma swap_out_set: "set (swap_out P xs) \<subseteq> set xs"
  by (induction xs) (auto simp: in_set_butlastD)

lemma swap_out_length: "length (swap_out P xs) \<le> length xs"
  by (induction xs) auto

lemma swap_out_sorted:
  assumes "\<And>a b. R a b = R b a"
  shows "sorted_wrt R xs \<Longrightarrow> sorted_wrt R (swap_out P xs)"
proof (induction xs)
  case (Cons x xs)
  show ?case
  proof (cases "P x")
    case True
    show ?thesis
    proof (cases "xs = []")
      case False
      then obtain ys y where "xs = ys @ [y]" by (metis rev_exhaust)
      then show ?thesis using True Cons.prems assms by (auto simp: sorted_wrt_append)
    qed (use True in simp)
  next
    case False
    then show ?thesis using Cons swap_out_set [of P xs] by auto
  qed
qed simp

lemma prime_tab [simp]: "cx_tab (ork_dom_prime e bimp a d c) = cx_tab c"
  by (simp add: ork_dom_prime_def set_anchor_def Let_def split: prod.split)

lemma tab_reach_inv: "tab_reach e c \<Longrightarrow> tab_inv (cx_tab c)"
proof (induction rule: tab_reach.induct)
  case (start c)
  then show ?case by (simp add: tab_inv_def)
next
  case (step c c')
  from step.hyps(2) show ?case
  proof cases
    case (alloc a n)
    then show ?thesis using step.IH into_tab_inv [OF step.IH _ alloc(2)] bcreate_shape
      by (simp add: ork_dma_alloc_def)
  next
    case (alloc_flags a n fl)
    then show ?thesis using step.IH into_tab_inv [OF step.IH _ alloc_flags(2)] bcreate_shape
      by (simp add: ork_dma_alloc_flags_def)
  next
    case (import_heap a n bimp aa)
    then show ?thesis
      using step.IH into_tab_inv [of "ork_dom_prime e bimp aa (cx_pack_dom c) c" a n] bimport_shape(1)
      by (simp add: ork_dma_import_def orki_bimport_def Let_def)
  next
    case (import_fd a n bimp aa fd)
    then show ?thesis
      using step.IH into_tab_inv [of "ork_dom_prime e bimp aa (cx_pack_dom c) c" a n] bimport_shape(2)
      by (simp add: ork_dma_import_fd_def Let_def)
  next
    case (free a ptr)
    show ?thesis
      using step.IH swap_out_sorted [of apart "cx_tab c" "\<lambda>b. bf_cpu b = ptr"] apart_sym
        swap_out_length [of "\<lambda>b. bf_cpu b = ptr" "cx_tab c"] swap_out_set [of "\<lambda>b. bf_cpu b = ptr" "cx_tab c"]
      unfolding free by (auto simp: ork_dma_free_def tab_inv_def split: option.split)
  qed
qed


lemma swap_out_mset: "find P xs = Some b \<Longrightarrow> mset (swap_out P xs) + {#b#} = mset xs"
proof (induction xs)
  case (Cons x xs)
  show ?case
  proof (cases "P x")
    case True
    then have b: "b = x" using Cons.prems by simp
    show ?thesis
    proof (cases "xs = []")
      case False
      then obtain ys y where "xs = ys @ [y]" by (metis rev_exhaust)
      then show ?thesis using True b by simp
    qed (use True b in simp)
  qed (use Cons in auto)
qed simp

lemma covers_unique:
  assumes "tab_inv tab" "a \<in> set tab" "b \<in> set tab" "covers a p" "covers b p"
  shows "a = b"
proof (rule ccontr)
  assume ne: "a \<noteq> b"
  obtain i j where ij: "i < length tab" "j < length tab" "tab ! i = a" "tab ! j = b"
    using assms(2,3) by (metis in_set_conv_nth)
  with ne have "i < j \<or> j < i" by (metis nat_neq_iff)
  then have "apart a b \<or> apart b a"
    using assms(1) ij sorted_wrt_nth_less [of apart tab i j] sorted_wrt_nth_less [of apart tab j i]
    by (auto simp: tab_inv_def)
  then show False using assms(4,5) by (auto simp: apart_def covers_def)
qed

lemma tab_distinct: "tab_inv tab \<Longrightarrow> distinct tab"
  unfolding tab_inv_def by (induction tab) (auto simp: apart_def, fastforce)

text \<open>C30: the zero-copy table. In every state the allocations, imports and frees reach, an address inside
  a registered buffer is found, and found in that buffer; any other address is not found; the table never
  holds more than its 64 entries; and freeing a buffer removes that entry and no other, wherever the
  swap with the last entry moves them.\<close>

theorem dma_find_owner:
  assumes "tab_reach e c"
  shows "length (cx_tab c) \<le> 64
    \<and> (\<forall>b \<in> set (cx_tab c). \<forall>p. covers b p \<longrightarrow> orki_dma_find c p = Some b)
    \<and> (\<forall>p. (\<forall>b \<in> set (cx_tab c). \<not> covers b p) \<longrightarrow> orki_dma_find c p = None)
    \<and> (\<forall>b \<in> set (cx_tab c). \<forall>a. set (cx_tab (ork_dma_free a (bf_cpu b) c)) = set (cx_tab c) - {b})"
proof -
  note inv = tab_reach_inv [OF assms]
  have f: "orki_dma_find c p = Some b" if h: "b \<in> set (cx_tab c)" "covers b p" for b p
  proof -
    obtain b' where b': "orki_dma_find c p = Some b'"
      by (cases "orki_dma_find c p") (use h in \<open>auto simp: orki_dma_find_def find_None_iff\<close>)
    then have "b' \<in> set (cx_tab c)" "covers b' p" by (auto simp: orki_dma_find_def find_Some_iff)
    then show ?thesis using covers_unique [OF inv _ h(1) _ h(2)] b' by blast
  qed
  have "set (cx_tab (ork_dma_free a (bf_cpu b) c)) = set (cx_tab c) - {b}" if b: "b \<in> set (cx_tab c)" for a b
  proof -
    have nz: "bf_cpu b \<noteq> 0" "0 < bf_size b" using inv b by (auto simp: tab_inv_def)
    obtain b' where b': "find (\<lambda>x. bf_cpu x = bf_cpu b) (cx_tab c) = Some b'"
      by (cases "find (\<lambda>x. bf_cpu x = bf_cpu b) (cx_tab c)") (use b in \<open>auto simp: find_None_iff\<close>)
    then have "b' \<in> set (cx_tab c)" "bf_cpu b' = bf_cpu b" by (auto simp: find_Some_iff)
    moreover from this have "0 < bf_size b'" using inv by (auto simp: tab_inv_def)
    ultimately have "b' = b" using covers_unique [OF inv _ b, of b' "bf_cpu b"] nz by (simp add: covers_def)
    then have m: "mset (swap_out (\<lambda>x. bf_cpu x = bf_cpu b) (cx_tab c)) = mset (cx_tab c) - {#b#}"
      using swap_out_mset [OF b'] by (metis add_diff_cancel_right')
    have "set (swap_out (\<lambda>x. bf_cpu x = bf_cpu b) (cx_tab c)) = set_mset (mset (cx_tab c) - {#b#})"
      unfolding m [symmetric] by simp
    also have "\<dots> = set (cx_tab c) - {b}"
      using tab_distinct [OF inv] by (simp add: mset_remove1 [symmetric] set_remove1_eq del: mset_remove1)
    finally show ?thesis using b' nz by (simp add: ork_dma_free_def)
  qed
  then show ?thesis using f inv by (auto simp: tab_inv_def TAB_MAX_def orki_dma_find_def find_None_iff)
qed

definition demo_ctx :: ctx where
  "demo_ctx = \<lparr>cx_dma = no_dma, cx_tab = [], cx_pack_dom = 2, cx_anchor = (\<lambda>_. no_buf), cx_chunks = [], cx_off = 0\<rparr>"

theorem dma_find_owner_witness:
  "\<exists>b. orki_dma_find (snd (ork_dma_alloc_flags plain_env (answer_at 0) 100 0x403 demo_ctx)) 5000 = Some b \<and> bf_dom b = 2"
proof -
  let ?c = "snd (ork_dma_alloc_flags plain_env (answer_at 0) 100 0x403 demo_ctx)"
  let ?b = "\<lparr>bf_handle = 5, bf_dma = 0, bf_obj = 77, bf_cpu = 4096, bf_size = 4096, bf_heap = 0, bf_dom = 2\<rparr>"
  have "tab_reach plain_env demo_ctx" by (rule tab_reach.start) (simp add: demo_ctx_def)
  moreover have "tab_step plain_env demo_ctx ?c"
    by (rule tab_step.alloc_flags) (simp add: fresh_map_def demo_ctx_def answer_at_def)
  ultimately have r: "tab_reach plain_env ?c" by (rule tab_reach.step)
  have t: "cx_tab ?c = [?b]"
    by (simp add: ork_dma_alloc_flags_def demo_ctx_def TAB_MAX_def plain_create orki_dma_fits32_def into_tab_def)
  have "orki_dma_find ?c 5000 = Some ?b"
    using dma_find_owner [OF r, THEN conjunct2, THEN conjunct1] by (simp add: t covers_def)
  then show ?thesis by auto
qed


subsection \<open>The arena and the domains\<close>

text \<open>A granted range (chunk, offset, length), and what the bump allocator keeps of all of them.\<close>

fun granted :: "buf list \<Rightarrow> nat \<Rightarrow> nat \<times> nat \<times> nat \<Rightarrow> bool" where
  "granted cs off (i, base, al) \<longleftrightarrow> i < length cs \<and> base + al \<le> bf_size (cs ! i) \<and> 4096 dvd base
     \<and> (i = length cs - 1 \<longrightarrow> base + al \<le> off)"

fun before :: "nat \<times> nat \<times> nat \<Rightarrow> nat \<times> nat \<times> nat \<Rightarrow> bool" where
  "before (i, base, al) (i', base', al') \<longleftrightarrow> i < i' \<or> i = i' \<and> base + al \<le> base'"

definition arena_inv :: "(nat \<times> nat \<times> nat) list \<Rightarrow> ctx \<Rightarrow> bool" where
  "arena_inv gs c \<longleftrightarrow> (\<forall>g \<in> set gs. granted (cx_chunks c) (cx_off c) g) \<and> 4096 dvd cx_off c \<and> sorted_wrt before gs"

fun reserve_all :: "dom_env \<Rightarrow> int option \<Rightarrow> (answers \<times> nat) list \<Rightarrow> ctx \<Rightarrow> (nat \<times> nat \<times> nat) list \<times> ctx" where
  "reserve_all e mb [] c = ([], c)"
| "reserve_all e mb ((a, need) # rs) c =
     (let (g, c') = orki_warena_reserve e mb a need c; (gs, c'') = reserve_all e mb rs c'
      in ((case g of None \<Rightarrow> [] | Some (i, base) \<Rightarrow> [(i, base, orki_pgup need)]) @ gs, c''))"

lemma warena_cases:
  assumes "orki_warena_reserve e mb a need c = (g, c')"
  obtains (refused) "g = None" "cx_chunks c' = cx_chunks c" "cx_off c' = cx_off c"
  | (same) "cx_chunks c \<noteq> []" "cx_off c + orki_pgup need \<le> bf_size (last (cx_chunks c))"
      "g = Some (length (cx_chunks c) - 1, cx_off c)" "c' = c\<lparr>cx_off := cx_off c + orki_pgup need\<rparr>"
  | (opened) b s where "orki_bcreate e a (chunk_bytes mb (orki_pgup need)) 0x403 (- 1) (cx_dma c) = (b, s)" "bf_cpu b \<noteq> 0"
      "g = Some (length (cx_chunks c), 0)"
      "c' = c\<lparr>cx_dma := s, cx_chunks := cx_chunks c @ [b], cx_off := orki_pgup need\<rparr>"
proof -
  obtain b s where b: "orki_bcreate e a (chunk_bytes mb (orki_pgup need)) 0x403 (- 1) (cx_dma c) = (b, s)"
    by (cases "orki_bcreate e a (chunk_bytes mb (orki_pgup need)) 0x403 (- 1) (cx_dma c)")
  let ?open = "cx_chunks c = [] \<or> cx_off c + orki_pgup need > bf_size (last (cx_chunks c))"
  let ?mb = "case mb of None \<Rightarrow> 1024 | Some v \<Rightarrow> v"
  consider (a) "\<not> ?open" | (b) "?open" "64 \<le> length (cx_chunks c) \<or> ?mb \<le> 0"
    | (c) "?open" "\<not> (64 \<le> length (cx_chunks c) \<or> ?mb \<le> 0)" "bf_cpu b = 0"
    | (d) "?open" "\<not> (64 \<le> length (cx_chunks c) \<or> ?mb \<le> 0)" "bf_cpu b \<noteq> 0" by blast
  then show thesis
  proof cases
    case a
    then have "(g, c') = arena_grant (orki_pgup need) c" using assms by (simp only: orki_warena_reserve_def Let_def if_False)
    then show thesis using a by (intro same) (simp_all add: arena_grant_def not_less)
  next
    case b
    then have "(g, c') = (None, c)"
      using assms by (simp only: orki_warena_reserve_def Let_def if_True) (auto split: if_splits)
    then show thesis by (intro refused) simp_all
  next
    case c
    then have "(g, c') = (None, c\<lparr>cx_dma := s\<rparr>)"
      using assms b by (simp only: orki_warena_reserve_def Let_def if_True if_False) (auto split: if_splits)
    then show thesis by (intro refused) simp_all
  next
    case d
    then have "(g, c') = arena_grant (orki_pgup need) (c\<lparr>cx_dma := s, cx_chunks := cx_chunks c @ [b], cx_off := 0\<rparr>)"
      using assms b by (simp only: orki_warena_reserve_def Let_def if_True if_False) (auto split: if_splits)
    then show thesis using b d(3) by (intro opened [OF b]) (simp_all add: arena_grant_def)
  qed
qed

lemma granted_later: "granted cs off g \<Longrightarrow> off \<le> off' \<Longrightarrow> granted cs off' g"
  by (cases g) auto

lemma granted_more: "granted cs off g \<Longrightarrow> granted (cs @ [b]) off' g"
  by (cases g) (auto simp: nth_append)

lemma warena_step:
  assumes "arena_inv gs c" "need < 9223372036854775808" "\<forall>v. mb = Some v \<longrightarrow> v \<le> 1048576"
    "orki_warena_reserve e mb a need c = (g, c')"
  shows "arena_inv (gs @ (case g of None \<Rightarrow> [] | Some (i, base) \<Rightarrow> [(i, base, orki_pgup need)])) c'"
proof -
  have al: "4096 dvd orki_pgup need" using pgup_ge [OF assms(2)] by simp
  from assms(4) show ?thesis
  proof (cases rule: warena_cases)
    case refused
    with assms(1) show ?thesis by (simp add: arena_inv_def)
  next
    case same
    let ?g = "(length (cx_chunks c) - 1, cx_off c, orki_pgup need)"
    have "granted (cx_chunks c') (cx_off c') ?g" using same assms(1) by (simp add: last_conv_nth arena_inv_def)
    moreover have "\<forall>g \<in> set gs. granted (cx_chunks c') (cx_off c') g \<and> before g ?g"
    proof
      fix g assume "g \<in> set gs"
      then have g: "granted (cx_chunks c) (cx_off c) g" using assms(1) by (simp add: arena_inv_def)
      then have "before g ?g" by (cases g) auto
      with granted_later [OF g, of "cx_off c'"] same show "granted (cx_chunks c') (cx_off c') g \<and> before g ?g" by simp
    qed
    ultimately show ?thesis
      using assms(1) same(3,4) al by (auto simp: arena_inv_def sorted_wrt_append dvd_add)
  next
    case (opened b s)
    let ?g = "(length (cx_chunks c), 0, orki_pgup need)"
    have csz: "orki_pgup need \<le> chunk_bytes mb (orki_pgup need)" by (simp add: chunk_bytes_def Let_def)
    have "chunk_bytes mb (orki_pgup need) < 9223372036854775808 \<or> chunk_bytes mb (orki_pgup need) = orki_pgup need"
    proof -
      have "nat (case mb of None \<Rightarrow> 1024 | Some v \<Rightarrow> v) \<le> 1048576" using assms(3) by (cases mb) auto
      then have "nat (case mb of None \<Rightarrow> 1024 | Some v \<Rightarrow> v) * 1048576 < 9223372036854775808" by linarith
      then show ?thesis by (auto simp: chunk_bytes_def Let_def)
    qed
    then have "orki_pgup need \<le> orki_pgup (chunk_bytes mb (orki_pgup need))"
    proof
      assume "chunk_bytes mb (orki_pgup need) < 9223372036854775808"
      then show ?thesis using pgup_ge csz le_trans by blast
    next
      assume e: "chunk_bytes mb (orki_pgup need) = orki_pgup need"
      obtain k where k: "orki_pgup need = 4096 * k" using al by (auto elim: dvdE)
      have "4096 * k + 4095 < 18446744073709551616" using pgup_ge [OF assms(2)] assms(2) k by linarith
      then have "orki_pgup (4096 * k) = (4096 * k + 4095) div 4096 * 4096" by (simp add: orki_pgup_def)
      then show ?thesis unfolding e by (simp add: k)
    qed
    moreover have "bf_size b = orki_pgup (chunk_bytes mb (orki_pgup need))"
      using bcreate_shape [of e a "chunk_bytes mb (orki_pgup need)" "0x403" "- 1" "cx_dma c"] opened(1,2) by simp
    ultimately have "granted (cx_chunks c') (cx_off c') ?g" using opened by simp
    moreover have "\<forall>g \<in> set gs. granted (cx_chunks c') (cx_off c') g \<and> before g ?g"
    proof
      fix g assume "g \<in> set gs"
      then have g: "granted (cx_chunks c) (cx_off c) g" using assms(1) by (simp add: arena_inv_def)
      then have "before g ?g" by (cases g) auto
      with granted_more [OF g] opened(4) show "granted (cx_chunks c') (cx_off c') g \<and> before g ?g" by simp
    qed
    ultimately show ?thesis
      using assms(1) opened(3,4) al by (auto simp: arena_inv_def sorted_wrt_append)
  qed
qed

lemma reserve_all_inv:
  assumes "arena_inv gs c" "\<forall>(a, need) \<in> set rs. need < 9223372036854775808" "\<forall>v. mb = Some v \<longrightarrow> v \<le> 1048576"
    "reserve_all e mb rs c = (new, c')"
  shows "arena_inv (gs @ new) c'"
  using assms
proof (induction rs arbitrary: gs c new c')
  case (Cons r rs)
  obtain a need where r: "r = (a, need)" by (cases r)
  obtain g c1 where s: "orki_warena_reserve e mb a need c = (g, c1)" by (cases "orki_warena_reserve e mb a need c")
  obtain new' c2 where t: "reserve_all e mb rs c1 = (new', c2)" by (cases "reserve_all e mb rs c1")
  let ?n = "case g of None \<Rightarrow> [] | Some (i, base) \<Rightarrow> [(i, base, orki_pgup need)]"
  have "need < 9223372036854775808" using Cons.prems(2) r by simp
  from warena_step [OF Cons.prems(1) this Cons.prems(3) s] have "arena_inv (gs @ ?n) c1" by blast
  from Cons.IH [OF this _ _ t] have "arena_inv ((gs @ ?n) @ new') c2" using Cons.prems(2,3) by auto
  then show ?case using Cons.prems(4) by (simp add: r s t)
qed simp

text \<open>C31: the weight arena. The ranges any sequence of reservations hands out lie inside their chunks, start
  on a page and never overlap, whichever chunks had to be opened on the way and whichever requests failed.\<close>

theorem arena_ranges_disjoint:
  assumes "reserve_all e mb rs c = (gs, c')" "cx_chunks c = []" "cx_off c = 0"
    "\<forall>(a, need) \<in> set rs. need < 9223372036854775808" "\<forall>v. mb = Some v \<longrightarrow> v \<le> 1048576"
  shows "sorted_wrt (\<lambda>(i, base, al) (i', base', al'). i \<noteq> i' \<or> base + al \<le> base') gs
    \<and> (\<forall>(i, base, al) \<in> set gs. i < length (cx_chunks c') \<and> base + al \<le> bf_size (cx_chunks c' ! i) \<and> 4096 dvd base)"
proof -
  have "arena_inv [] c" using assms(2,3) by (simp add: arena_inv_def)
  from reserve_all_inv [OF this assms(4,5,1)] have inv: "arena_inv gs c'" by simp
  have "sorted_wrt before gs" using inv by (simp add: arena_inv_def)
  then have "sorted_wrt (\<lambda>(i, base, al) (i', base', al'). i \<noteq> i' \<or> base + al \<le> base') gs"
    by (rule sorted_wrt_mono_rel [rotated]) auto
  then show ?thesis using inv by (fastforce simp: arena_inv_def)
qed

theorem arena_ranges_disjoint_witness:
  "fst (reserve_all plain_env (Some 1) [(answer_at 0, 5000), (answer_at 0, 100)] demo_ctx) = [(0, 0, 8192), (0, 8192, 4096)]
   \<and> sorted_wrt (\<lambda>(i, base, al) (i', base', al'). i \<noteq> i' \<or> base + al \<le> base')
       (fst (reserve_all plain_env (Some 1) [(answer_at 0, 5000), (answer_at 0, 100)] demo_ctx))"
proof -
  let ?r = "reserve_all plain_env (Some 1) [(answer_at 0, 5000), (answer_at 0, 100)] demo_ctx"
  let ?b = "\<lparr>bf_handle = 5, bf_dma = 0, bf_obj = 77, bf_cpu = 4096, bf_size = 1048576, bf_heap = 0, bf_dom = 0\<rparr>"
  have "ork_dom plain_env (- 1) = 0" by (simp add: ork_dom_def plain_env_def)
  then have "fst (orki_bcreate plain_env (answer_at 0) 1048576 0x403 (- 1) no_dma) = ?b"
    by (simp add: orki_bcreate_def ork_iova_reserve_def plain_ceiling tracked_def ORK_IOVA_NDOM_def mem_create_def
        answer_at_def Let_def orki_pgup_def orki_dma_fits32_def no_dma_def k_mapped_def k_mmap_def)
  then obtain s where b: "orki_bcreate plain_env (answer_at 0) 1048576 0x403 (- 1) no_dma = (?b, s)" by (metis prod.collapse)
  have pg: "orki_pgup 5000 = 8192" "orki_pgup 100 = 4096" "chunk_bytes (Some 1) 8192 = 1048576"
    by (simp_all add: orki_pgup_def chunk_bytes_def)
  have e: "fst ?r = [(0, 0, 8192), (0, 8192, 4096)]"
    by (simp add: orki_warena_reserve_def pg b arena_grant_def demo_ctx_def)
  have "?r = (fst ?r, snd ?r)" by simp
  from arena_ranges_disjoint [OF this] have
    "sorted_wrt (\<lambda>(i, base, al) (i', base', al'). i \<noteq> i' \<or> base + al \<le> base') (fst ?r)"
    by (simp add: demo_ctx_def)
  then show ?thesis using e by blast
qed


text \<open>A domain is anchored in itself. When \<open>ork_dom_prime\<close> makes an anchor for a domain other than 0 the
  buffer is in that domain and its size is 64 KiB; the one exception is the diagnostic \<open>ORK_DOM_BASE\<close> without
  \<open>ORK_PIN_DOM\<close>, where the offset is applied twice and the anchor lands that much further up.\<close>

theorem anchor_in_its_domain:
  assumes "d = ork_dom e dmn" "0 < d" "bf_cpu (cx_anchor c d) = 0" "bf_cpu (cx_anchor (ork_dom_prime e bimp a dmn c) d) \<noteq> 0"
  shows "bf_dom (cx_anchor (ork_dom_prime e bimp a dmn c) d) = (if 0 < v_base e \<and> v_pin e < 0 then d + v_base e else d)
    \<and> bf_size (cx_anchor (ork_dom_prime e bimp a dmn c) d) = 65536"
proof -
  let ?r = "anchor_buf e bimp a d (cx_dma c)"
  have anc: "cx_anchor (ork_dom_prime e bimp a dmn c) d = fst ?r"
    using assms(1-3) by (simp add: ork_dom_prime_def set_anchor_def Let_def split: prod.split)
  then have nz: "bf_cpu (fst ?r) \<noteq> 0" using assms(4) by simp
  have pg: "orki_pgup 65536 = 65536" by (simp add: orki_pgup_def)
  have "bf_dom (fst (import_tail e a dbuf p sz dd undo s)) = dd" if "bf_cpu (fst (import_tail e a dbuf p sz dd undo s)) \<noteq> 0"
    for dbuf p sz dd undo s
    using that by (auto simp: import_tail_def Let_def split: option.splits prod.splits if_splits)
  then have "bf_dom (fst ?r) = ork_dom e d"
    using nz by (auto simp: anchor_buf_def orki_bimport_def orki_bimport_f_def orki_bcreate_def Let_def
        split: option.splits prod.splits if_splits)
  moreover have "ork_dom e d = (if 0 < v_base e \<and> v_pin e < 0 then d + v_base e else d)"
    using assms(1,2) by (auto simp: ork_dom_def Let_def)
  moreover have "bf_size (fst ?r) = 65536"
    using nz bcreate_shape [of e a 65536 "0x403" d "cx_dma c"] bimport_shape(1) [of e a 65536 d 0 "cx_dma c"] pg
    by (auto simp: anchor_buf_def orki_bimport_def split: if_splits)
  ultimately show ?thesis by (simp add: anc)
qed

theorem anchor_in_its_domain_witness:
  "bf_dom (cx_anchor (ork_dom_prime (plain_env\<lparr>v_base := 1\<rparr>) True (answer_at 0) 2 demo_ctx) 3) = 4"
proof -
  let ?e = "plain_env\<lparr>v_base := 1\<rparr>"
  have d: "ork_dom ?e 2 = 3" "ork_dom ?e 3 = 4" by (simp_all add: ork_dom_def plain_env_def)
  have c: "ork_iova_ceiling ?e = 4089446400" using plain_ceiling by (simp add: ork_iova_ceiling_def)
  have "bf_cpu (cx_anchor (ork_dom_prime ?e True (answer_at 0) 2 demo_ctx) 3) \<noteq> 0"
    by (simp add: ork_dom_prime_def d demo_ctx_def set_anchor_def anchor_buf_def orki_bimport_def orki_bimport_f_def
        answer_at_def import_tail_def ork_iova_reserve_def tracked_def ORK_IOVA_NDOM_def c no_dma_def orki_pgup_def
        orki_dma_fits32_def k_open_def k_mmap_def k_mapped_def Let_def)
  from anchor_in_its_domain [OF d(1) [symmetric] _ _ this] show ?thesis
    by (simp add: demo_ctx_def plain_env_def)
qed

lemma sum_c_slice:
  assumes "0 < st"
  shows "m \<le> (whole + st - 1) div st \<Longrightarrow> (\<Sum>i\<leftarrow>[0..<m]. c_slice whole st i) = min (m * st) whole"
proof (induction m)
  case (Suc m)
  have "Suc m * st \<le> whole + st - 1" using Suc.prems assms by (metis less_eq_div_iff_mult_less_eq)
  then have "m * st < whole" using assms by simp
  then show ?case using Suc by (auto simp: c_slice_def)
qed simp

lemma sum_slice_lens: "0 < st \<Longrightarrow> (\<Sum>i\<leftarrow>[0..<(whole + st - 1) div st]. c_slice whole st i) = whole"
proof -
  assume st: "0 < st"
  have "whole \<le> (whole + st - 1) div st * st"
    using st div_mult_mod_eq [of "whole + st - 1" st] mod_less_divisor [OF st, of "whole + st - 1"] by linarith
  then show ?thesis using sum_c_slice [OF st order_refl, of whole] by (simp add: min_def)
qed

lemma sum_pgup_ge: "\<forall>x \<in> set xs. f x < 9223372036854775808 \<Longrightarrow>
    sum_list (map f xs) \<le> (\<Sum>x\<leftarrow>xs. orki_pgup (f x)) \<and> (\<Sum>x\<leftarrow>xs. orki_pgup (f x)) \<le> sum_list (map f xs) + 4096 * length xs"
  by (induction xs) (use pgup_ge in \<open>fastforce simp: less_imp_le\<close>)+


text \<open>The resident size the domain sizer asks for covers the weight. At 8 bits it is at least the \<open>K*N\<close>
  bytes of the tiles, twice that when the full-K companion is built (K up to 10752 and not switched off),
  and more by less than one page per allocation the loader makes.\<close>

theorem resident_bytes_cover:
  assumes "0 < K" "0 < N" "0 < nmax" "nat K * nat N < 9223372036854775808"
  defines "Sk \<equiv> (nat K + 1023) div 1024" and "Sn \<equiv> (nat N + nmax - 1) div nmax"
  shows "let R = ork_w_resident_bytes no_bf (Some nmax) K N 8 want_bf;
             m = (if K \<le> 10752 \<and> (if want_bf < 0 then \<not> no_bf else want_bf \<noteq> 0) then 2 else 1)
         in m * (nat K * nat N) \<le> R \<and> R \<le> m * (nat K * nat N) + 4096 * (Sn * (Sk + (m - 1)))"
proof -
  let ?kp = "c_slice (nat K) 1024" and ?nc = "c_slice (nat N) nmax"
  have k: "?kp i \<le> nat K" and n: "?nc j \<le> nat N" for i j by (auto simp: c_slice_def)
  have small: "x * y < 9223372036854775808" if "x \<le> nat K" "y \<le> nat N" for x y
    using mult_le_mono [OF that] assms(4) by linarith
  have inner: "nat K * ?nc ns \<le> (\<Sum>ks\<leftarrow>[0..<Sk]. orki_pgup (?kp ks * ?nc ns))
      \<and> (\<Sum>ks\<leftarrow>[0..<Sk]. orki_pgup (?kp ks * ?nc ns)) \<le> nat K * ?nc ns + 4096 * Sk" for ns
  proof -
    have "(\<Sum>ks\<leftarrow>[0..<Sk]. ?kp ks * ?nc ns) = nat K * ?nc ns"
      using sum_slice_lens [of 1024 "nat K"] by (simp add: sum_list_mult_const Sk_def add.commute)
    then show ?thesis using sum_pgup_ge [of "[0..<Sk]" "\<lambda>ks. ?kp ks * ?nc ns"] small k n by simp
  qed
  have ncs: "(\<Sum>ns\<leftarrow>[0..<Sn]. nat K * ?nc ns) = nat K * nat N"
    using sum_slice_lens [OF assms(3), of "nat N"] by (simp add: sum_list_const_mult Sn_def)
  let ?T = "\<Sum>ns\<leftarrow>[0..<Sn]. \<Sum>ks\<leftarrow>[0..<Sk]. orki_pgup (?kp ks * ?nc ns)"
  have "nat K * nat N \<le> ?T"
    unfolding ncs [symmetric] by (rule sum_list_mono) (use inner in blast)
  moreover have "?T \<le> nat K * nat N + 4096 * (Sn * Sk)"
  proof -
    have "?T \<le> (\<Sum>ns\<leftarrow>[0..<Sn]. nat K * ?nc ns + 4096 * Sk)" by (rule sum_list_mono) (use inner in blast)
    also have "\<dots> = nat K * nat N + 4096 * (Sn * Sk)" by (simp add: sum_list_addf ncs sum_list_triv)
    finally show ?thesis .
  qed
  moreover have "nat K * nat N \<le> (\<Sum>ns\<leftarrow>[0..<Sn]. orki_pgup (nat K * ?nc ns))
      \<and> (\<Sum>ns\<leftarrow>[0..<Sn]. orki_pgup (nat K * ?nc ns)) \<le> nat K * nat N + 4096 * Sn"
    using sum_pgup_ge [of "[0..<Sn]" "\<lambda>ns. nat K * ?nc ns"] small [OF order_refl] n ncs by simp
  moreover define bf where "bf \<longleftrightarrow> K \<le> 10752 \<and> (if want_bf < 0 then \<not> no_bf else want_bf \<noteq> 0)"
  moreover have "nat K \<le> 10752 \<longleftrightarrow> K \<le> 10752" by auto
  then have "ork_w_resident_bytes no_bf (Some nmax) K N 8 want_bf =
      (if bf then ?T + (\<Sum>ns\<leftarrow>[0..<Sn]. orki_pgup (nat K * ?nc ns)) else ?T)"
    using assms(1,2) by (auto simp: ork_w_resident_bytes_def Let_def Sk_def Sn_def bf_def add.commute)
  ultimately show ?thesis by (auto simp: Let_def bf_def [symmetric] algebra_simps)
qed

theorem resident_bytes_cover_witness: "2000 * 100 \<le> ork_w_resident_bytes True (Some 8192) 2000 100 8 (- 1)"
  using resident_bytes_cover [of 2000 100 8192 True "- 1"] by (simp add: Let_def)

end
