(* ===== verification/I8_Tile.thy ===== *)
theory I8_Tile
  imports Pack_Header Dma_Table
begin

section \<open>The int8 tile layout: \<open>src/npu/i8/pack.c\<close>, \<open>src/npu/core/sched.c\<close>\<close>

text \<open>
  A weight \<open>B[K][N]\<close> is stored as blocks of 32 columns by 32 rows: element \<open>(k0+kt*32+kk, n0+nt*32+nl)\<close>
  of a slice stands at \<open>nt*KT*1024 + kt*1024 + nl*32 + kk\<close>. The loops are lists of writes \<open>(index, value)\<close>
  in the order the C makes them, applied to the buffer by \<open>poke\<close>. A context is the SoC of a non-NULL
  \<open>ork_npu\<close>; \<open>K\<close> and \<open>N\<close> are not negative; \<open>kt\<close> is what \<open>ORK_KTILE\<close> parses to, \<open>pool\<close> the number of pool threads.
\<close>

definition poke :: "(nat \<times> 'a) list \<Rightarrow> 'a list \<Rightarrow> 'a list" where
  "poke ws b = fold (\<lambda>(i, v) b. b[i := v]) ws b"

definition orki_int8_ks :: "int option \<Rightarrow> nat" where
  "orki_int8_ks kt =
     (let kt = (case kt of None \<Rightarrow> 0 | Some v \<Rightarrow> v); kt = (if kt \<noteq> 0 \<and> (kt < 32 \<or> c_mod kt 32 \<noteq> 0) then 0 else kt)
      in if 0 < kt then nat kt else 1024)"

subsection \<open>One slice\<close>

type_synonym cell = "nat \<times> nat \<times> nat \<times> nat"

definition tile_walk :: "nat \<Rightarrow> nat \<Rightarrow> nat \<Rightarrow> cell list" where
  "tile_walk lo hi KT = [(nt, kt, nl, kk). nt \<leftarrow> [lo..<hi], kt \<leftarrow> [0..<KT], nl \<leftarrow> [0..<32], kk \<leftarrow> [0..<32]]"

fun tile_ix :: "nat \<Rightarrow> cell \<Rightarrow> nat" where
  "tile_ix KT (nt, kt, nl, kk) = nt * KT * 1024 + kt * 1024 + nl * 32 + kk"

record tile_i8_arg =
  ti_Bi :: "byte list"
  ti_KT :: nat
  ti_k0 :: nat
  ti_n0 :: nat
  ti_N :: nat

fun src_ix :: "tile_i8_arg \<Rightarrow> cell \<Rightarrow> nat" where
  "src_ix t (nt, kt, nl, kk) = (ti_k0 t + kt * 32 + kk) * ti_N t + (ti_n0 t + nt * 32 + nl)"

definition tile_writes :: "tile_i8_arg \<Rightarrow> nat \<Rightarrow> nat \<Rightarrow> (nat \<times> byte) list" where
  "tile_writes t lo hi = map (\<lambda>x. (tile_ix (ti_KT t) x, ti_Bi t ! src_ix t x)) (tile_walk lo hi (ti_KT t))"

definition orki_i8_tile_range :: "tile_i8_arg \<Rightarrow> nat \<Rightarrow> nat \<Rightarrow> byte list \<Rightarrow> byte list" where
  "orki_i8_tile_range t lo hi bb = poke (tile_writes t lo hi) bb"

subsection \<open>The pool\<close>

text \<open>The ranges \<open>ork_parallel_for\<close> hands its threads, the caller's first.\<close>

definition par_ranges :: "nat \<Rightarrow> nat \<Rightarrow> (nat \<times> nat) list" where
  "par_ranges pool n =
     (if n = 0 then [] else if n = 1 then [(0, 1)]
      else
        let nthr = (if pool > n then n else pool); nthr = (if nthr < 1 then 1 else nthr)
        in if nthr \<le> 1 then [(0, n)]
           else let chunk = (n + nthr - 1) div nthr
                in map (\<lambda>t. (min (t * chunk) n, min (min (t * chunk) n + chunk) n)) [0..<pool])"

text \<open>An order in which the threads' writes can reach memory: each thread's own order is kept.\<close>

inductive schedule :: "'w list list \<Rightarrow> 'w list \<Rightarrow> bool" where
  idle: "\<forall>ws \<in> set ts. ws = [] \<Longrightarrow> schedule ts []"
| go: "i < length ts \<Longrightarrow> ts ! i = w # ws \<Longrightarrow> schedule (ts[i := ws]) us \<Longrightarrow> schedule ts (w # us)"

definition par_writes :: "tile_i8_arg \<Rightarrow> nat \<Rightarrow> nat \<Rightarrow> (nat \<times> byte) list list" where
  "par_writes t pool n = map (\<lambda>(lo, hi). tile_writes t lo hi) (par_ranges pool n)"

text \<open>The call, with the threads run one after the other; C34 shows that the order does not matter.\<close>

definition par_tile :: "nat \<Rightarrow> nat \<Rightarrow> tile_i8_arg \<Rightarrow> byte list \<Rightarrow> byte list" where
  "par_tile pool n t bb = poke (concat (par_writes t pool n)) bb"

subsection \<open>Dumping\<close>

text \<open>The slices in the order of the loops, as \<open>(n0, Nc, k0, Kp)\<close>.\<close>

definition n_slices :: "nat \<Rightarrow> nat \<Rightarrow> (nat \<times> nat) list" where
  "n_slices NMAX N = map (\<lambda>i. (i * NMAX, c_slice N NMAX i)) [0..<(N + NMAX - 1) div NMAX]"

definition w_slices :: "nat \<Rightarrow> nat \<Rightarrow> nat \<Rightarrow> nat \<Rightarrow> (nat \<times> nat \<times> nat \<times> nat) list" where
  "w_slices KS NMAX K N = [(n0, Nc, k0, Kp). (n0, Nc) \<leftarrow> n_slices NMAX N, (k0, Kp) \<leftarrow> n_slices KS K]"

definition place :: "nat \<Rightarrow> byte list \<Rightarrow> byte list \<Rightarrow> byte list" where
  "place off bs out = take off out @ bs @ drop (off + length bs) out"

text \<open>\<open>fill\<close> is the tiler of one zeroed page-padded slice; the size walk alone is \<open>out = None\<close>.\<close>

fun dump_tiles :: "(tile_i8_arg \<Rightarrow> nat \<Rightarrow> byte list \<Rightarrow> byte list) \<Rightarrow> byte list \<Rightarrow> nat \<Rightarrow> nat
    \<Rightarrow> (nat \<times> nat \<times> nat \<times> nat) list \<Rightarrow> nat \<Rightarrow> byte list option \<Rightarrow> nat \<times> byte list option" where
  "dump_tiles fill B N cap [] off out = (off, out)"
| "dump_tiles fill B N cap ((n0, Nc, k0, Kp) # ss) off out =
     (let tsz = orki_pgup (Kp * Nc); t = \<lparr>ti_Bi = B, ti_KT = Kp div 32, ti_k0 = k0, ti_n0 = n0, ti_N = N\<rparr> in
      case out of None \<Rightarrow> dump_tiles fill B N cap ss (off + tsz) None
      | Some bs \<Rightarrow>
        if off + tsz > cap then (0, Some bs)
        else dump_tiles fill B N cap ss (off + tsz) (Some (place off (fill t (Nc div 32) (replicate tsz 0)) bs)))"

definition ork_i8_w_dump_cpu :: "ork_soc option \<Rightarrow> int option \<Rightarrow> nat \<Rightarrow> ork_soc option \<Rightarrow> nat \<Rightarrow> nat \<Rightarrow> byte list option
    \<Rightarrow> byte list option \<Rightarrow> nat \<Rightarrow> nat \<times> byte list option" where
  "ork_i8_w_dump_cpu det kt pool c K N B out cap =
     (case (c, B) of (Some soc, Some Bi) \<Rightarrow>
        if K mod 32 \<noteq> 0 \<or> N mod 32 \<noteq> 0 then (0, out)
        else if out \<noteq> None \<and> cap < ORK_PACK_HDR_BYTES then (0, out)
        else dump_tiles (\<lambda>t NN. par_tile pool NN t) Bi N cap (w_slices (orki_int8_ks kt) (nat (soc_nmax soc)) K N)
               ORK_PACK_HDR_BYTES (orki_pack_stamp det (Some (Some soc)) out 1 (int K) (int N))
      | _ \<Rightarrow> (0, out))"

definition ork_i8_w_dump_cpu_st :: "int option \<Rightarrow> ork_soc option \<Rightarrow> nat \<Rightarrow> nat \<Rightarrow> byte list option
    \<Rightarrow> byte list option \<Rightarrow> nat \<Rightarrow> nat \<times> byte list option" where
  "ork_i8_w_dump_cpu_st kt c K N B out cap =
     (case (c, B) of (Some soc, Some Bi) \<Rightarrow>
        if K mod 32 \<noteq> 0 \<or> N mod 32 \<noteq> 0 then (0, out)
        else dump_tiles (\<lambda>t NN. orki_i8_tile_range t 0 NN) Bi N cap
               (w_slices (orki_int8_ks kt) (nat (soc_nmax soc)) K N) 0 out
      | _ \<Rightarrow> (0, out))"

text \<open>The full-K companion: one slice of all \<open>K\<close> rows per column slice, tiled in place.\<close>

definition ork_i8_w_dump_bf_cpu :: "ork_soc option \<Rightarrow> ork_soc option \<Rightarrow> nat \<Rightarrow> nat \<Rightarrow> byte list option
    \<Rightarrow> byte list option \<Rightarrow> nat \<Rightarrow> nat \<times> byte list option" where
  "ork_i8_w_dump_bf_cpu det c K N B out cap =
     (case (c, B) of (Some soc, Some Bi) \<Rightarrow>
        if K mod 512 \<noteq> 0 \<or> K > 4096 \<or> N mod 32 \<noteq> 0 then (0, out)
        else if out \<noteq> None \<and> cap < ORK_PACK_HDR_BYTES then (0, out)
        else dump_tiles (\<lambda>t NN. orki_i8_tile_range t 0 NN) Bi N cap
               (map (\<lambda>(n0, Nc). (n0, Nc, 0, K)) (n_slices (nat (soc_nmax soc)) N))
               ORK_PACK_HDR_BYTES (orki_pack_stamp det (Some (Some soc)) out 1 (int K) (int N))
      | _ \<Rightarrow> (0, out))"

subsection \<open>Un-tiling\<close>

definition untile_writes :: "nat \<Rightarrow> nat \<times> nat \<times> nat \<times> nat \<Rightarrow> byte list \<Rightarrow> (nat \<times> byte) list" where
  "untile_writes N s bb = (case s of (n0, Nc, k0, Kp) \<Rightarrow>
     map (\<lambda>(nt, kt, nl, kk). ((k0 + kt * 32 + kk) * N + (n0 + nt * 32 + nl), bb ! tile_ix (Kp div 32) (nt, kt, nl, kk)))
       (tile_walk 0 (Nc div 32) (Kp div 32)))"

fun untile_all :: "nat \<Rightarrow> nat \<Rightarrow> byte list \<Rightarrow> (nat \<times> nat \<times> nat \<times> nat) list \<Rightarrow> nat \<Rightarrow> byte list \<Rightarrow> int \<times> byte list" where
  "untile_all N n src [] off codes = (if off = n then 0 else - 1, codes)"
| "untile_all N n src ((n0, Nc, k0, Kp) # ss) off codes =
     (let tsz = orki_pgup (Kp * Nc) in
      if off + tsz > n then (- 1, codes)
      else untile_all N n src ss (off + tsz) (poke (untile_writes N (n0, Nc, k0, Kp) (drop off src)) codes))"

definition orki_i8_untile_blob :: "int option \<Rightarrow> ork_soc option \<Rightarrow> nat \<Rightarrow> nat \<Rightarrow> byte list option \<Rightarrow> nat \<Rightarrow> byte list option
    \<Rightarrow> int \<times> byte list option" where
  "orki_i8_untile_blob kt c K N blob n codes =
     (case (c, blob, codes) of (Some soc, Some src, Some cs) \<Rightarrow>
        if K mod 32 \<noteq> 0 \<or> N mod 32 \<noteq> 0 then (- 1, codes)
        else map_prod (\<lambda>r. r) Some
               (untile_all N n src (w_slices (orki_int8_ks kt) (nat (soc_nmax soc)) K N) 0 cs)
      | _ \<Rightarrow> (- 1, codes))"

subsection \<open>Lists of writes\<close>

lemma length_poke [simp]: "length (poke ws b) = length b"
  unfolding poke_def by (induction ws arbitrary: b) (auto simp: case_prod_unfold)

lemma poke_append: "poke (us @ ws) b = poke ws (poke us b)"
  by (simp add: poke_def)

text \<open>Writes that agree with one function leave its values where they went, whatever their order.\<close>

lemma poke_agree:
  "\<forall>(i, v) \<in> set ws. v = F i \<Longrightarrow> j < length b \<Longrightarrow> poke ws b ! j = (if j \<in> fst ` set ws then F j else b ! j)"
proof (induction ws arbitrary: b)
  case Nil
  then show ?case by (simp add: poke_def)
next
  case (Cons w ws)
  then have "poke (w # ws) b ! j = poke ws (b[fst w := snd w]) ! j" by (simp add: poke_def case_prod_unfold)
  also have "\<dots> = (if j \<in> fst ` set ws then F j else b[fst w := snd w] ! j)" using Cons by (intro Cons.IH) auto
  also have "b[fst w := snd w] ! j = (if j = fst w then F j else b ! j)" using Cons.prems by (auto simp: nth_upd)
  finally show ?case by auto
qed

lemma poke_same: "\<forall>(i, v) \<in> set ws. v = F i \<Longrightarrow> set us = set ws \<Longrightarrow> poke us b = poke ws b"
  by (intro nth_equalityI) (simp_all add: poke_agree [of _ F])

subsection \<open>One slice\<close>

lemma set_tile_walk: "set (tile_walk lo hi KT) = {lo..<hi} \<times> {0..<KT} \<times> {0..<32} \<times> {0..<32}"
  unfolding tile_walk_def by (auto simp: image_iff)

fun tile_cell :: "nat \<Rightarrow> nat \<Rightarrow> cell" where
  "tile_cell KT i = (i div (KT * 1024), i div 1024 mod KT, i div 32 mod 32, i mod 32)"

lemma tile_cell_ix:
  assumes "x \<in> set (tile_walk lo hi KT)"
  shows "tile_cell KT (tile_ix KT x) = x"
proof -
  obtain nt kt nl kk where x: "x = (nt, kt, nl, kk)" "kt < KT" "nl < 32" "kk < 32"
    using assms unfolding set_tile_walk by (cases x) auto
  define i where "i = tile_ix KT x"
  have "i = (nl * 32 + kk) + 1024 * (nt * KT + kt)" by (simp add: i_def x algebra_simps)
  moreover have "nl * 32 + kk < 1024" using x by linarith
  moreover have "(r + 1024 * q) div 1024 = q \<and> (r + 1024 * q) mod 1024 = r" if "r < 1024" for r q :: nat using that by simp
  ultimately have a: "i div 1024 = nt * KT + kt" "i mod 1024 = nl * 32 + kk" by metis+
  have "i div (KT * 1024) = i div 1024 div KT" by (simp only: div_mult2_eq [symmetric] mult.commute)
  moreover have "(nt * KT + kt) div KT = nt" "(nt * KT + kt) mod KT = kt" using x by simp_all
  moreover have "i mod 32 = i mod 1024 mod 32" by (simp add: mod_mod_cancel)
  moreover have "i div 32 mod 32 = i mod 1024 div 32"
    using mod_mult2_eq [of i 32 32] by simp
  ultimately have "tile_cell KT i = x" using x a by simp
  then show ?thesis by (simp only: i_def)
qed

lemma tile_ix_cell: "0 < KT \<Longrightarrow> tile_ix KT (tile_cell KT i) = i"
proof -
  assume "0 < KT"
  have "i div (KT * 1024) * KT + i div 1024 mod KT = i div 1024"
    using div_mult_mod_eq [of "i div 1024" KT] by (simp add: div_mult2_eq mult.commute [of KT])
  then have "i div (KT * 1024) * KT * 1024 + i div 1024 mod KT * 1024 = i div 1024 * 1024"
    by (metis add_mult_distrib)
  moreover have "i div 32 mod 32 * 32 + i mod 32 = i mod 1024"
    using mod_mult2_eq [of i 32 32] by simp
  ultimately show ?thesis using div_mult_mod_eq [of i 1024] by (simp only: tile_cell.simps tile_ix.simps add.assoc)
qed

lemma tile_cell_walk: "i < NN * (KT * 1024) \<Longrightarrow> tile_cell KT i \<in> set (tile_walk 0 NN KT)"
  by (cases "KT = 0") (auto simp: set_tile_walk less_mult_imp_div_less)

lemma tile_ix_less:
  assumes "x \<in> set (tile_walk lo hi KT)"
  shows "tile_ix KT x < hi * (KT * 1024)"
proof -
  obtain nt kt nl kk where x: "x = (nt, kt, nl, kk)" "nt < hi" "kt < KT" "nl < 32" "kk < 32"
    using assms unfolding set_tile_walk by (cases x) auto
  have "kt * 1024 + nl * 32 + kk < KT * 1024" using x by linarith
  moreover have "(nt + 1) * (KT * 1024) \<le> hi * (KT * 1024)" using x by (intro mult_le_mono1) simp
  ultimately show ?thesis using x by (simp add: algebra_simps)
qed

text \<open>The bytes of a slice, by position.\<close>

definition tile_spec :: "tile_i8_arg \<Rightarrow> nat \<Rightarrow> byte list" where
  "tile_spec t NN = map (\<lambda>i. ti_Bi t ! src_ix t (tile_cell (ti_KT t) i)) [0..<NN * (ti_KT t * 1024)]"

lemma length_tile_spec [simp]: "length (tile_spec t NN) = NN * (ti_KT t * 1024)"
  by (simp add: tile_spec_def)

lemma tile_writes_agree:
  "\<forall>(i, v) \<in> set (tile_writes t lo hi). v = ti_Bi t ! src_ix t (tile_cell (ti_KT t) i)"
  by (auto simp: tile_writes_def simp del: tile_ix.simps tile_cell.simps src_ix.simps) (metis tile_cell_ix)

lemma tile_writes_idx: "fst ` set (tile_writes t 0 NN) = {0..<NN * (ti_KT t * 1024)}"
proof
  show "fst ` set (tile_writes t 0 NN) \<subseteq> {0..<NN * (ti_KT t * 1024)}"
    using tile_ix_less by (force simp: tile_writes_def image_image simp del: tile_ix.simps)
  show "{0..<NN * (ti_KT t * 1024)} \<subseteq> fst ` set (tile_writes t 0 NN)"
  proof
    fix i assume i: "i \<in> {0..<NN * (ti_KT t * 1024)}"
    then have "0 < ti_KT t" by (cases "ti_KT t = 0") auto
    then have "i = tile_ix (ti_KT t) (tile_cell (ti_KT t) i)" by (simp only: tile_ix_cell)
    with i tile_cell_walk [of i NN "ti_KT t"] show "i \<in> fst ` set (tile_writes t 0 NN)"
      by (force simp: tile_writes_def image_image simp del: tile_ix.simps tile_cell.simps)
  qed
qed

lemma tile_poke:
  assumes "set ws = set (tile_writes t 0 NN)" "NN * (ti_KT t * 1024) \<le> length bb"
  shows "poke ws bb = tile_spec t NN @ drop (NN * (ti_KT t * 1024)) bb"
proof (rule nth_equalityI)
  fix j assume j: "j < length (poke ws bb)"
  have "poke ws bb ! j = (if j \<in> fst ` set (tile_writes t 0 NN) then ti_Bi t ! src_ix t (tile_cell (ti_KT t) j) else bb ! j)"
    using poke_agree [of ws "\<lambda>i. ti_Bi t ! src_ix t (tile_cell (ti_KT t) i)" j bb] tile_writes_agree [of t 0 NN] j assms(1) by simp
  then show "poke ws bb ! j = (tile_spec t NN @ drop (NN * (ti_KT t * 1024)) bb) ! j"
    using j assms(2) by (auto simp: tile_writes_idx nth_append tile_spec_def simp del: src_ix.simps tile_cell.simps)
qed (use assms(2) in simp)

subsection \<open>The pool writes what one thread writes\<close>

lemma schedule_set: "schedule ts us \<Longrightarrow> set us = \<Union> (set ` set ts)"
proof (induction rule: schedule.induct)
  case (go i ts w ws us)
  have "\<Union> (set ` set ts) = insert w (\<Union> (set ` set (ts[i := ws])))"
  proof -
    have "set ts = insert (w # ws) (set (take i ts) \<union> set (drop (Suc i) ts))"
      using go.hyps(1,2) id_take_nth_drop [of i ts] by (metis Un_insert_right list.simps(15) set_append)
    moreover have "set (ts[i := ws]) = insert ws (set (take i ts) \<union> set (drop (Suc i) ts))"
      using go.hyps(1) by (simp add: upd_conv_take_nth_drop)
    ultimately show ?thesis by auto
  qed
  with go.IH show ?case by simp
qed auto

lemma par_ranges_cover:
  "set (concat (map (\<lambda>(lo, hi). [lo..<hi]) (par_ranges pool n))) = {0..<n}"
proof -
  define nthr where "nthr = (let nthr = (if pool > n then n else pool) in if nthr < 1 then 1 else nthr)"
  define chunk where "chunk = (n + nthr - 1) div nthr"
  have cov: "\<exists>t<pool. min (t * chunk) n \<le> x \<and> x < min (min (t * chunk) n + chunk) n" if "x < n" "\<not> nthr \<le> 1" for x
  proof -
    have nt: "1 < nthr" "nthr \<le> pool" "nthr \<le> n" using that by (auto simp: nthr_def Let_def split: if_splits)
    then have "nthr \<le> n + nthr - 1" by linarith
    then have "nthr div nthr \<le> chunk" unfolding chunk_def by (rule div_le_mono)
    then have c: "0 < chunk" using nt by simp
    have "n + nthr - 1 < nthr * (chunk + 1)"
      using dividend_less_times_div [of nthr "n + nthr - 1"] nt by (simp add: chunk_def)
    then have "n \<le> nthr * chunk" by simp
    then have "x div chunk < nthr" using that c by (simp add: less_mult_imp_div_less)
    moreover have "x div chunk * chunk \<le> x" "x < x div chunk * chunk + chunk"
      using c dividend_less_div_times [OF c, of x] by (simp_all add: add.commute)
    moreover have "x div chunk * chunk \<le> n" using \<open>x < n\<close> by (meson div_times_less_eq_dividend le_trans less_imp_le_nat)
    ultimately show ?thesis using nt that by (intro exI [of _ "x div chunk"] conjI) (auto simp: min_def)
  qed
  consider "n = 0" | "n = 1" | "1 < n" "nthr \<le> 1" | "1 < n" "\<not> nthr \<le> 1" by linarith
  then show ?thesis
  proof cases
    case 4
    then have "par_ranges pool n = map (\<lambda>t. (min (t * chunk) n, min (min (t * chunk) n + chunk) n)) [0..<pool]"
      by (simp add: par_ranges_def nthr_def [symmetric] chunk_def Let_def cong: if_cong) (auto simp: nthr_def chunk_def Let_def split: if_splits)
    with cov [OF _ 4(2)] show ?thesis by (fastforce simp: image_iff)
  next
    case 3
    then have "par_ranges pool n = [(0, n)]" by (auto simp: par_ranges_def nthr_def Let_def split: if_splits)
    then show ?thesis by auto
  qed (auto simp: par_ranges_def)
qed

lemma tile_walk_concat: "set (tile_walk lo hi KT) = (\<Union>nt \<in> {lo..<hi}. set (tile_walk nt (Suc nt) KT))"
  unfolding set_tile_walk by auto

lemma par_writes_set: "\<Union> (set ` set (par_writes t pool n)) = set (tile_writes t 0 n)"
proof -
  let ?w = "\<lambda>nt. set (tile_writes t nt (Suc nt))"
  have s: "set (tile_writes t lo hi) = \<Union> (?w ` {lo..<hi})" for lo hi
    by (simp only: tile_writes_def set_map tile_walk_concat [of lo hi] image_UN)
  have "\<Union> (set ` set (par_writes t pool n)) = (\<Union>r \<in> set (par_ranges pool n). \<Union> (?w ` {fst r..<snd r}))"
    by (simp only: par_writes_def set_map image_image case_prod_unfold) (intro SUP_cong refl s)
  also have "\<dots> = \<Union> (?w ` (\<Union>r \<in> set (par_ranges pool n). {fst r..<snd r}))" by (rule UN_UN_flatten [symmetric])
  also have "(\<Union>r \<in> set (par_ranges pool n). {fst r..<snd r}) = {0..<n}"
    using par_ranges_cover [of pool n] by (simp add: case_prod_unfold)
  finally show ?thesis by (simp only: s [of 0 n, symmetric])
qed

lemma par_tile_spec:
  "n * (ti_KT t * 1024) \<le> length bb \<Longrightarrow> par_tile pool n t bb = tile_spec t n @ drop (n * (ti_KT t * 1024)) bb"
  unfolding par_tile_def by (rule tile_poke) (simp_all only: set_concat par_writes_set)

lemma tile_range_spec:
  "n * (ti_KT t * 1024) \<le> length bb \<Longrightarrow> orki_i8_tile_range t 0 n bb = tile_spec t n @ drop (n * (ti_KT t * 1024)) bb"
  unfolding orki_i8_tile_range_def by (rule tile_poke) simp

text \<open>C34: however the pool's threads interleave, the buffer ends as the one-threaded tiler leaves it, and
  element \<open>(k0+k, n0+n)\<close> of the weight stands at its place in the block layout.\<close>

theorem parallel_tiling_deterministic:
  assumes "schedule (par_writes t pool NN) us" "NN * (ti_KT t * 1024) \<le> length bb"
  shows "poke us bb = orki_i8_tile_range t 0 NN bb
    \<and> (\<forall>k < ti_KT t * 32. \<forall>n < NN * 32.
         poke us bb ! tile_ix (ti_KT t) (n div 32, k div 32, n mod 32, k mod 32) = ti_Bi t ! ((ti_k0 t + k) * ti_N t + (ti_n0 t + n)))"
proof (intro conjI allI impI)
  have p: "poke us bb = tile_spec t NN @ drop (NN * (ti_KT t * 1024)) bb"
    using assms by (intro tile_poke) (simp_all only: schedule_set [OF assms(1)] par_writes_set)
  then show "poke us bb = orki_i8_tile_range t 0 NN bb" by (simp only: tile_range_spec [OF assms(2)])
  fix k n assume kn: "k < ti_KT t * 32" "n < NN * 32"
  let ?x = "(n div 32, k div 32, n mod 32, k mod 32)"
  have "k div 32 < ti_KT t" "n div 32 < NN" using kn by (auto simp: less_mult_imp_div_less)
  then have "?x \<in> set (tile_walk 0 NN (ti_KT t))" unfolding set_tile_walk by simp
  then have "tile_ix (ti_KT t) ?x < NN * (ti_KT t * 1024)" "tile_cell (ti_KT t) (tile_ix (ti_KT t) ?x) = ?x"
    by (rule tile_ix_less, rule tile_cell_ix)
  then have "poke us bb ! tile_ix (ti_KT t) ?x = ti_Bi t ! src_ix t ?x"
    unfolding p by (simp add: nth_append tile_spec_def del: tile_ix.simps tile_cell.simps src_ix.simps)
  also have "src_ix t ?x = (ti_k0 t + k) * ti_N t + (ti_n0 t + n)"
    using div_mult_mod_eq [of k 32] div_mult_mod_eq [of n 32] by (simp add: add.assoc)
  finally show "poke us bb ! tile_ix (ti_KT t) ?x = ti_Bi t ! ((ti_k0 t + k) * ti_N t + (ti_n0 t + n))" .
qed

lemma schedule_concat: "schedule ts (concat ts)"
proof -
  have "schedule ts us" if "us = concat ts" "n = length us" for n us and ts :: "'w list list"
    using that
  proof (induction n arbitrary: us ts)
    case 0
    then have "us = []" "\<forall>ws \<in> set ts. ws = []" by simp_all
    then show ?case by (simp add: schedule.idle)
  next
    case (Suc n)
    define i where "i = (LEAST i. i < length ts \<and> ts ! i \<noteq> [])"
    have "concat ts \<noteq> []" using Suc.prems by (metis list.size(3) nat.distinct(1))
    then have "\<exists>i. i < length ts \<and> ts ! i \<noteq> []" by (metis concat_eq_Nil_conv in_set_conv_nth)
    then have i: "i < length ts" "ts ! i \<noteq> []" unfolding i_def by (metis (mono_tags, lifting) LeastI_ex)+
    have e: "\<forall>j < i. ts ! j = []" using i by (auto simp: i_def dest: not_less_Least intro: less_trans)
    obtain w ws where w: "ts ! i = w # ws" using i by (cases "ts ! i") auto
    have "concat (take i ts) = []" using e i(1) by (auto simp: in_set_conv_nth)
    moreover have "concat ts = concat (take i ts) @ (w # ws) @ concat (drop (Suc i) ts)"
      using id_take_nth_drop [OF i(1)] w by (metis concat.simps(2) concat_append)
    moreover have "concat (ts[i := ws]) = concat (take i ts) @ ws @ concat (drop (Suc i) ts)"
      using i(1) by (simp add: upd_conv_take_nth_drop)
    ultimately have us: "us = w # concat (ts[i := ws])" using Suc.prems(1) by (simp only: append_Nil append_Cons)
    have "schedule (ts[i := ws]) (concat (ts[i := ws]))" using Suc.IH [OF refl] Suc.prems(2) us by simp
    with us i(1) w show ?case by (auto intro: schedule.go)
  qed
  then show ?thesis by blast
qed

theorem parallel_tiling_deterministic_witness:
  "\<exists>us. schedule (par_writes \<lparr>ti_Bi = replicate 65536 1, ti_KT = 2, ti_k0 = 0, ti_n0 = 0, ti_N = 1024\<rparr> 3 32) us
     \<and> poke us (replicate 65536 0) = orki_i8_tile_range \<lparr>ti_Bi = replicate 65536 1, ti_KT = 2, ti_k0 = 0, ti_n0 = 0, ti_N = 1024\<rparr> 0 32 (replicate 65536 0)"
  by (intro exI conjI, rule schedule_concat, rule parallel_tiling_deterministic [THEN conjunct1], rule schedule_concat) simp

subsection \<open>Dumping\<close>

type_synonym slice = "nat \<times> nat \<times> nat \<times> nat"

fun slice_arg :: "byte list \<Rightarrow> nat \<Rightarrow> slice \<Rightarrow> tile_i8_arg" where
  "slice_arg B N (n0, Nc, k0, Kp) = \<lparr>ti_Bi = B, ti_KT = Kp div 32, ti_k0 = k0, ti_n0 = n0, ti_N = N\<rparr>"

fun slice_size :: "slice \<Rightarrow> nat" where
  "slice_size (n0, Nc, k0, Kp) = orki_pgup (Kp * Nc)"

fun slice_ok :: "slice \<Rightarrow> bool" where
  "slice_ok (n0, Nc, k0, Kp) \<longleftrightarrow> 32 dvd Nc \<and> 32 dvd Kp \<and> Kp * Nc < 9223372036854775808"

text \<open>A slice on disk: its tiles and the zero padding to the page.\<close>

fun slice_blob :: "byte list \<Rightarrow> nat \<Rightarrow> slice \<Rightarrow> byte list" where
  "slice_blob B N (n0, Nc, k0, Kp) =
     tile_spec (slice_arg B N (n0, Nc, k0, Kp)) (Nc div 32) @ replicate (orki_pgup (Kp * Nc) - Kp * Nc) 0"

definition w_bytes :: "slice list \<Rightarrow> nat" where
  "w_bytes ss = (\<Sum>s\<leftarrow>ss. slice_size s)"

lemma tile_area: "32 dvd Nc \<Longrightarrow> 32 dvd Kp \<Longrightarrow> Nc div 32 * (Kp div 32 * 1024) = Kp * (Nc :: nat)"
  by (elim dvdE) simp

lemma slice_blob_length: "slice_ok s \<Longrightarrow> length (slice_blob B N s) = slice_size s"
  using pgup_ge by (cases s) (auto simp: tile_area)

lemma concat_blob_length: "\<forall>s \<in> set ss. slice_ok s \<Longrightarrow> length (concat (map (slice_blob B N) ss)) = w_bytes ss"
  by (induction ss) (auto simp: w_bytes_def slice_blob_length)

lemma place_blobs: "off + length bs \<le> length out \<Longrightarrow> length (place off bs out) = length out"
  by (simp add: place_def)

lemma dump_tiles_spec:
  assumes "\<And>t NN bb. NN * (ti_KT t * 1024) \<le> length bb \<Longrightarrow> fill t NN bb = tile_spec t NN @ drop (NN * (ti_KT t * 1024)) bb"
  shows "\<forall>s \<in> set ss. slice_ok s \<Longrightarrow>
      dump_tiles fill B N cap ss off None = (off + w_bytes ss, None)
    \<and> (off + w_bytes ss \<le> cap \<longrightarrow> off + w_bytes ss \<le> length bs \<longrightarrow>
        dump_tiles fill B N cap ss off (Some bs) =
          (off + w_bytes ss, Some (place off (concat (map (slice_blob B N) ss)) bs)))"
proof (induction ss arbitrary: off bs)
  case Nil
  then show ?case by (simp add: w_bytes_def place_def)
next
  case (Cons s ss)
  obtain n0 Nc k0 Kp where s: "s = (n0, Nc, k0, Kp)" by (cases s)
  define tsz where "tsz = orki_pgup (Kp * Nc)"
  have ok: "slice_ok s" "\<forall>s \<in> set ss. slice_ok s" using Cons.prems by auto
  have sz: "Kp * Nc \<le> tsz" using ok(1) pgup_ge unfolding tsz_def s by auto
  have wb: "w_bytes (s # ss) = tsz + w_bytes ss" by (simp add: w_bytes_def s tsz_def)
  have f: "fill (slice_arg B N s) (Nc div 32) (replicate tsz 0) = slice_blob B N s"
    using ok(1) sz by (simp add: assms s tile_area tsz_def)
  have pl: "place off (slice_blob B N s @ concat (map (slice_blob B N) ss)) bs
      = place (off + tsz) (concat (map (slice_blob B N) ss)) (place off (slice_blob B N s) bs)" if "off + (tsz + w_bytes ss) \<le> length bs"
  proof -
    have l: "length (slice_blob B N s) = tsz" using slice_blob_length [OF ok(1)] by (simp add: s tsz_def)
    show ?thesis using that by (simp add: place_def l add.assoc add.commute [of tsz] add.left_commute)
  qed
  have l: "length (place off (slice_blob B N s) bs) = length bs" if "off + tsz \<le> length bs"
    using that slice_blob_length [OF ok(1)] by (intro place_blobs) (simp add: s tsz_def)
  have "dump_tiles fill B N cap (s # ss) off None = dump_tiles fill B N cap ss (off + tsz) None"
    by (simp add: s tsz_def Let_def)
  moreover have "dump_tiles fill B N cap (s # ss) off (Some bs) =
      (if off + tsz > cap then (0, Some bs)
       else dump_tiles fill B N cap ss (off + tsz) (Some (place off (slice_blob B N s) bs)))"
    using f by (simp add: s tsz_def Let_def)
  ultimately show ?case
    using Cons.IH [OF ok(2), of "off + tsz" "place off (slice_blob B N s) bs"] pl l
    by (simp add: wb add.assoc)
qed

subsection \<open>Un-tiling is the inverse\<close>

lemma untile_writes_agree:
  assumes "slice_ok s" "take (slice_size s) bb = slice_blob B N s"
  shows "untile_writes N s bb = map (\<lambda>x. (src_ix (slice_arg B N s) x, B ! src_ix (slice_arg B N s) x))
    (tile_walk 0 (fst (snd s) div 32) (snd (snd (snd s)) div 32))"
proof -
  obtain n0 Nc k0 Kp where s: "s = (n0, Nc, k0, Kp)" by (cases s)
  let ?t = "slice_arg B N s" and ?KT = "Kp div 32" and ?NN = "Nc div 32"
  have "bb ! tile_ix ?KT x = B ! src_ix ?t x" if x: "x \<in> set (tile_walk 0 ?NN ?KT)" for x
  proof -
    have l: "tile_ix ?KT x < ?NN * (?KT * 1024)" using tile_ix_less [OF x] .
    have "Kp * Nc \<le> slice_size s" using assms(1) pgup_ge by (auto simp: s)
    moreover have "?NN * (?KT * 1024) = Kp * Nc" using assms(1) by (simp add: s tile_area)
    ultimately have "bb ! tile_ix ?KT x = take (slice_size s) bb ! tile_ix ?KT x" using l by simp
    also have "\<dots> = tile_spec ?t ?NN ! tile_ix ?KT x" using assms(2) l by (simp add: s nth_append)
    also have "\<dots> = B ! src_ix ?t x" using l tile_cell_ix [OF x] by (simp add: tile_spec_def s del: tile_cell.simps)
    finally show ?thesis .
  qed
  then show ?thesis unfolding untile_writes_def s by auto
qed

definition untiled :: "byte list \<Rightarrow> nat \<Rightarrow> slice \<Rightarrow> (nat \<times> byte) list" where
  "untiled B N s = map (\<lambda>x. (src_ix (slice_arg B N s) x, B ! src_ix (slice_arg B N s) x))
    (tile_walk 0 (fst (snd s) div 32) (snd (snd (snd s)) div 32))"

lemma untile_all_spec:
  "\<forall>s \<in> set ss. slice_ok s \<Longrightarrow> drop off src = concat (map (slice_blob B N) ss) \<Longrightarrow> n = off + w_bytes ss \<Longrightarrow>
     untile_all N n src ss off codes = (0, poke (concat (map (untiled B N) ss)) codes)"
proof (induction ss arbitrary: off codes)
  case Nil
  then show ?case by (simp add: w_bytes_def poke_def)
next
  case (Cons s ss)
  obtain n0 Nc k0 Kp where s: "s = (n0, Nc, k0, Kp)" by (cases s)
  have ok: "slice_ok s" using Cons.prems(1) by simp
  have d: "drop off src = slice_blob B N s @ concat (map (slice_blob B N) ss)" using Cons.prems(2) by simp
  then have d': "drop (off + slice_size s) src = concat (map (slice_blob B N) ss)"
    using slice_blob_length [OF ok, of B N] by (metis add.commute append_eq_conv_conj drop_drop)
  have "take (slice_size s) (drop off src) = slice_blob B N s"
    unfolding d using slice_blob_length [OF ok, of B N] by simp
  then have u: "untile_writes N s (drop off src) = untiled B N s"
    using untile_writes_agree [OF ok] by (simp add: untiled_def)
  have "n = off + slice_size s + w_bytes ss" using Cons.prems(3) by (simp add: w_bytes_def)
  with Cons.IH [OF _ d' this, of "poke (untiled B N s) codes"] Cons.prems(1) u
  show ?case by (simp add: s Let_def poke_append)
qed

text \<open>The slices of \<open>K\<close> rows by \<open>N\<close> columns hold every element.\<close>

lemma div_lt_ceil: "x < whole \<Longrightarrow> 0 < st \<Longrightarrow> x div st < (whole + st - 1) div (st :: nat)"
proof -
  assume a: "x < whole" "0 < st"
  then have "x + st \<le> whole + st - 1" by linarith
  then have "(x + st) div st \<le> (whole + st - 1) div st" by (rule div_le_mono)
  then have "x div st + 1 \<le> (whole + st - 1) div st" using a(2) by (metis div_add_self2 less_numeral_extra(3))
  then show ?thesis by linarith
qed

lemma n_slices_mem:
  assumes "0 < st" "x < whole"
  shows "\<exists>x0 len. (x0, len) \<in> set (n_slices st whole) \<and> x0 \<le> x \<and> x < x0 + len"
proof -
  have "x div st < (whole + st - 1) div st" using assms by (intro div_lt_ceil)
  moreover have "x div st * st \<le> x" "x < x div st * st + st"
    using assms dividend_less_div_times [of st x] by (simp_all add: add.commute)
  ultimately show ?thesis
    using assms by (intro exI [of _ "x div st * st"] exI [of _ "c_slice whole st (x div st)"])
      (auto simp: n_slices_def c_slice_def image_iff)
qed

lemma n_slices_bounds:
  assumes "(x0, len) \<in> set (n_slices st whole)" "0 < st" "d dvd st" "d dvd whole"
  shows "x0 + len \<le> whole \<and> d dvd x0 \<and> d dvd len \<and> len \<le> st"
proof -
  obtain i where i: "i < (whole + st - 1) div st" "x0 = i * st" "len = c_slice whole st i"
    using assms(1) by (auto simp: n_slices_def)
  then have "i + 1 \<le> (whole + st - 1) div st" by simp
  then have "(i + 1) * st \<le> (whole + st - 1) div st * st" by (rule mult_le_mono1)
  also have "\<dots> \<le> whole + st - 1" by simp
  finally have "i * st \<le> whole" using assms(2) by (simp add: algebra_simps)
  then show ?thesis using i assms by (auto simp: c_slice_def dvd_diff_nat)
qed

lemma w_slices_ok:
  assumes "0 < KS" "0 < NMAX" "32 dvd KS" "32 dvd NMAX" "32 dvd K" "32 dvd N" "K * N < 9223372036854775808" "s \<in> set (w_slices KS NMAX K N)"
  shows "slice_ok s"
proof -
  obtain n0 Nc k0 Kp where s: "s = (n0, Nc, k0, Kp)" "(n0, Nc) \<in> set (n_slices NMAX N)" "(k0, Kp) \<in> set (n_slices KS K)"
    using assms(8) by (auto simp: w_slices_def)
  note a = n_slices_bounds [OF s(2) assms(2,4,6)] n_slices_bounds [OF s(3) assms(1,3,5)]
  then have "Kp * Nc \<le> K * N" by (intro mult_le_mono) linarith+
  with a assms(7) show ?thesis by (simp add: s)
qed

lemma untiled_covers:
  assumes "0 < KS" "0 < NMAX" "32 dvd KS" "32 dvd NMAX" "32 dvd K" "32 dvd N" "i < K * N"
  shows "i \<in> fst ` set (concat (map (untiled B N) (w_slices KS NMAX K N)))"
proof -
  have N: "0 < N" using assms(7) by (cases N) auto
  then have kn: "i div N < K" "i mod N < N" using assms(7) by (auto simp: less_mult_imp_div_less)
  obtain n0 Nc where n: "(n0, Nc) \<in> set (n_slices NMAX N)" "n0 \<le> i mod N" "i mod N < n0 + Nc"
    using n_slices_mem [OF assms(2) kn(2)] by blast
  obtain k0 Kp where k: "(k0, Kp) \<in> set (n_slices KS K)" "k0 \<le> i div N" "i div N < k0 + Kp"
    using n_slices_mem [OF assms(1) kn(1)] by blast
  define k' where "k' = i div N - k0"
  define n' where "n' = i mod N - n0"
  have d: "32 dvd Nc" "32 dvd Kp" using n_slices_bounds [OF n(1) assms(2,4,6)] n_slices_bounds [OF k(1) assms(1,3,5)] by auto
  let ?x = "(n' div 32, k' div 32, n' mod 32, k' mod 32)"
  have "n' < Nc div 32 * 32" "k' < Kp div 32 * 32" using n k d by (auto simp: n'_def k'_def)
  then have "?x \<in> set (tile_walk 0 (Nc div 32) (Kp div 32))" unfolding set_tile_walk by (simp add: less_mult_imp_div_less)
  moreover have "i = src_ix (slice_arg B N (n0, Nc, k0, Kp)) ?x"
    using n(2) k(2) div_mult_mod_eq [of i N] by (simp add: k'_def n'_def add.assoc)
  moreover have "(n0, Nc, k0, Kp) \<in> set (w_slices KS NMAX K N)" using n(1) k(1) by (auto simp: w_slices_def)
  moreover have "(src_ix (slice_arg B N (n0, Nc, k0, Kp)) x, B ! src_ix (slice_arg B N (n0, Nc, k0, Kp)) x)
      \<in> set (untiled B N (n0, Nc, k0, Kp))" if "x \<in> set (tile_walk 0 (Nc div 32) (Kp div 32))" for x
    unfolding untiled_def set_map fst_conv snd_conv using that by (rule imageI)
  ultimately have "(i, B ! i) \<in> set (concat (map (untiled B N) (w_slices KS NMAX K N)))"
    by (auto simp only: set_concat set_map)
  then show ?thesis by (rule image_eqI [rotated]) simp
qed

lemma untiled_all:
  assumes "0 < KS" "0 < NMAX" "32 dvd KS" "32 dvd NMAX" "32 dvd K" "32 dvd N" "length B = K * N" "length codes = K * N"
  shows "poke (concat (map (untiled B N) (w_slices KS NMAX K N))) codes = B"
proof (rule nth_equalityI)
  fix i assume i: "i < length (poke (concat (map (untiled B N) (w_slices KS NMAX K N))) codes)"
  have "\<forall>(j, v) \<in> set (concat (map (untiled B N) (w_slices KS NMAX K N))). v = B ! j"
    by (auto simp: untiled_def simp del: src_ix.simps)
  then show "poke (concat (map (untiled B N) (w_slices KS NMAX K N))) codes ! i = B ! i"
    using i untiled_covers [OF assms(1-6)] assms(8) by (subst poke_agree) auto
qed (use assms in simp)

lemma orki_int8_ks_props: "32 dvd orki_int8_ks kt" "0 < orki_int8_ks kt"
proof -
  have "32 dvd nat v" if "0 < v" "\<not> (v \<noteq> 0 \<and> (v < 32 \<or> c_mod v 32 \<noteq> 0))" for v :: int
  proof -
    have "32 dvd v" using that by (simp add: c_mod_nonneg mod_0_imp_dvd)
    then have "int 32 dvd int (nat v)" using that(1) by simp
    then show ?thesis by (simp only: int_dvd_int_iff)
  qed
  then show "32 dvd orki_int8_ks kt" by (auto simp: orki_int8_ks_def Let_def split: option.splits)
  show "0 < orki_int8_ks kt" by (auto simp: orki_int8_ks_def Let_def split: option.splits)
qed

end
