(* ===== verification/I8_Weight.thy ===== *)
theory I8_Weight
  imports I8_Tile
begin

section \<open>Resident int8 weights: \<open>src/npu/i8/pack.c\<close>, \<open>src/npu.c\<close>\<close>

text \<open>
  A resident weight is a grid of buffers \<open>Bb[ns*Sk+ks]\<close> with the tiles of its slices, and, when it fits,
  a second copy \<open>Bf[ns]\<close> tiled over the whole of \<open>K\<close>. A buffer is the C struct of \<open>Dma_Buf\<close> with the bytes
  it holds. The kernel's answers to the successive calls are \<open>an 0\<close>, \<open>an 1\<close>, ...; \<open>mem i n\<close> is what the \<open>n\<close>
  bytes handed out as number \<open>i\<close> hold before they are written (also \<open>malloc\<close>'s). The context is local (no
  daemon) and \<open>soc\<close> its SoC. Cache syncs and traces are not modelled.
\<close>

type_synonym filled = "buf \<times> byte list"

record kst =
  ks_n :: nat
  ks_dma :: dma

record i8_w =
  iw_K :: nat
  iw_N :: nat
  iw_Sk :: nat
  iw_Sn :: nat
  iw_owns :: bool
  iw_dom :: int
  iw_codes :: "byte list option"
  iw_own :: "buf option"
  iw_Bb :: "filled list"
  iw_Bf :: "filled list option"

record i8_ctx =
  ic_fd :: int
  ic_soc :: ork_soc
  ic_pack_dom :: int

record i8_env =
  ie_dom :: dom_env
  ie_ktile :: "int option"
  ie_no_bf :: bool
  ie_sram :: bool
  ie_consolidate :: bool
  ie_pool :: nat

type_synonym mem = "nat \<Rightarrow> nat \<Rightarrow> byte list"
type_synonym kernel = "nat \<Rightarrow> answers"

definition k_create :: "dom_env \<Rightarrow> kernel \<Rightarrow> nat \<Rightarrow> 32 word \<Rightarrow> int \<Rightarrow> kst \<Rightarrow> buf \<times> kst" where
  "k_create e an bytes fl d st =
     (let (b, s) = orki_bcreate e (an (ks_n st)) bytes fl d (ks_dma st) in (b, \<lparr>ks_n = Suc (ks_n st), ks_dma = s\<rparr>))"

definition k_destroy :: "kernel \<Rightarrow> buf \<Rightarrow> kst \<Rightarrow> kst" where
  "k_destroy an b st = \<lparr>ks_n = Suc (ks_n st), ks_dma = snd (orki_bdestroy (an (ks_n st)) b (ks_dma st))\<rparr>"

definition k_destroy_all :: "kernel \<Rightarrow> filled list \<Rightarrow> kst \<Rightarrow> kst" where
  "k_destroy_all an fs st = fold (\<lambda>f. k_destroy an (fst f)) fs st"

text \<open>Buffers created one after the other; the first failure gives up those before it.\<close>

fun fill_bufs :: "dom_env \<Rightarrow> kernel \<Rightarrow> 32 word \<Rightarrow> int \<Rightarrow> (nat \<times> (nat \<Rightarrow> nat \<Rightarrow> byte list)) list \<Rightarrow> filled list \<Rightarrow> kst
    \<Rightarrow> filled list option \<times> kst" where
  "fill_bufs e an fl d [] acc st = (Some acc, st)"
| "fill_bufs e an fl d ((bytes, content) # xs) acc st =
     (let (b, st') = k_create e an bytes fl d st in
      if bf_cpu b = 0 then (None, k_destroy_all an acc st')
      else fill_bufs e an fl d xs (acc @ [(b, content (ks_n st) (bf_size b))]) st')"

subsection \<open>Packing\<close>

definition full_arg :: "byte list \<Rightarrow> nat \<Rightarrow> nat \<Rightarrow> nat \<Rightarrow> tile_i8_arg" where
  "full_arg B K N n0 = \<lparr>ti_Bi = B, ti_KT = K div 32, ti_k0 = 0, ti_n0 = n0, ti_N = N\<rparr>"

definition nmax_of :: "i8_ctx \<Rightarrow> nat" where
  "nmax_of c = nat (soc_nmax (ic_soc c))"

text \<open>The consolidated form: one buffer, the tiles page-aligned views of it.\<close>

fun own_views :: "buf \<Rightarrow> byte list \<Rightarrow> byte list \<Rightarrow> nat \<Rightarrow> slice list \<Rightarrow> nat \<Rightarrow> filled list" where
  "own_views o1 m B N [] off = []"
| "own_views o1 m B N (s # ss) off =
     (let ts = slice_size s in
      (no_buf\<lparr>bf_handle := bf_handle o1, bf_obj := bf_obj o1, bf_dma := bf_dma o1 + off, bf_cpu := bf_cpu o1 + off, bf_size := ts\<rparr>,
       orki_i8_tile_range (slice_arg B N s) 0 (fst (snd s) div 32) (take ts (drop off m)))
      # own_views o1 m B N ss (off + ts))"

definition pack_bb :: "i8_env \<Rightarrow> kernel \<Rightarrow> mem \<Rightarrow> int \<Rightarrow> byte list \<Rightarrow> nat \<Rightarrow> slice list \<Rightarrow> kst \<Rightarrow> filled list option \<times> kst" where
  "pack_bb v an mem d B N ss st =
     fill_bufs (ie_dom v) an (if ie_sram v then 0x403 OR MEM_TRY_ALLOC_SRAM else 0x403) d
       (map (\<lambda>s. (snd (snd (snd s)) * fst (snd s),
                  \<lambda>i n. par_tile (ie_pool v) (fst (snd s) div 32) (slice_arg B N s) (mem i n))) ss) [] st"

definition pack_bf :: "i8_env \<Rightarrow> kernel \<Rightarrow> mem \<Rightarrow> int \<Rightarrow> byte list \<Rightarrow> nat \<Rightarrow> nat \<Rightarrow> (nat \<times> nat) list \<Rightarrow> kst
    \<Rightarrow> filled list option \<times> kst" where
  "pack_bf v an mem d B K N ns st =
     fill_bufs (ie_dom v) an 0x403 d
       (map (\<lambda>(n0, Nc). (K * Nc, \<lambda>i n. par_tile (ie_pool v) (Nc div 32) (full_arg B K N n0) (mem i n))) ns) [] st"

definition with_bf :: "bool \<Rightarrow> (kst \<Rightarrow> filled list option \<times> kst) \<Rightarrow> i8_w \<times> kst \<Rightarrow> i8_w option \<times> kst" where
  "with_bf cond build r = (if cond then (let (bf, st) = build (snd r) in (Some ((fst r)\<lparr>iw_Bf := bf\<rparr>), st)) else (Some (fst r), snd r))"

definition new_w :: "nat \<Rightarrow> nat \<Rightarrow> nat \<Rightarrow> nat \<Rightarrow> int \<Rightarrow> i8_w" where
  "new_w K N Sk Sn d = \<lparr>iw_K = K, iw_N = N, iw_Sk = Sk, iw_Sn = Sn, iw_owns = True, iw_dom = d, iw_codes = None,
     iw_own = None, iw_Bb = [], iw_Bf = None\<rparr>"

definition pack_tiles :: "i8_env \<Rightarrow> kernel \<Rightarrow> mem \<Rightarrow> byte list \<Rightarrow> i8_w \<Rightarrow> slice list \<Rightarrow> kst \<Rightarrow> i8_w option \<times> kst" where
  "pack_tiles v an mem B w ss st =
     (let plain = (\<lambda>st. map_prod (map_option (\<lambda>bb. w\<lparr>iw_Bb := bb\<rparr>)) (\<lambda>st. st) (pack_bb v an mem (iw_dom w) B (iw_N w) ss st)) in
      if \<not> ie_consolidate v then plain st
      else let (b, st1) = k_create (ie_dom v) an (w_bytes ss) 0x403 (iw_dom w) st in
        if bf_cpu b = 0 then plain st1
        else (Some (w\<lparr>iw_own := Some b, iw_owns := False,
                    iw_Bb := own_views b (mem (ks_n st) (bf_size b)) B (iw_N w) ss 0\<rparr>), st1))"

text \<open>\<open>orki_pack\<close> for int8, without the sliced companion.\<close>

definition orki_pack_i8 :: "i8_env \<Rightarrow> kernel \<Rightarrow> mem \<Rightarrow> i8_ctx \<Rightarrow> nat \<Rightarrow> nat \<Rightarrow> byte list \<Rightarrow> kst \<Rightarrow> i8_w option \<times> kst" where
  "orki_pack_i8 v an mem c K N B st =
     (if K mod 32 \<noteq> 0 \<or> N mod 32 \<noteq> 0 then (None, st)
      else
        let KS = orki_int8_ks (ie_ktile v); NMAX = nmax_of c; Sk = (K + KS - 1) div KS; Sn = (N + NMAX - 1) div NMAX;
            w = new_w K N Sk Sn (ork_dom (ie_dom v) (ic_pack_dom c))
        in case pack_tiles v an mem B w (w_slices KS NMAX K N) st of
          (None, st) \<Rightarrow> (None, st)
        | (Some w, st) \<Rightarrow>
          with_bf (K \<le> 10752 \<and> \<not> ie_no_bf v \<and> \<not> (KS < K \<and> ie_ktile v \<noteq> None))
            (pack_bf v an mem (iw_dom w) B K N (n_slices NMAX N)) (w, st))"

definition ork_i8_mm_pack :: "i8_env \<Rightarrow> kernel \<Rightarrow> mem \<Rightarrow> i8_ctx \<Rightarrow> nat \<Rightarrow> nat \<Rightarrow> byte list \<Rightarrow> kst \<Rightarrow> i8_w option \<times> kst" where
  "ork_i8_mm_pack v an mem c K N B st =
     (if ic_fd c < 0 then (Some ((new_w K N 1 1 0)\<lparr>iw_codes := Some (take (K * N) B)\<rparr>), st)
      else orki_pack_i8 v an mem c K N B st)"

subsection \<open>Loading a persisted weight\<close>

text \<open>The copies a column slice makes of its K-slices' tiles into the full-K layout.\<close>

fun shift_kt :: "nat \<Rightarrow> cell \<Rightarrow> cell" where
  "shift_kt d (nt, kt, nl, kk) = (nt, d + kt, nl, kk)"

definition bf_part_writes :: "nat \<Rightarrow> nat \<Rightarrow> nat \<times> nat \<times> byte list \<Rightarrow> (nat \<times> byte) list" where
  "bf_part_writes KTf NN part = (case part of (k0, Kp, sb) \<Rightarrow>
     map (\<lambda>x. (tile_ix KTf (shift_kt (k0 div 32) x), sb ! tile_ix (Kp div 32) x)) (tile_walk 0 NN (Kp div 32)))"

definition bf_writes :: "nat \<Rightarrow> nat \<Rightarrow> (nat \<times> nat \<times> byte list) list \<Rightarrow> (nat \<times> byte) list" where
  "bf_writes KTf NN parts = concat (map (bf_part_writes KTf NN) parts)"

definition bf_parts :: "filled list \<Rightarrow> nat \<Rightarrow> (nat \<times> nat) list \<Rightarrow> nat \<Rightarrow> (nat \<times> nat \<times> byte list) list" where
  "bf_parts Bb Sk kss ns = map (\<lambda>ks. (fst (kss ! ks), snd (kss ! ks), snd (Bb ! (ns * Sk + ks)))) [0..<Sk]"

definition load_bf :: "i8_env \<Rightarrow> kernel \<Rightarrow> mem \<Rightarrow> i8_w \<Rightarrow> nat \<Rightarrow> nat \<Rightarrow> kst \<Rightarrow> filled list option \<times> kst" where
  "load_bf v an mem w KS NMAX st =
     fill_bufs (ie_dom v) an 0x403 (iw_dom w)
       (map (\<lambda>ns. let Nc = c_slice (iw_N w) NMAX ns in
               (iw_K w * Nc, \<lambda>i n. poke (bf_writes (iw_K w div 32) (Nc div 32)
                                     (bf_parts (iw_Bb w) (iw_Sk w) (n_slices KS (iw_K w)) ns)) (mem i n)))
          [0..<iw_Sn w]) [] st"

text \<open>The tiles are copied in order; the read position advances by each buffer's size.\<close>

fun load_bb :: "dom_env \<Rightarrow> kernel \<Rightarrow> 32 word \<Rightarrow> int \<Rightarrow> byte list \<Rightarrow> slice list \<Rightarrow> nat \<Rightarrow> filled list \<Rightarrow> kst
    \<Rightarrow> filled list option \<times> kst" where
  "load_bb e an fl d blob [] off acc st = (Some acc, st)"
| "load_bb e an fl d blob ((n0, Nc, k0, Kp) # ss) off acc st =
     (let (b, st') = k_create e an (Kp * Nc) fl d st in
      if bf_cpu b = 0 then (None, k_destroy_all an acc st')
      else load_bb e an fl d blob ss (off + bf_size b) (acc @ [(b, take (bf_size b) (drop off blob))]) st')"

definition load_tiles :: "i8_env \<Rightarrow> kernel \<Rightarrow> 32 word \<Rightarrow> i8_ctx \<Rightarrow> nat \<Rightarrow> nat \<Rightarrow> byte list \<Rightarrow> nat \<Rightarrow> kst \<Rightarrow> i8_w option \<times> kst" where
  "load_tiles v an fl c K N blob n st =
     (if K mod 32 \<noteq> 0 \<or> N mod 32 \<noteq> 0 then (None, st)
      else
        let KS = 1024; NMAX = nmax_of c; ss = w_slices KS NMAX K N in
        if n \<noteq> w_bytes ss then (None, st)
        else
          let w = new_w K N ((K + KS - 1) div KS) ((N + NMAX - 1) div NMAX) (ork_dom (ie_dom v) (ic_pack_dom c));
              (bb, st) = load_bb (ie_dom v) an fl (iw_dom w) blob ss 0 [] st
          in (map_option (\<lambda>bb. w\<lparr>iw_Bb := bb\<rparr>) bb, st))"

definition ork_i8_mm_load :: "ork_soc option \<Rightarrow> i8_env \<Rightarrow> kernel \<Rightarrow> mem \<Rightarrow> i8_ctx \<Rightarrow> nat \<Rightarrow> nat \<Rightarrow> byte list option \<Rightarrow> nat \<Rightarrow> kst
    \<Rightarrow> i8_w option \<times> kst" where
  "ork_i8_mm_load det v an mem c K N blob n st =
     (if orki_pack_check det (Some (Some (ic_soc c))) blob n 1 (int K) (int N) \<noteq> PACK_OK' then (None, st)
      else
        let body = drop ORK_PACK_HDR_BYTES (the blob); n = n - ORK_PACK_HDR_BYTES in
        if ic_fd c < 0 then
          (case orki_i8_untile_blob (ie_ktile v) (Some (ic_soc c)) K N (Some body) n (Some (mem (ks_n st) (K * N))) of
             (r, codes) \<Rightarrow> if r \<noteq> 0 then (None, st) else (Some ((new_w K N 1 1 0)\<lparr>iw_codes := codes\<rparr>), st))
        else case load_tiles v an 0x403 c K N body n st of
          (None, st) \<Rightarrow> (None, st)
        | (Some w, st) \<Rightarrow>
          with_bf (K mod 512 = 0 \<and> K \<le> 4096 \<and> \<not> ie_no_bf v) (load_bf v an mem w 1024 (nmax_of c)) (w, st))"

definition ork_i8_mm_load_flags :: "ork_soc option \<Rightarrow> i8_env \<Rightarrow> kernel \<Rightarrow> i8_ctx \<Rightarrow> nat \<Rightarrow> nat \<Rightarrow> byte list option \<Rightarrow> nat \<Rightarrow> 32 word
    \<Rightarrow> kst \<Rightarrow> i8_w option \<times> kst" where
  "ork_i8_mm_load_flags det v an c K N blob n flags st =
     (if orki_pack_check det (Some (Some (ic_soc c))) blob n 1 (int K) (int N) \<noteq> PACK_OK' then (None, st)
      else load_tiles v an flags c K N (drop ORK_PACK_HDR_BYTES (the blob)) (n - ORK_PACK_HDR_BYTES) st)"

subsection \<open>Freeing\<close>

text \<open>\<open>ork_mm_free\<close> for a local int8 weight without fold or chunked buffers (\<open>Bf\<close> entries of a view have
  \<open>heap_fd = -1\<close> and stay); the flush before it is not modelled.\<close>

definition ork_mm_free :: "kernel \<Rightarrow> i8_w \<Rightarrow> kst \<Rightarrow> kst" where
  "ork_mm_free an w st =
     (if iw_codes w \<noteq> None then st
      else
        let st = (if iw_owns w then k_destroy_all an (filter (\<lambda>f. bf_cpu (fst f) \<noteq> 0) (iw_Bb w)) st else st);
            st = (case iw_Bf w of None \<Rightarrow> st
                  | Some bf \<Rightarrow> k_destroy_all an (filter (\<lambda>f. bf_cpu (fst f) \<noteq> 0 \<and> 0 \<le> bf_heap (fst f)) bf) st)
        in case iw_own w of None \<Rightarrow> st | Some b \<Rightarrow> k_destroy an b st)"

subsection \<open>Repacking in place\<close>

text \<open>A write past the end of a buffer has no meaning: \<open>None\<close>.\<close>

definition write_in :: "(nat \<times> 'a) list \<Rightarrow> 'a list \<Rightarrow> 'a list option" where
  "write_in ws b = (if list_all (\<lambda>w. fst w < length b) ws then Some (poke ws b) else None)"

text \<open>The loops over the buffers with what each is to hold; the first kind stops at a NULL buffer, the second
  skips it. \<open>True\<close>: the loop ran to its end.\<close>

fun refill_or_stop :: "(tile_i8_arg \<times> nat) list \<Rightarrow> filled list \<Rightarrow> (bool \<times> filled list) option" where
  "refill_or_stop [] fs = Some (True, fs)"
| "refill_or_stop (x # xs) [] = None"
| "refill_or_stop ((t, NN) # xs) (f # fs) =
     (if bf_cpu (fst f) = 0 then Some (False, f # fs)
      else case write_in (tile_writes t 0 NN) (snd f) of None \<Rightarrow> None
      | Some bs \<Rightarrow> map_option (\<lambda>r. (fst r, (fst f, bs) # snd r)) (refill_or_stop xs fs))"

fun refill_or_skip :: "(tile_i8_arg \<times> nat) list \<Rightarrow> filled list \<Rightarrow> filled list option" where
  "refill_or_skip [] fs = Some fs"
| "refill_or_skip (x # xs) [] = None"
| "refill_or_skip ((t, NN) # xs) (f # fs) =
     (if bf_cpu (fst f) = 0 then map_option (Cons f) (refill_or_skip xs fs)
      else case write_in (tile_writes t 0 NN) (snd f) of None \<Rightarrow> None
      | Some bs \<Rightarrow> map_option (Cons (fst f, bs)) (refill_or_skip xs fs))"

text \<open>\<open>Bb[ns*Sk+ks]\<close> for the weight's own \<open>Sk\<close> and \<open>Sn\<close>, at the fixed K-slice 1024.\<close>

definition repack_args :: "i8_w \<Rightarrow> nat \<Rightarrow> byte list \<Rightarrow> (tile_i8_arg \<times> nat) list" where
  "repack_args w NMAX B =
     [(\<lparr>ti_Bi = B, ti_KT = c_slice (iw_K w) 1024 ks div 32, ti_k0 = ks * 1024, ti_n0 = ns * NMAX, ti_N = iw_N w\<rparr>,
       c_slice (iw_N w) NMAX ns div 32). ns \<leftarrow> [0..<iw_Sn w], ks \<leftarrow> [0..<iw_Sk w]]"

definition repack_full_args :: "i8_w \<Rightarrow> nat \<Rightarrow> byte list \<Rightarrow> (tile_i8_arg \<times> nat) list" where
  "repack_full_args w NMAX B =
     map (\<lambda>ns. (full_arg B (iw_K w) (iw_N w) (ns * NMAX), c_slice (iw_N w) NMAX ns div 32)) [0..<iw_Sn w]"

definition ork_i8_mm_repack :: "i8_ctx \<Rightarrow> i8_w option \<Rightarrow> nat \<Rightarrow> nat \<Rightarrow> byte list \<Rightarrow> (int \<times> i8_w option) option" where
  "ork_i8_mm_repack c w0 K N B =
     (case w0 of None \<Rightarrow> Some (- 1, w0)
      | Some w \<Rightarrow>
        if iw_codes w \<noteq> None then Some (- 1, w0)
        else if iw_K w \<noteq> K \<or> iw_N w \<noteq> N then Some (- 2, w0)
        else case refill_or_stop (repack_args w (nmax_of c) B) (iw_Bb w) of None \<Rightarrow> None
        | Some (done1, bb) \<Rightarrow>
          let w = w\<lparr>iw_Bb := bb\<rparr> in
          if \<not> done1 then Some (- 1, Some w)
          else case iw_Bf w of
            Some bf \<Rightarrow>
              if K \<le> 10752 then map_option (\<lambda>bf. (0, Some (w\<lparr>iw_Bf := Some bf\<rparr>))) (refill_or_skip (repack_full_args w (nmax_of c) B) bf)
              else Some (0, Some w)
          | None \<Rightarrow> Some (0, Some w))"

subsection \<open>The resident key and value weights\<close>

record kv_res =
  kv_wkt :: i8_w
  kv_wv :: i8_w
  kv_HD :: nat
  kv_Lmax :: nat
  kv_Kp :: nat

text \<open>\<open>ork_w_free\<close> only frees host memory, so what was mapped stays mapped.\<close>

definition ork_kv_resident_alloc :: "i8_env \<Rightarrow> kernel \<Rightarrow> mem \<Rightarrow> i8_ctx option \<Rightarrow> nat \<Rightarrow> nat \<Rightarrow> kst \<Rightarrow> kv_res option \<times> kst" where
  "ork_kv_resident_alloc v an mem c HD Lmax st =
     (case c of None \<Rightarrow> (None, st)
      | Some c \<Rightarrow>
        if HD mod 32 \<noteq> 0 \<or> Lmax mod 32 \<noteq> 0 \<or> Lmax < 32 \<or> Lmax > nmax_of c then (None, st)
        else
          let (wkt, st) = ork_i8_mm_pack v an mem c 512 Lmax (replicate (512 * Lmax) 0) st;
              (wv, st) = ork_i8_mm_pack v an mem c Lmax HD (replicate (Lmax * HD) 0) st
          in case (wkt, wv) of
               (Some wkt, Some wv) \<Rightarrow> (Some \<lparr>kv_wkt = wkt, kv_wv = wv, kv_HD = HD, kv_Lmax = Lmax, kv_Kp = 512\<rparr>, st)
             | _ \<Rightarrow> (None, st))"

text \<open>One key's column of \<open>K^T\<close>, one key's row of \<open>V\<close> (at position \<open>lk\<close> of its buffer), as writes.\<close>

definition kt_cells :: "nat \<Rightarrow> nat \<Rightarrow> cell list" where
  "kt_cells key HD = map (\<lambda>k. (key div 32, k div 32, key mod 32, k mod 32)) [0..<HD]"

definition v_cells :: "nat \<Rightarrow> nat \<Rightarrow> cell list" where
  "v_cells lk HD = map (\<lambda>e. (e div 32, lk div 32, e mod 32, lk mod 32)) [0..<HD]"

definition put_cells :: "nat \<Rightarrow> cell list \<Rightarrow> byte list \<Rightarrow> filled list \<Rightarrow> nat \<Rightarrow> filled list option" where
  "put_cells KT cs vs fs i =
     (if i < length fs then map_option (\<lambda>bs. fs[i := (fst (fs ! i), bs)]) (write_in (zip (map (tile_ix KT) cs) vs) (snd (fs ! i)))
      else None)"

definition put_bf :: "nat \<Rightarrow> cell list \<Rightarrow> byte list \<Rightarrow> i8_w \<Rightarrow> i8_w option" where
  "put_bf KT cs vs w = (case iw_Bf w of None \<Rightarrow> Some w | Some bf \<Rightarrow> map_option (\<lambda>bf. w\<lparr>iw_Bf := Some bf\<rparr>) (put_cells KT cs vs bf 0))"

definition put_bb :: "nat \<Rightarrow> cell list \<Rightarrow> byte list \<Rightarrow> nat \<Rightarrow> i8_w \<Rightarrow> i8_w option" where
  "put_bb KT cs vs i w = map_option (\<lambda>bb. w\<lparr>iw_Bb := bb\<rparr>) (put_cells KT cs vs (iw_Bb w) i)"

definition ork_kv_append :: "int option \<Rightarrow> kv_res option \<Rightarrow> int \<Rightarrow> byte list option \<Rightarrow> byte list option
    \<Rightarrow> (int \<times> kv_res option) option" where
  "ork_kv_append kt kv0 key kcol vrow =
     (case (kv0, kcol, vrow) of
        (Some kv, Some kc, Some vr) \<Rightarrow>
          if key < 0 \<or> key \<ge> int (kv_Lmax kv) then Some (- 2, kv0)
          else
            let HD = kv_HD kv; KS = orki_int8_ks kt; key = nat key; KTf = kv_Kp kv div 32; Lmax = kv_Lmax kv;
                ks = key div KS; Kp = c_slice Lmax KS ks; lk = key - ks * KS;
                r = Option.bind (put_bf KTf (kt_cells key HD) (take HD kc) (kv_wkt kv)) (put_bb KTf (kt_cells key HD) (take HD kc) 0);
                s = Option.bind (put_bf (Lmax div 32) (v_cells key HD) (take HD vr) (kv_wv kv))
                      (put_bb (Kp div 32) (v_cells lk HD) (take HD vr) ks)
            in (case (r, s) of (Some wkt, Some wv) \<Rightarrow> Some (0, Some (kv\<lparr>kv_wkt := wkt, kv_wv := wv\<rparr>)) | _ \<Rightarrow> None)
      | _ \<Rightarrow> Some (- 2, kv0))"

subsection \<open>What a resident weight holds\<close>

definition holds_tile :: "tile_i8_arg \<Rightarrow> nat \<Rightarrow> byte list \<Rightarrow> bool" where
  "holds_tile t NN bs \<longleftrightarrow> NN * (ti_KT t * 1024) \<le> length bs \<and> take (NN * (ti_KT t * 1024)) bs = tile_spec t NN"

text \<open>The contract of every resident int8 weight: each tile buffer, and each full-K buffer if there is one,
  starts with the tiles of its part of \<open>B\<close>.\<close>

definition holds_matrix :: "nat \<Rightarrow> nat \<Rightarrow> i8_w \<Rightarrow> byte list \<Rightarrow> bool" where
  "holds_matrix KS NMAX w B \<longleftrightarrow>
     iw_codes w = None \<and> iw_Sk w = (iw_K w + KS - 1) div KS \<and> iw_Sn w = (iw_N w + NMAX - 1) div NMAX
   \<and> list_all2 (\<lambda>s f. bf_cpu (fst f) \<noteq> 0 \<and> holds_tile (slice_arg B (iw_N w) s) (fst (snd s) div 32) (snd f))
       (w_slices KS NMAX (iw_K w) (iw_N w)) (iw_Bb w)
   \<and> (\<forall>bf. iw_Bf w = Some bf \<longrightarrow>
        list_all2 (\<lambda>n f. bf_cpu (fst f) \<noteq> 0 \<and> holds_tile (full_arg B (iw_K w) (iw_N w) (fst n)) (snd n div 32) (snd f))
          (n_slices NMAX (iw_N w)) bf)"

lemma holds_tile_iff:
  "holds_tile t NN bs \<longleftrightarrow> NN * (ti_KT t * 1024) \<le> length bs
     \<and> (\<forall>x \<in> set (tile_walk 0 NN (ti_KT t)). bs ! tile_ix (ti_KT t) x = ti_Bi t ! src_ix t x)"
proof (cases "NN * (ti_KT t * 1024) \<le> length bs")
  case len: True
  let ?A = "NN * (ti_KT t * 1024)"
  have "take ?A bs = tile_spec t NN \<longleftrightarrow> (\<forall>i < ?A. bs ! i = ti_Bi t ! src_ix t (tile_cell (ti_KT t) i))"
    using len by (simp add: list_eq_iff_nth_eq tile_spec_def del: tile_cell.simps)
  also have "\<dots> \<longleftrightarrow> (\<forall>x \<in> set (tile_walk 0 NN (ti_KT t)). bs ! tile_ix (ti_KT t) x = ti_Bi t ! src_ix t x)" (is "?L \<longleftrightarrow> ?R")
  proof
    assume ?L
    then show ?R using tile_ix_less tile_cell_ix by metis
  next
    assume r: ?R
    show ?L
    proof (intro allI impI)
      fix i assume i: "i < ?A"
      then have "0 < ti_KT t" by (cases "ti_KT t = 0") auto
      with r tile_cell_walk [OF i] show "bs ! i = ti_Bi t ! src_ix t (tile_cell (ti_KT t) i)" by (metis tile_ix_cell)
    qed
  qed
  finally show ?thesis using len by (simp add: holds_tile_def)
qed (simp add: holds_tile_def)

lemma holds_tile_spec: "holds_tile t NN (tile_spec t NN @ rest)"
  by (simp add: holds_tile_def)

lemma holds_tile_poke:
  "set ws = set (tile_writes t 0 NN) \<Longrightarrow> NN * (ti_KT t * 1024) \<le> length bb \<Longrightarrow> holds_tile t NN (poke ws bb)"
  by (simp add: tile_poke holds_tile_spec)

lemma holds_tile_par: "NN * (ti_KT t * 1024) \<le> length bb \<Longrightarrow> holds_tile t NN (par_tile pool NN t bb)"
  by (simp add: par_tile_spec holds_tile_spec)

lemma holds_tile_range: "NN * (ti_KT t * 1024) \<le> length bb \<Longrightarrow> holds_tile t NN (orki_i8_tile_range t 0 NN bb)"
  by (simp add: tile_range_spec holds_tile_spec)

subsection \<open>Filling\<close>

lemma k_create_shape:
  assumes "k_create e an n fl d st = (b, st')" "bf_cpu b \<noteq> 0"
  shows "bf_size b = orki_pgup n" "ks_n st' = Suc (ks_n st)"
  using assms bcreate_shape [of e "an (ks_n st)" n fl d "ks_dma st"] by (auto simp: k_create_def split: prod.splits)

lemma fill_bufs_shape:
  "fill_bufs e an fl d xs acc st = (Some fs, st') \<Longrightarrow>
     \<exists>gs. fs = acc @ gs \<and> list_all2 (\<lambda>x f. bf_cpu (fst f) \<noteq> 0 \<and> (\<exists>i. snd f = snd x i (orki_pgup (fst x)))) xs gs"
proof (induction xs arbitrary: acc st)
  case (Cons x xs)
  obtain bytes content b st1 where x: "x = (bytes, content)" "k_create e an bytes fl d st = (b, st1)"
    by (cases x, cases "k_create e an (fst x) fl d st") auto
  with Cons.prems have b: "bf_cpu b \<noteq> 0" by (auto split: if_splits)
  with Cons.prems x have "fill_bufs e an fl d xs (acc @ [(b, content (ks_n st) (bf_size b))]) st1 = (Some fs, st')" by simp
  from Cons.IH [OF this] obtain gs where gs: "fs = (acc @ [(b, content (ks_n st) (bf_size b))]) @ gs"
    "list_all2 (\<lambda>x f. bf_cpu (fst f) \<noteq> 0 \<and> (\<exists>i. snd f = snd x i (orki_pgup (fst x)))) xs gs" by auto
  with b x k_create_shape(1) [OF x(2) b] show ?case by (intro exI [of _ "(b, content (ks_n st) (bf_size b)) # gs"]) auto
qed auto

lemma fill_bufs_map:
  "fill_bufs e an fl d (map g xs) [] st = (Some fs, st') \<Longrightarrow>
     (\<And>x i f. x \<in> set xs \<Longrightarrow> bf_cpu (fst f) \<noteq> 0 \<Longrightarrow> snd f = snd (g x) i (orki_pgup (fst (g x))) \<Longrightarrow> P x f) \<Longrightarrow> list_all2 P xs fs"
  by (drule fill_bufs_shape) (auto simp: list_all2_map1 elim!: list.rel_mono_strong)

lemma load_bb_shape:
  "load_bb e an fl d blob ss off acc st = (Some fs, st') \<Longrightarrow> drop off blob = concat (map (slice_blob B N) ss) \<Longrightarrow>
     \<forall>s \<in> set ss. slice_ok s \<Longrightarrow>
     \<exists>gs. fs = acc @ gs \<and> list_all2 (\<lambda>s f. bf_cpu (fst f) \<noteq> 0 \<and> snd f = slice_blob B N s) ss gs"
proof (induction ss arbitrary: off acc st)
  case (Cons s ss)
  obtain n0 Nc k0 Kp where s: "s = (n0, Nc, k0, Kp)" by (cases s)
  obtain b st1 where k: "k_create e an (Kp * Nc) fl d st = (b, st1)" by (cases "k_create e an (Kp * Nc) fl d st")
  with Cons.prems s have b: "bf_cpu b \<noteq> 0" by (auto split: if_splits)
  have ok: "slice_ok s" using Cons.prems(3) by simp
  have sz: "bf_size b = slice_size s" using k_create_shape(1) [OF k b] by (simp add: s)
  have l: "length (slice_blob B N s) = bf_size b" using slice_blob_length [OF ok] sz by simp
  have t: "take (bf_size b) (drop off blob) = slice_blob B N s" using Cons.prems(2) l by simp
  have d: "drop (off + bf_size b) blob = concat (map (slice_blob B N) ss)"
  proof -
    have "drop (bf_size b) (drop off blob) = concat (map (slice_blob B N) ss)" unfolding Cons.prems(2) using l by simp
    then show ?thesis by (simp add: add.commute)
  qed
  have "load_bb e an fl d blob ss (off + bf_size b) (acc @ [(b, slice_blob B N s)]) st1 = (Some fs, st')"
    using Cons.prems(1) k b t unfolding s by simp
  from Cons.IH [OF this d] Cons.prems(3) obtain gs where "fs = (acc @ [(b, slice_blob B N s)]) @ gs"
    "list_all2 (\<lambda>s f. bf_cpu (fst f) \<noteq> 0 \<and> snd f = slice_blob B N s) ss gs" by auto
  with b show ?case by (intro exI [of _ "(b, slice_blob B N s) # gs"]) auto
qed auto

lemma slice_blob_holds: "holds_tile (slice_arg B N s) (fst (snd s) div 32) (slice_blob B N s)"
  by (cases s) (simp add: holds_tile_spec)

subsection \<open>Rebuilding the full-K copy\<close>

lemma product_nth:
  "i < length ns \<Longrightarrow> j < length ks \<Longrightarrow>
     i * length ks + j < length (concat (map (\<lambda>a. map (f a) ks) ns)) \<and> concat (map (\<lambda>a. map (f a) ks) ns) ! (i * length ks + j) = f (ns ! i) (ks ! j)"
proof (induction ns arbitrary: i)
  case (Cons n ns)
  show ?case
  proof (cases i)
    case (Suc m)
    with Cons.prems have m: "m < length ns" by simp
    have "concat (map (\<lambda>a. map (f a) ks) (n # ns)) ! (i * length ks + j) = concat (map (\<lambda>a. map (f a) ks) ns) ! (m * length ks + j)"
      using Suc by (simp add: nth_append)
    with Cons.IH [OF m Cons.prems(2)] Suc show ?thesis by simp
  qed (use Cons.prems in \<open>simp add: nth_append\<close>)
qed simp

lemma w_slices_prod:
  "w_slices KS NMAX K N = concat (map (\<lambda>n. map (\<lambda>k. (fst n, snd n, fst k, snd k)) (n_slices KS K)) (n_slices NMAX N))"
  unfolding w_slices_def by (auto intro!: arg_cong [of _ _ concat] map_cong)

lemma w_slices_nth:
  assumes "ns < length (n_slices NMAX N)" "ks < length (n_slices KS K)"
  shows "ns * length (n_slices KS K) + ks < length (w_slices KS NMAX K N)"
    "w_slices KS NMAX K N ! (ns * length (n_slices KS K) + ks) =
       (fst (n_slices NMAX N ! ns), snd (n_slices NMAX N ! ns), fst (n_slices KS K ! ks), snd (n_slices KS K ! ks))"
  using product_nth [OF assms, of "\<lambda>n k. (fst n, snd n, fst k, snd k)"] by (simp_all add: w_slices_prod)

lemma n_slices_len [simp]: "length (n_slices st whole) = (whole + st - 1) div st"
  by (simp add: n_slices_def)

text \<open>Tiles of the K-slices, copied, are the tiles of the whole.\<close>

lemma bf_writes_hold:
  assumes "32 dvd K" "n0 = fst n" "0 < KS" "32 dvd KS" "Nc div 32 * (K div 32 * 1024) \<le> length bb"
    and "\<And>k0 Kp sb. (k0, Kp, sb) \<in> set parts \<Longrightarrow>
           (k0, Kp) \<in> set (n_slices KS K) \<and> holds_tile (slice_arg B N (n0, Nc, k0, Kp)) (Nc div 32) sb"
    and "\<And>k0 Kp. (k0, Kp) \<in> set (n_slices KS K) \<Longrightarrow> \<exists>sb. (k0, Kp, sb) \<in> set parts"
  shows "holds_tile (full_arg B K N n0) (Nc div 32) (poke (bf_writes (K div 32) (Nc div 32) parts) bb)"
proof -
  let ?t = "full_arg B K N n0" and ?NN = "Nc div 32" and ?KT = "K div 32"
  let ?F = "\<lambda>i. B ! src_ix ?t (tile_cell ?KT i)"
  let ?ws = "bf_writes ?KT ?NN parts"
  have KT: "ti_KT ?t = ?KT" by (simp add: full_arg_def)
  have w: "(i, v) \<in> set ?ws \<longleftrightarrow> (\<exists>k0 Kp sb x. (k0, Kp, sb) \<in> set parts \<and> x \<in> set (tile_walk 0 ?NN (Kp div 32))
      \<and> i = tile_ix ?KT (shift_kt (k0 div 32) x) \<and> v = sb ! tile_ix (Kp div 32) x)" for i v
    unfolding bf_writes_def bf_part_writes_def by (force simp del: tile_ix.simps shift_kt.simps)
  have cell: "shift_kt (k0 div 32) x \<in> set (tile_walk 0 ?NN ?KT) \<and> sb ! tile_ix (Kp div 32) x = B ! src_ix ?t (shift_kt (k0 div 32) x)"
    if p: "(k0, Kp, sb) \<in> set parts" and x: "x \<in> set (tile_walk 0 ?NN (Kp div 32))" for k0 Kp sb x
  proof
    obtain nt kt nl kk where xe: "x = (nt, kt, nl, kk)" by (cases x)
    note b = n_slices_bounds [OF assms(6) [OF p, THEN conjunct1] assms(3,4,1)]
    then have "k0 div 32 + Kp div 32 \<le> K div 32" by (elim conjE dvdE) (simp add: algebra_simps)
    then show "shift_kt (k0 div 32) x \<in> set (tile_walk 0 ?NN ?KT)" using x unfolding xe set_tile_walk by auto
    have "sb ! tile_ix (Kp div 32) x = B ! src_ix (slice_arg B N (n0, Nc, k0, Kp)) x"
      using assms(6) [OF p] x by (simp add: holds_tile_iff del: tile_ix.simps src_ix.simps)
    also have "src_ix (slice_arg B N (n0, Nc, k0, Kp)) x = src_ix ?t (shift_kt (k0 div 32) x)"
      using b by (elim conjE dvdE) (simp add: full_arg_def xe algebra_simps)
    finally show "sb ! tile_ix (Kp div 32) x = B ! src_ix ?t (shift_kt (k0 div 32) x)" .
  qed
  have agree: "\<forall>(i, v) \<in> set ?ws. v = ?F i"
  proof clarify
    fix i v assume "(i, v) \<in> set ?ws"
    then obtain k0 Kp sb x where "(k0, Kp, sb) \<in> set parts" "x \<in> set (tile_walk 0 ?NN (Kp div 32))"
      "i = tile_ix ?KT (shift_kt (k0 div 32) x)" "v = sb ! tile_ix (Kp div 32) x" unfolding w by blast
    then show "v = ?F i" using cell tile_cell_ix by metis
  qed
  have "poke ?ws bb ! tile_ix ?KT x = B ! src_ix ?t x" if x: "x \<in> set (tile_walk 0 ?NN ?KT)" for x
  proof -
    obtain nt ktf nl kk where xe: "x = (nt, ktf, nl, kk)" by (cases x)
    with x have "ktf < ?KT" unfolding set_tile_walk by auto
    then have "ktf * 32 < K" using assms(1) by auto
    then obtain k0 Kp where k: "(k0, Kp) \<in> set (n_slices KS K)" "k0 \<le> ktf * 32" "ktf * 32 < k0 + Kp"
      using n_slices_mem [OF assms(3)] by blast
    obtain sb where sb: "(k0, Kp, sb) \<in> set parts" using assms(7) [OF k(1)] by blast
    have d: "32 dvd k0" "32 dvd Kp" using n_slices_bounds [OF k(1) assms(3,4,1)] by auto
    then have "ktf - k0 div 32 < Kp div 32" "k0 div 32 \<le> ktf" using k(2,3) by (auto elim!: dvdE)
    then have y: "(nt, ktf - k0 div 32, nl, kk) \<in> set (tile_walk 0 ?NN (Kp div 32))" "x = shift_kt (k0 div 32) (nt, ktf - k0 div 32, nl, kk)"
      using x unfolding xe set_tile_walk by auto
    then have "(tile_ix ?KT x, sb ! tile_ix (Kp div 32) (nt, ktf - k0 div 32, nl, kk)) \<in> set ?ws"
      using sb unfolding w by blast
    then have "tile_ix ?KT x \<in> fst ` set ?ws" by (metis fst_conv imageI)
    moreover have "tile_ix ?KT x < length bb" using tile_ix_less [OF x] assms(5) by linarith
    ultimately show ?thesis using poke_agree [OF agree] tile_cell_ix [OF x] by (simp only: if_True)
  qed
  then show ?thesis using assms(5) by (simp add: holds_tile_iff KT full_arg_def)
qed

subsection \<open>Dump and offline load\<close>

text \<open>The geometry every statement below is about: whole tiles, and sizes that fit a \<open>size_t\<close>.\<close>

definition geom_ok :: "nat \<Rightarrow> nat \<Rightarrow> nat \<Rightarrow> nat \<Rightarrow> bool" where
  "geom_ok KS NMAX K N \<longleftrightarrow> 0 < KS \<and> 0 < NMAX \<and> 32 dvd KS \<and> 32 dvd NMAX \<and> 32 dvd K \<and> 32 dvd N
     \<and> K * N < 9223372036854775808 \<and> w_bytes (w_slices KS NMAX K N) < 9223372036854775808"

lemma geom_slices: "geom_ok KS NMAX K N \<Longrightarrow> s \<in> set (w_slices KS NMAX K N) \<Longrightarrow> slice_ok s"
  using w_slices_ok [of KS NMAX K N s] by (auto simp: geom_ok_def)

lemma dump_cpu_spec:
  assumes g: "geom_ok (orki_int8_ks kt) (nat (soc_nmax soc)) K N"
  defines "ss \<equiv> w_slices (orki_int8_ks kt) (nat (soc_nmax soc)) K N"
  assumes len: "length out = 4096 + w_bytes ss"
  shows "ork_i8_w_dump_cpu det kt pool (Some soc) K N (Some B) None cap = (4096 + w_bytes ss, None)"
    "ork_i8_w_dump_cpu det kt pool (Some soc) K N (Some B) (Some out) (length out) =
       (4096 + w_bytes ss, Some (hdr_page det (Some (Some soc)) 1 (int K) (int N) @ concat (map (slice_blob B N) ss)))"
    "ork_i8_w_dump_cpu_st kt (Some soc) K N (Some B) (Some (drop 4096 out)) (w_bytes ss) =
       (w_bytes ss, Some (concat (map (slice_blob B N) ss)))"
proof -
  have ok: "\<forall>s \<in> set ss. slice_ok s" using geom_slices [OF g] by (simp add: ss_def)
  have m: "K mod 32 = 0" "N mod 32 = 0" using g by (simp_all add: geom_ok_def mod_eq_0_iff_dvd)
  note l = concat_blob_length [OF ok, of B N]
  note par = dump_tiles_spec [where fill = "\<lambda>t NN. par_tile pool NN t", OF par_tile_spec ok]
  note one = dump_tiles_spec [where fill = "\<lambda>t NN. orki_i8_tile_range t 0 NN", OF tile_range_spec ok]
  show "ork_i8_w_dump_cpu det kt pool (Some soc) K N (Some B) None cap = (4096 + w_bytes ss, None)"
    using par [of B N cap 4096] m by (simp add: ork_i8_w_dump_cpu_def ss_def orki_pack_stamp_def ORK_PACK_HDR_BYTES_def)
  show "ork_i8_w_dump_cpu det kt pool (Some soc) K N (Some B) (Some out) (length out) =
       (4096 + w_bytes ss, Some (hdr_page det (Some (Some soc)) 1 (int K) (int N) @ concat (map (slice_blob B N) ss)))"
    using par [of B N "length out" 4096 "hdr_page det (Some (Some soc)) 1 (int K) (int N) @ drop 4096 out"] m len l
    by (simp add: ork_i8_w_dump_cpu_def ss_def [symmetric] orki_pack_stamp_def ORK_PACK_HDR_BYTES_def hdr_page_length place_def)
  show "ork_i8_w_dump_cpu_st kt (Some soc) K N (Some B) (Some (drop 4096 out)) (w_bytes ss) =
       (w_bytes ss, Some (concat (map (slice_blob B N) ss)))"
    using one [of B N "w_bytes ss" 0 "drop 4096 out"] m len l
    by (simp add: ork_i8_w_dump_cpu_st_def ss_def [symmetric] place_def)
qed

lemma stamped_page:
  assumes "K < 2147483648" "N < 2147483648"
  shows "orki_pack_check det (Some (Some soc)) (Some (hdr_page det (Some (Some soc)) 1 (int K) (int N) @ body)) (4096 + n) 1 (int K) (int N) = PACK_OK'"
  using assms
  by (simp add: orki_pack_check_def parse_hdr_page as_int_u32 ORK_PACK_HDR_BYTES_def)

text \<open>C35: what was dumped is what an offline load computes with. Sizing a dump, filling a buffer of that size
  and loading it without a device under the same caps and K-slice gives a weight whose codes are \<open>B\<close>,
  byte for byte. The one-threaded twin writes the same tiles without the page in front, so a load refuses
  it unless its first bytes happen to be a header.\<close>

theorem i8_dump_load_roundtrip:
  assumes "geom_ok (orki_int8_ks (ie_ktile v)) (nat (soc_nmax (ic_soc c))) K N" "K < 2147483648" "N < 2147483648" "length B = K * N"
    and "ork_i8_w_dump_cpu det (ie_ktile v) pool (Some (ic_soc c)) K N (Some B) None 0 = (n, None)" "length out = n" "ic_fd c < 0"
    and "\<And>i m. length (mem i m) = m"
  shows "\<exists>blob. ork_i8_w_dump_cpu det (ie_ktile v) pool (Some (ic_soc c)) K N (Some B) (Some out) n = (n, Some blob)
     \<and> ork_i8_mm_load det v an mem c K N (Some blob) n st = (Some ((new_w K N 1 1 0)\<lparr>iw_codes := Some B\<rparr>), st)
     \<and> ork_i8_w_dump_cpu_st (ie_ktile v) (Some (ic_soc c)) K N (Some B) (Some (drop 4096 out)) (n - 4096) = (n - 4096, Some (drop 4096 blob))"
proof -
  let ?ss = "w_slices (orki_int8_ks (ie_ktile v)) (nat (soc_nmax (ic_soc c))) K N"
  let ?body = "concat (map (slice_blob B N) ?ss)"
  let ?page = "hdr_page det (Some (Some (ic_soc c))) 1 (int K) (int N)"
  have n: "n = 4096 + w_bytes ?ss" using dump_cpu_spec(1) [OF assms(1), of "replicate (4096 + w_bytes ?ss) 0" det pool B 0] assms(5) by simp
  note d = dump_cpu_spec(2) [OF assms(1), of out det pool B] dump_cpu_spec(3) [OF assms(1), of out B] assms(6) n
  have ok: "\<forall>s \<in> set ?ss. slice_ok s" using geom_slices [OF assms(1)] by blast
  have g: "0 < orki_int8_ks (ie_ktile v)" "0 < nat (soc_nmax (ic_soc c))" "32 dvd orki_int8_ks (ie_ktile v)"
    "32 dvd nat (soc_nmax (ic_soc c))" "32 dvd K" "32 dvd N" using assms(1) by (auto simp: geom_ok_def)
  have "untile_all N (w_bytes ?ss) ?body ?ss 0 (mem (ks_n st) (K * N)) = (0, B)"
    using untile_all_spec [OF ok, of 0 ?body B N "w_bytes ?ss"] untiled_all [OF g assms(4)] assms(8) by simp
  then have "orki_i8_untile_blob (ie_ktile v) (Some (ic_soc c)) K N (Some ?body) (w_bytes ?ss) (Some (mem (ks_n st) (K * N))) = (0, Some B)"
    using g by (simp add: orki_i8_untile_blob_def mod_eq_0_iff_dvd)
  then have "ork_i8_mm_load det v an mem c K N (Some (?page @ ?body)) n st = (Some ((new_w K N 1 1 0)\<lparr>iw_codes := Some B\<rparr>), st)"
    using stamped_page [OF assms(2,3)] assms(7) n by (simp add: ork_i8_mm_load_def ORK_PACK_HDR_BYTES_def hdr_page_length)
  then show ?thesis using d by (intro exI [of _ "?page @ ?body"]) (simp add: hdr_page_length)
qed

definition offline_rk3588 :: i8_ctx where
  "offline_rk3588 = \<lparr>ic_fd = - 1, ic_soc = ork_soc_rk3588, ic_pack_dom = - 1\<rparr>"

definition i8_plain :: "dom_env \<Rightarrow> i8_env" where
  "i8_plain e = \<lparr>ie_dom = e, ie_ktile = None, ie_no_bf = False, ie_sram = False, ie_consolidate = False, ie_pool = 8\<rparr>"

definition fresh_st :: kst where
  "fresh_st = \<lparr>ks_n = 0, ks_dma = no_dma\<rparr>"

lemma geom_64: "geom_ok 1024 8192 64 64"
  by (simp add: geom_ok_def w_slices_def n_slices_def c_slice_def w_bytes_def orki_pgup_def)

theorem i8_dump_load_roundtrip_witness:
  "\<exists>out blob. ork_i8_w_dump_cpu None None 8 (Some ork_soc_rk3588) 64 64 (Some (replicate 4096 7)) (Some out) (length out) = (length out, Some blob)
     \<and> fst (ork_i8_mm_load None (i8_plain plain_env) (\<lambda>_. answer_at 0) (\<lambda>i n. replicate n 0) offline_rk3588 64 64 (Some blob) (length out) fresh_st)
         = Some ((new_w 64 64 1 1 0)\<lparr>iw_codes := Some (replicate 4096 7)\<rparr>)"
proof -
  let ?n = "4096 + w_bytes (w_slices 1024 8192 64 64)"
  have g: "geom_ok (orki_int8_ks (ie_ktile (i8_plain plain_env))) (nat (soc_nmax (ic_soc offline_rk3588))) 64 64"
    using geom_64 by (simp add: i8_plain_def offline_rk3588_def ork_soc_rk3588_def orki_int8_ks_def)
  have n: "ork_i8_w_dump_cpu None (ie_ktile (i8_plain plain_env)) 8 (Some (ic_soc offline_rk3588)) 64 64 (Some (replicate 4096 7)) None 0 = (?n, None)"
    using dump_cpu_spec(1) [OF g, of "replicate ?n 0"]
    by (simp add: i8_plain_def offline_rk3588_def ork_soc_rk3588_def orki_int8_ks_def)
  from i8_dump_load_roundtrip [OF g _ _ _ n, of "replicate ?n 0" "\<lambda>i n. replicate n 0" "\<lambda>_. answer_at 0" fresh_st]
  obtain blob where "ork_i8_w_dump_cpu None (ie_ktile (i8_plain plain_env)) 8 (Some (ic_soc offline_rk3588)) 64 64 (Some (replicate 4096 7)) (Some (replicate ?n 0)) ?n = (?n, Some blob)"
    "ork_i8_mm_load None (i8_plain plain_env) (\<lambda>_. answer_at 0) (\<lambda>i n. replicate n 0) offline_rk3588 64 64 (Some blob) ?n fresh_st = (Some ((new_w 64 64 1 1 0)\<lparr>iw_codes := Some (replicate 4096 7)\<rparr>), fresh_st)"
    by (auto simp: offline_rk3588_def)
  then show ?thesis by (intro exI [of _ "replicate ?n 0"] exI [of _ blob]) (simp add: i8_plain_def offline_rk3588_def)
qed

subsection \<open>Packing and loading on the device\<close>

lemma slice_area:
  assumes "geom_ok KS NMAX K N" "s \<in> set (w_slices KS NMAX K N)"
  shows "fst (snd s) div 32 * (ti_KT (slice_arg B N s) * 1024) \<le> slice_size s"
  using geom_slices [OF assms] pgup_ge by (cases s) (auto simp: tile_area)

lemma full_area:
  assumes "geom_ok KS NMAX K N" "n \<in> set (n_slices NMAX N)"
  shows "snd n div 32 * (ti_KT (full_arg B K N (fst n)) * 1024) \<le> orki_pgup (K * snd n)" "32 dvd snd n"
proof -
  have b: "fst n + snd n \<le> N \<and> 32 dvd snd n" using n_slices_bounds [of "fst n" "snd n" NMAX N 32] assms by (auto simp: geom_ok_def)
  then have "K * snd n \<le> K * N" by simp
  then have "K * snd n < 9223372036854775808" using assms(1) unfolding geom_ok_def by linarith
  then show "snd n div 32 * (ti_KT (full_arg B K N (fst n)) * 1024) \<le> orki_pgup (K * snd n)"
    using b assms(1) pgup_ge by (simp add: full_arg_def tile_area geom_ok_def)
  show "32 dvd snd n" using b by blast
qed

lemma own_views_hold:
  "\<forall>s \<in> set ss. slice_ok s \<Longrightarrow> off + w_bytes ss \<le> length m \<Longrightarrow> bf_cpu b \<noteq> 0 \<Longrightarrow>
     list_all2 (\<lambda>s f. bf_cpu (fst f) \<noteq> 0 \<and> holds_tile (slice_arg B N s) (fst (snd s) div 32) (snd f)) ss (own_views b m B N ss off)"
proof (induction ss arbitrary: off)
  case (Cons s ss)
  have wb: "w_bytes (s # ss) = slice_size s + w_bytes ss" by (simp add: w_bytes_def)
  have "fst (snd s) div 32 * (ti_KT (slice_arg B N s) * 1024) \<le> slice_size s"
    using Cons.prems(1) pgup_ge by (cases s) (auto simp: tile_area)
  moreover have "length (take (slice_size s) (drop off m)) = slice_size s" using Cons.prems(2) wb by simp
  ultimately have "holds_tile (slice_arg B N s) (fst (snd s) div 32)
      (orki_i8_tile_range (slice_arg B N s) 0 (fst (snd s) div 32) (take (slice_size s) (drop off m)))"
    by (intro holds_tile_range) simp
  with Cons wb show ?case by (simp add: Let_def)
qed simp

lemma pack_tiles_shape:
  assumes "pack_tiles v an mem B w ss st = (Some w', st')" "\<And>i n. length (mem i n) = n" "\<forall>s \<in> set ss. slice_ok s"
    and "w_bytes ss < 9223372036854775808"
  shows "(\<exists>own o1. w' = w\<lparr>iw_own := o1, iw_owns := own, iw_Bb := iw_Bb w'\<rparr>)
    \<and> list_all2 (\<lambda>s f. bf_cpu (fst f) \<noteq> 0 \<and> holds_tile (slice_arg B (iw_N w) s) (fst (snd s) div 32) (snd f)) ss (iw_Bb w')"
proof -
  have plain: "(\<exists>own o1. w' = w\<lparr>iw_own := o1, iw_owns := own, iw_Bb := iw_Bb w'\<rparr>)
    \<and> list_all2 (\<lambda>s f. bf_cpu (fst f) \<noteq> 0 \<and> holds_tile (slice_arg B (iw_N w) s) (fst (snd s) div 32) (snd f)) ss (iw_Bb w')"
    if p: "map_prod (map_option (\<lambda>bb. w\<lparr>iw_Bb := bb\<rparr>)) (\<lambda>st. st) (pack_bb v an mem (iw_dom w) B (iw_N w) ss st1) = (Some w', st')" for st1
  proof -
    obtain bb where bb: "pack_bb v an mem (iw_dom w) B (iw_N w) ss st1 = (Some bb, st')" "w' = w\<lparr>iw_Bb := bb\<rparr>"
      using p by (cases "pack_bb v an mem (iw_dom w) B (iw_N w) ss st1") auto
    have "list_all2 (\<lambda>s f. bf_cpu (fst f) \<noteq> 0 \<and> holds_tile (slice_arg B (iw_N w) s) (fst (snd s) div 32) (snd f)) ss bb"
    proof (rule fill_bufs_map [OF bb(1) [unfolded pack_bb_def]])
      fix s i and f :: filled
      assume s: "s \<in> set ss" and f: "bf_cpu (fst f) \<noteq> 0"
        "snd f = snd (snd (snd (snd s)) * fst (snd s), \<lambda>i n. par_tile (ie_pool v) (fst (snd s) div 32) (slice_arg B (iw_N w) s) (mem i n)) i
           (orki_pgup (fst (snd (snd (snd s)) * fst (snd s), \<lambda>i n. par_tile (ie_pool v) (fst (snd s) div 32) (slice_arg B (iw_N w) s) (mem i n))))"
      have "fst (snd s) div 32 * (ti_KT (slice_arg B (iw_N w) s) * 1024) \<le> orki_pgup (snd (snd (snd s)) * fst (snd s))"
        using assms(3) s pgup_ge by (cases s) (auto simp: tile_area)
      then show "bf_cpu (fst f) \<noteq> 0 \<and> holds_tile (slice_arg B (iw_N w) s) (fst (snd s) div 32) (snd f)"
        using f assms(2) by (auto intro!: holds_tile_par)
    qed
    with bb(2) show ?thesis by (intro conjI exI [of _ "iw_owns w"] exI [of _ "iw_own w"]) simp_all
  qed
  show ?thesis
  proof (cases "ie_consolidate v")
    case False
    with assms(1) plain show ?thesis by (simp add: pack_tiles_def)
  next
    case True
    obtain b st1 where k: "k_create (ie_dom v) an (w_bytes ss) 0x403 (iw_dom w) st = (b, st1)"
      by (cases "k_create (ie_dom v) an (w_bytes ss) 0x403 (iw_dom w) st")
    show ?thesis
    proof (cases "bf_cpu b = 0")
      case z: True
      with assms(1) True k plain show ?thesis by (simp add: pack_tiles_def)
    next
      case nz: False
      with assms(1) True k have w': "w' = w\<lparr>iw_own := Some b, iw_owns := False,
          iw_Bb := own_views b (mem (ks_n st) (bf_size b)) B (iw_N w) ss 0\<rparr>" by (simp add: pack_tiles_def)
      have "w_bytes ss \<le> length (mem (ks_n st) (bf_size b))"
        using k_create_shape(1) [OF k nz] pgup_ge [OF assms(4)] assms(2) by simp
      from own_views_hold [OF assms(3) _ nz, of 0] this show ?thesis unfolding w' by auto
    qed
  qed
qed

lemma with_bf_holds:
  assumes "with_bf cond build (w, st) = (Some w', st')" "holds_matrix KS NMAX w B" "iw_Bf w = None"
    and "\<And>bf st''. build st = (Some bf, st'') \<Longrightarrow>
           list_all2 (\<lambda>n f. bf_cpu (fst f) \<noteq> 0 \<and> holds_tile (full_arg B (iw_K w) (iw_N w) (fst n)) (snd n div 32) (snd f))
             (n_slices NMAX (iw_N w)) bf"
  shows "holds_matrix KS NMAX w' B"
proof (cases cond)
  case True
  obtain bf st2 where b: "build st = (bf, st2)" by (cases "build st")
  with assms(1) True have "w' = w\<lparr>iw_Bf := bf\<rparr>" by (simp add: with_bf_def)
  with assms(2,4) b show ?thesis by (simp add: holds_matrix_def)
qed (use assms in \<open>simp add: with_bf_def\<close>)

lemma pack_i8_holds:
  assumes "orki_pack_i8 v an mem c K N B st = (Some w, st')" "geom_ok (orki_int8_ks (ie_ktile v)) (nmax_of c) K N"
    and "\<And>i n. length (mem i n) = n"
  shows "holds_matrix (orki_int8_ks (ie_ktile v)) (nmax_of c) w B \<and> iw_K w = K \<and> iw_N w = N"
proof -
  let ?KS = "orki_int8_ks (ie_ktile v)" and ?NM = "nmax_of c"
  let ?w = "new_w K N ((K + ?KS - 1) div ?KS) ((N + ?NM - 1) div ?NM) (ork_dom (ie_dom v) (ic_pack_dom c))"
  obtain w1 st1 where t: "pack_tiles v an mem B ?w (w_slices ?KS ?NM K N) st = (Some w1, st1)"
    and bf: "with_bf (K \<le> 10752 \<and> \<not> ie_no_bf v \<and> \<not> (?KS < K \<and> ie_ktile v \<noteq> None))
            (pack_bf v an mem (iw_dom w1) B K N (n_slices ?NM N)) (w1, st1) = (Some w, st')"
    using assms(1) by (auto simp: orki_pack_i8_def Let_def split: if_splits option.splits prod.splits)
  have "\<forall>s \<in> set (w_slices ?KS ?NM K N). slice_ok s" "w_bytes (w_slices ?KS ?NM K N) < 9223372036854775808"
    using geom_slices [OF assms(2)] assms(2) by (auto simp: geom_ok_def)
  note sh = pack_tiles_shape [OF t assms(3) this]
  then obtain own o1 where w1: "w1 = ?w\<lparr>iw_own := o1, iw_owns := own, iw_Bb := iw_Bb w1\<rparr>" by blast
  have f: "iw_K w1 = K" "iw_N w1 = N" "iw_Sk w1 = (K + ?KS - 1) div ?KS" "iw_Sn w1 = (N + ?NM - 1) div ?NM" "iw_codes w1 = None" "iw_Bf w1 = None"
    by (subst w1, simp add: new_w_def)+
  have "iw_N ?w = N" by (simp add: new_w_def)
  with sh f have h: "holds_matrix ?KS ?NM w1 B" by (simp add: holds_matrix_def)
  have w: "iw_K w = K \<and> iw_N w = N" using bf f by (auto simp: with_bf_def split: if_splits prod.splits)
  have "holds_matrix ?KS ?NM w B"
  proof (rule with_bf_holds [OF bf h f(6)])
    fix bf2 st2 assume "pack_bf v an mem (iw_dom w1) B K N (n_slices ?NM N) st1 = (Some bf2, st2)"
    then show "list_all2 (\<lambda>n f. bf_cpu (fst f) \<noteq> 0 \<and> holds_tile (full_arg B (iw_K w1) (iw_N w1) (fst n)) (snd n div 32) (snd f)) (n_slices ?NM (iw_N w1)) bf2"
      unfolding pack_bf_def f(1,2)
      by (rule fill_bufs_map) (use full_area [OF assms(2)] assms(3) in \<open>auto intro!: holds_tile_par split: prod.splits\<close>)
  qed
  with w show ?thesis by blast
qed

lemma load_tiles_holds:
  assumes "load_tiles v an fl c K N (concat (map (slice_blob B N) ss)) n st = (Some w, st')" "geom_ok 1024 (nmax_of c) K N"
    and "ss = w_slices 1024 (nmax_of c) K N"
  shows "holds_matrix 1024 (nmax_of c) w B \<and> iw_K w = K \<and> iw_N w = N \<and> iw_Bf w = None
    \<and> list_all2 (\<lambda>s f. snd f = slice_blob B N s) ss (iw_Bb w)"
proof -
  let ?w = "new_w K N ((K + 1024 - 1) div 1024) ((N + nmax_of c - 1) div nmax_of c) (ork_dom (ie_dom v) (ic_pack_dom c))"
  obtain bb where bb: "load_bb (ie_dom v) an fl (iw_dom ?w) (concat (map (slice_blob B N) ss)) ss 0 [] st = (Some bb, st')"
    "w = ?w\<lparr>iw_Bb := bb\<rparr>"
    using assms(1) by (auto simp: load_tiles_def Let_def assms(3) split: if_splits prod.splits)
  have "\<forall>s \<in> set ss. slice_ok s" using geom_slices [OF assms(2)] assms(3) by blast
  from load_bb_shape [OF bb(1) _ this, of B N]
  have l: "list_all2 (\<lambda>s f. bf_cpu (fst f) \<noteq> 0 \<and> snd f = slice_blob B N s) ss bb" by simp
  then have "list_all2 (\<lambda>s f. bf_cpu (fst f) \<noteq> 0 \<and> holds_tile (slice_arg B N s) (fst (snd s) div 32) (snd f)) ss bb"
    by (rule list.rel_mono_strong) (auto simp: slice_blob_holds)
  moreover have "list_all2 (\<lambda>s f. snd f = slice_blob B N s) ss bb" using l by (rule list.rel_mono_strong) simp
  ultimately show ?thesis by (simp add: bb(2) holds_matrix_def new_w_def assms(3))
qed

lemma load_bf_holds:
  assumes "load_bf v an mem w 1024 NMAX st = (Some bf, st')" "geom_ok 1024 NMAX (iw_K w) (iw_N w)" "holds_matrix 1024 NMAX w B"
    and "\<And>i n. length (mem i n) = n"
  shows "list_all2 (\<lambda>n f. bf_cpu (fst f) \<noteq> 0 \<and> holds_tile (full_arg B (iw_K w) (iw_N w) (fst n)) (snd n div 32) (snd f))
           (n_slices NMAX (iw_N w)) bf"
proof -
  let ?K = "iw_K w" and ?N = "iw_N w" and ?ks = "n_slices 1024 (iw_K w)" and ?ns = "n_slices NMAX (iw_N w)"
  let ?P = "\<lambda>n f. bf_cpu (fst f) \<noteq> 0 \<and> holds_tile (full_arg B ?K ?N (fst n)) (snd n div 32) (snd f)"
  have sk: "iw_Sk w = length ?ks" "iw_Sn w = length ?ns" using assms(3) by (simp_all add: holds_matrix_def)
  have bb: "list_all2 (\<lambda>s f. bf_cpu (fst f) \<noteq> 0 \<and> holds_tile (slice_arg B ?N s) (fst (snd s) div 32) (snd f))
       (w_slices 1024 NMAX ?K ?N) (iw_Bb w)" using assms(3) by (simp add: holds_matrix_def)
  have g: "32 dvd ?K" "(0::nat) < 1024" "32 dvd (1024 :: nat)" using assms(2) by (simp_all add: geom_ok_def)
  have "list_all2 (\<lambda>ns f. ?P (?ns ! ns) f) [0..<iw_Sn w] bf"
  proof (rule fill_bufs_map [OF assms(1) [unfolded load_bf_def]])
    fix ns i and f :: filled
    let ?g = "let Nc = c_slice ?N NMAX ns in (?K * Nc, \<lambda>i n. poke (bf_writes (?K div 32) (Nc div 32) (bf_parts (iw_Bb w) (iw_Sk w) ?ks ns)) (mem i n))"
    assume ns: "ns \<in> set [0..<iw_Sn w]" and f: "bf_cpu (fst f) \<noteq> 0" "snd f = snd ?g i (orki_pgup (fst ?g))"
    then have nl: "ns < length ?ns" using sk by simp
    have n: "?ns ! ns = (ns * NMAX, c_slice ?N NMAX ns)" using nl by (simp add: n_slices_def)
    let ?parts = "bf_parts (iw_Bb w) (iw_Sk w) ?ks ns"
    have part: "(fst (?ks ! j), snd (?ks ! j)) \<in> set ?ks \<and> holds_tile (slice_arg B ?N (ns * NMAX, c_slice ?N NMAX ns, fst (?ks ! j), snd (?ks ! j)))
        (c_slice ?N NMAX ns div 32) (snd (iw_Bb w ! (ns * iw_Sk w + j)))" if j: "j < iw_Sk w" for j
    proof
      have jl: "j < length ?ks" using j sk by simp
      then show "(fst (?ks ! j), snd (?ks ! j)) \<in> set ?ks" by simp
      note wn = w_slices_nth [OF nl jl]
      show "holds_tile (slice_arg B ?N (ns * NMAX, c_slice ?N NMAX ns, fst (?ks ! j), snd (?ks ! j)))
        (c_slice ?N NMAX ns div 32) (snd (iw_Bb w ! (ns * iw_Sk w + j)))"
        using list_all2_nthD [OF bb wn(1)] unfolding wn(2) n sk(1) by simp
    qed
    have "holds_tile (full_arg B ?K ?N (ns * NMAX)) (c_slice ?N NMAX ns div 32)
       (poke (bf_writes (?K div 32) (c_slice ?N NMAX ns div 32) ?parts) (mem i (orki_pgup (?K * c_slice ?N NMAX ns))))"
    proof (rule bf_writes_hold [OF g(1) _ g(2,3)])
      show "ns * NMAX = fst (ns * NMAX, 0 :: nat)" by simp
      show "c_slice ?N NMAX ns div 32 * (?K div 32 * 1024) \<le> length (mem i (orki_pgup (?K * c_slice ?N NMAX ns)))"
        using full_area(1) [OF assms(2), of "?ns ! ns" B] nth_mem [OF nl] assms(4) by (simp add: n full_arg_def del: n_slices_len)
      fix k0 Kp sb assume "(k0, Kp, sb) \<in> set ?parts"
      then obtain j where "j < iw_Sk w" "k0 = fst (?ks ! j)" "Kp = snd (?ks ! j)" "sb = snd (iw_Bb w ! (ns * iw_Sk w + j))"
        by (auto simp: bf_parts_def)
      then show "(k0, Kp) \<in> set ?ks \<and> holds_tile (slice_arg B ?N (ns * NMAX, c_slice ?N NMAX ns, k0, Kp)) (c_slice ?N NMAX ns div 32) sb"
        using part [of j] by (simp only:)
    next
      fix k0 Kp assume "(k0, Kp) \<in> set ?ks"
      then obtain j where "j < iw_Sk w" "?ks ! j = (k0, Kp)" using sk(1) by (metis in_set_conv_nth)
      then have "(k0, Kp, snd (iw_Bb w ! (ns * iw_Sk w + j))) \<in> set ?parts" by (force simp: bf_parts_def)
      then show "\<exists>sb. (k0, Kp, sb) \<in> set ?parts" by blast
    qed
    with f show "?P (?ns ! ns) f" by (simp add: n Let_def)
  qed
  then show ?thesis using sk(2) by (simp add: list_all2_conv_all_nth del: n_slices_len)
qed

lemma load_i8_holds:
  assumes "ork_i8_mm_load det v an mem c K N (Some blob) n st = (Some w, st')" "geom_ok 1024 (nmax_of c) K N" "0 \<le> ic_fd c"
    and "drop 4096 blob = concat (map (slice_blob B N) (w_slices 1024 (nmax_of c) K N))" "\<And>i n. length (mem i n) = n"
  shows "holds_matrix 1024 (nmax_of c) w B \<and> list_all2 (\<lambda>s f. snd f = slice_blob B N s) (w_slices 1024 (nmax_of c) K N) (iw_Bb w)"
proof -
  let ?ss = "w_slices 1024 (nmax_of c) K N"
  obtain w1 st1 where t: "load_tiles v an 0x403 c K N (concat (map (slice_blob B N) ?ss)) (n - 4096) st = (Some w1, st1)"
    and bf: "with_bf (K mod 512 = 0 \<and> K \<le> 4096 \<and> \<not> ie_no_bf v) (load_bf v an mem w1 1024 (nmax_of c)) (w1, st1) = (Some w, st')"
    using assms(1,3,4) by (auto simp: ork_i8_mm_load_def ORK_PACK_HDR_BYTES_def split: if_splits option.splits prod.splits)
  note h = load_tiles_holds [OF t assms(2) refl]
  have "holds_matrix 1024 (nmax_of c) w B"
    using with_bf_holds [OF bf h [THEN conjunct1]] load_bf_holds [OF _ _ h [THEN conjunct1] assms(5)] h assms(2) by auto
  moreover have "iw_Bb w = iw_Bb w1" using bf by (auto simp: with_bf_def split: if_splits prod.splits)
  ultimately show ?thesis using h by simp
qed

text \<open>C36: packing a weight on the device and loading its dump put the same matrix in the buffers. Whatever the
  kernel answers, if the pack returns a weight its tile buffers and its full-K buffers (if it has them) hold
  the tiles of \<open>B\<close>, at the K-slice of \<open>ORK_KTILE\<close>; and if a load of the dump made at the K-slice 1024 returns
  one, its tile buffers are the dumped slices with their padding and its rebuilt full-K buffers hold the
  tiles of \<open>B\<close> over the whole of \<open>K\<close>.\<close>

theorem i8_resident_weight_holds_matrix:
  assumes "\<And>i n. length (mem i n) = n" "0 \<le> ic_fd c" "geom_ok (orki_int8_ks (ie_ktile v)) (nmax_of c) K N"
    and "ork_i8_mm_pack v an mem c K N B st = (Some w, st1)"
    and "geom_ok 1024 (nmax_of c) K N" "length out = 4096 + w_bytes (w_slices 1024 (nmax_of c) K N)"
    and "ork_i8_w_dump_cpu det None pool (Some (ic_soc c)) K N (Some B) (Some out) (length out) = (n, Some blob)"
    and "ork_i8_mm_load det v an' mem c K N (Some blob) n st' = (Some w', st2)"
  shows "holds_matrix (orki_int8_ks (ie_ktile v)) (nmax_of c) w B \<and> holds_matrix 1024 (nmax_of c) w' B
    \<and> concat (map snd (iw_Bb w')) = drop 4096 blob"
proof -
  have ks: "orki_int8_ks None = 1024" by (simp add: orki_int8_ks_def)
  have "drop 4096 blob = concat (map (slice_blob B N) (w_slices 1024 (nmax_of c) K N))"
    using dump_cpu_spec(2) [of None "ic_soc c" K N out det pool B] assms(5,6,7)
    by (auto simp: ks nmax_of_def hdr_page_length)
  note l = load_i8_holds [OF assms(8,5,2) this assms(1)] this
  have "map snd (iw_Bb w') = map (slice_blob B N) (w_slices 1024 (nmax_of c) K N)"
    using l(1) [THEN conjunct2] by (auto simp: list_all2_conv_all_nth intro!: nth_equalityI)
  with l pack_i8_holds [OF _ assms(3,1)] assms(2,4) show ?thesis by (simp add: ork_i8_mm_pack_def)
qed

text \<open>A kernel that grants every request, as long as the domain has room.\<close>

lemma grants:
  assumes "dm_iova (ks_dma st) 0 + orki_pgup n \<le> 4089446400"
  shows "\<exists>b st'. k_create plain_env (\<lambda>_. answer_at 0) n 0x403 0 st = (b, st') \<and> bf_cpu b = 4096
     \<and> dm_iova (ks_dma st') 0 = dm_iova (ks_dma st) 0 + orki_pgup n"
proof -
  have d: "ork_dom plain_env 0 = 0" by (simp add: ork_dom_def plain_env_def)
  have f: "orki_dma_fits32 0 (orki_pgup n)" using assms by (simp add: orki_dma_fits32_def)
  show ?thesis
    using assms f
    by (simp add: k_create_def orki_bcreate_def ork_iova_reserve_def plain_ceiling tracked_def ORK_IOVA_NDOM_def d mem_create_def
        answer_at_def k_mapped_def k_mmap_def orki_live_add_def Let_def)
qed

definition board_rk3588 :: i8_ctx where
  "board_rk3588 = \<lparr>ic_fd = 3, ic_soc = ork_soc_rk3588, ic_pack_dom = - 1\<rparr>"

lemma geom_512: "geom_ok 1024 8192 512 32"
  by (simp add: geom_ok_def w_slices_def n_slices_def c_slice_def w_bytes_def orki_pgup_def)

lemma slices_512: "w_slices 1024 8192 512 32 = [(0, 32, 0, 512)]" "n_slices 8192 32 = [(0, 32)]"
  by (simp_all add: w_slices_def n_slices_def c_slice_def)

lemma board_facts:
  "nmax_of board_rk3588 = 8192" "ie_ktile (i8_plain plain_env) = None" "ie_dom (i8_plain plain_env) = plain_env"
  "ork_dom plain_env (- 1) = 0" "orki_int8_ks None = 1024" "\<not> ie_no_bf (i8_plain plain_env)" "\<not> ie_sram (i8_plain plain_env)"
  "\<not> ie_consolidate (i8_plain plain_env)"
  by (simp_all add: nmax_of_def board_rk3588_def ork_soc_rk3588_def i8_plain_def ork_dom_def plain_env_def orki_int8_ks_def)

lemma board_pack:
  "\<exists>w st. ork_i8_mm_pack (i8_plain plain_env) (\<lambda>_. answer_at 0) mem board_rk3588 512 32 B fresh_st = (Some w, st)
     \<and> length (iw_Bb w) = 1 \<and> (\<exists>bf. iw_Bf w = Some bf \<and> length bf = 1)"
proof -
  have p: "orki_pgup 16384 = 16384" by (simp add: orki_pgup_def)
  have "dm_iova (ks_dma fresh_st) 0 = 0" by (simp add: fresh_st_def no_dma_def)
  then obtain b st1 where b: "k_create plain_env (\<lambda>_. answer_at 0) 16384 0x403 0 fresh_st = (b, st1)" "bf_cpu b = 4096"
      "dm_iova (ks_dma st1) 0 = 16384" using grants [of fresh_st 16384] p by auto
  obtain f st2 where f: "k_create plain_env (\<lambda>_. answer_at 0) 16384 0x403 0 st1 = (f, st2)" "bf_cpu f = 4096"
    using grants [of st1 16384] p b(3) by auto
  have "\<not> ic_fd board_rk3588 < 0" "ic_pack_dom board_rk3588 = - 1" by (simp_all add: board_rk3588_def)
  then show ?thesis
    using b f by (simp add: ork_i8_mm_pack_def orki_pack_i8_def board_facts Let_def slices_512 pack_tiles_def pack_bb_def pack_bf_def with_bf_def
        new_w_def)
qed

lemma board_load:
  assumes "orki_pack_check det (Some (Some ork_soc_rk3588)) (Some blob) (4096 + 16384) 1 512 32 = PACK_OK'"
  shows "\<exists>w st. ork_i8_mm_load det (i8_plain plain_env) (\<lambda>_. answer_at 0) mem board_rk3588 512 32 (Some blob) (4096 + 16384) fresh_st = (Some w, st)
     \<and> (\<exists>bf. iw_Bf w = Some bf \<and> length bf = 1)"
proof -
  have p: "orki_pgup 16384 = 16384" by (simp add: orki_pgup_def)
  have "dm_iova (ks_dma fresh_st) 0 = 0" by (simp add: fresh_st_def no_dma_def)
  then obtain b st1 where b: "k_create plain_env (\<lambda>_. answer_at 0) 16384 0x403 0 fresh_st = (b, st1)" "bf_cpu b = 4096"
      "dm_iova (ks_dma st1) 0 = 16384" using grants [of fresh_st 16384] p by auto
  obtain f st2 where f: "k_create plain_env (\<lambda>_. answer_at 0) 16384 0x403 0 st1 = (f, st2)" "bf_cpu f = 4096"
    using grants [of st1 16384] p b(3) by auto
  have "ic_soc board_rk3588 = ork_soc_rk3588" "0 \<le> ic_fd board_rk3588" "ic_pack_dom board_rk3588 = - 1" by (simp_all add: board_rk3588_def)
  then show ?thesis
    using b f assms
    by (simp add: ork_i8_mm_load_def load_tiles_def board_facts Let_def slices_512 with_bf_def new_w_def load_bf_def ORK_PACK_HDR_BYTES_def
        w_bytes_def p c_slice_def)
qed

theorem i8_resident_weight_holds_matrix_witness:
  "\<exists>w w' st1 st2 blob. ork_i8_mm_pack (i8_plain plain_env) (\<lambda>_. answer_at 0) (\<lambda>i n. replicate n 9) board_rk3588 512 32 (replicate 16384 1) fresh_st = (Some w, st1)
     \<and> ork_i8_mm_load None (i8_plain plain_env) (\<lambda>_. answer_at 0) (\<lambda>i n. replicate n 9) board_rk3588 512 32 (Some blob) 20480 fresh_st = (Some w', st2)
     \<and> holds_matrix 1024 8192 w (replicate 16384 1) \<and> holds_matrix 1024 8192 w' (replicate 16384 1)"
proof -
  let ?B = "replicate 16384 1 :: byte list" and ?mem = "\<lambda>i n. replicate n (9 :: byte)"
  have wb: "w_bytes (w_slices 1024 8192 512 32) = 16384" by (simp add: slices_512 w_bytes_def orki_pgup_def)
  have soc: "ic_soc board_rk3588 = ork_soc_rk3588" "0 \<le> ic_fd board_rk3588" "nat (soc_nmax ork_soc_rk3588) = 8192"
    by (simp_all add: board_rk3588_def ork_soc_rk3588_def)
  define blob where "blob = hdr_page None (Some (Some ork_soc_rk3588)) 1 (int 512) (int 32) @ concat (map (slice_blob ?B 32) (w_slices 1024 8192 512 32))"
  have d: "ork_i8_w_dump_cpu None None 8 (Some (ic_soc board_rk3588)) 512 32 (Some ?B) (Some (replicate 20480 0)) (length (replicate 20480 0 :: byte list)) = (20480, Some blob)"
    using dump_cpu_spec(2) [of None ork_soc_rk3588 512 32 "replicate 20480 0" None 8 ?B] geom_512
    by (simp add: soc board_facts wb blob_def)
  obtain w st1 where w: "ork_i8_mm_pack (i8_plain plain_env) (\<lambda>_. answer_at 0) ?mem board_rk3588 512 32 ?B fresh_st = (Some w, st1)"
    using board_pack [of ?mem ?B] by blast
  have "orki_pack_check None (Some (Some ork_soc_rk3588)) (Some blob) (4096 + 16384) 1 512 32 = PACK_OK'"
    using stamped_page [of 512 32 None ork_soc_rk3588 "concat (map (slice_blob ?B 32) (w_slices 1024 8192 512 32))" 16384] by (simp add: blob_def)
  then obtain w' st2 where w': "ork_i8_mm_load None (i8_plain plain_env) (\<lambda>_. answer_at 0) ?mem board_rk3588 512 32 (Some blob) 20480 fresh_st = (Some w', st2)"
    using board_load [of None blob ?mem] by auto
  have "holds_matrix 1024 8192 w ?B \<and> holds_matrix 1024 8192 w' ?B"
    using i8_resident_weight_holds_matrix [OF _ soc(2) _ w _ _ d w'] geom_512 by (simp add: board_facts wb)
  with w w' show ?thesis by blast
qed

end
