(* ===== verification/I8_Update.thy ===== *)
theory I8_Update
  imports I8_Weight
begin

section \<open>Resident int8 weights changed in place\<close>

text \<open>
  Lemmas and properties of theory \<open>I8_Weight\<close>'s repack and of the key/value weights: what the contract
  \<open>holds_matrix\<close> says after the update, and when the code's own index arithmetic leaves the buffer.
\<close>

subsection \<open>Repacking\<close>

lemma write_in_some: "fst ` set ws \<subseteq> {0..<length b} \<Longrightarrow> write_in ws b = Some (poke ws b)"
  by (auto simp: write_in_def list_all_iff)

lemma write_in_tile:
  "NN * (ti_KT t * 1024) \<le> length bs \<Longrightarrow> write_in (tile_writes t 0 NN) bs = Some (poke (tile_writes t 0 NN) bs)"
  by (intro write_in_some) (auto simp only: tile_writes_idx ivl_subset)

lemma refill_holds:
  assumes "list_all2 (\<lambda>x f. bf_cpu (fst f) \<noteq> 0 \<and> snd x * (ti_KT (fst x) * 1024) \<le> length (snd f)) xs fs"
  shows "\<exists>gs. refill_or_stop xs fs = Some (True, gs) \<and> refill_or_skip xs fs = Some gs
     \<and> list_all2 (\<lambda>x f. bf_cpu (fst f) \<noteq> 0 \<and> holds_tile (fst x) (snd x) (snd f)) xs gs"
  using assms
proof (induction rule: list_all2_induct)
  case (Cons x xs f fs)
  obtain t NN where x: "x = (t, NN)" by (cases x)
  from Cons obtain gs where gs: "refill_or_stop xs fs = Some (True, gs)" "refill_or_skip xs fs = Some gs"
    "list_all2 (\<lambda>x f. bf_cpu (fst f) \<noteq> 0 \<and> holds_tile (fst x) (snd x) (snd f)) xs gs" by blast
  then show ?case
    using Cons.hyps(1) write_in_tile [of NN t "snd f"] holds_tile_poke [of "tile_writes t 0 NN" t NN "snd f"]
    by (simp add: x)
qed simp

lemma repack_args_slices:
  assumes "iw_Sk w = (iw_K w + 1024 - 1) div 1024" "iw_Sn w = (iw_N w + NMAX - 1) div NMAX"
  shows "repack_args w NMAX B = map (\<lambda>s. (slice_arg B (iw_N w) s, fst (snd s) div 32)) (w_slices 1024 NMAX (iw_K w) (iw_N w))"
    "repack_full_args w NMAX B = map (\<lambda>n. (full_arg B (iw_K w) (iw_N w) (fst n), snd n div 32)) (n_slices NMAX (iw_N w))"
  by (simp_all add: repack_args_def repack_full_args_def w_slices_prod n_slices_def assms map_concat comp_def)



text \<open>Under \<open>ORK_KTILE=512\<close> a weight of 1024 rows has two tile buffers of 512 rows each, and the repack, which
  slices at 1024 regardless, writes past the first.\<close>

lemma repack_ktile_overrun:
  assumes "orki_int8_ks (Some 512) = 512" "nmax_of c = 8192" "iw_K w = 1024" "iw_N w = 32" "iw_Sk w = 2" "iw_Sn w = 1" "iw_codes w = None"
    and "iw_Bb w = [f0, f1]" "bf_cpu (fst f0) \<noteq> 0" "length (snd f0) = orki_pgup (512 * 32)"
  shows "ork_i8_mm_repack c (Some w) 1024 32 B = None"
proof -
  let ?t = "\<lparr>ti_Bi = B, ti_KT = 32, ti_k0 = 0, ti_n0 = 0, ti_N = 32\<rparr>"
  have "16384 \<in> fst ` set (tile_writes ?t 0 1)" unfolding tile_writes_idx by simp
  then have "write_in (tile_writes ?t 0 1) (snd f0) = None"
    using assms(10) by (force simp: write_in_def list_all_iff orki_pgup_def)
  moreover have "repack_args w 8192 B = [(?t, 1), (\<lparr>ti_Bi = B, ti_KT = 0, ti_k0 = 1024, ti_n0 = 0, ti_N = 32\<rparr>, 1)]"
    using assms(3-6) by (simp add: repack_args_def c_slice_def upt_rec)
  ultimately show ?thesis using assms by (simp add: ork_i8_mm_repack_def)
qed

subsection \<open>Appending a key\<close>

definition put_col :: "nat \<Rightarrow> nat \<Rightarrow> byte list \<Rightarrow> byte list \<Rightarrow> byte list" where
  "put_col N key xs B = poke (zip (map (\<lambda>k. k * N + key) [0..<length xs]) xs) B"

definition put_row :: "nat \<Rightarrow> nat \<Rightarrow> byte list \<Rightarrow> byte list \<Rightarrow> byte list" where
  "put_row N key xs B = poke (zip (map (\<lambda>e. key * N + e) [0..<length xs]) xs) B"

lemma radix_unique: "a * N + c = b * N + d \<Longrightarrow> c < N \<Longrightarrow> d < N \<Longrightarrow> a = b \<and> c = (d :: nat)"
proof -
  assume e: "a * N + c = b * N + d" and l: "c < N" "d < N"
  have "(x * N + y) div N = x" "(x * N + y) mod N = y" if "y < N" for x y using that by simp_all
  with e l show ?thesis by metis
qed

lemma src_ix_inj:
  assumes "ti_n0 t + NN * 32 \<le> ti_N t"
  shows "inj_on (src_ix t) (set (tile_walk 0 NN KT))"
proof (rule inj_onI)
  fix x y assume x: "x \<in> set (tile_walk 0 NN KT)" and y: "y \<in> set (tile_walk 0 NN KT)" and e: "src_ix t x = src_ix t y"
  have lt: "ti_n0 t + nt * 32 + nl < ti_N t" if "nt < NN" "nl < 32" for nt nl :: nat
  proof -
    have "nt * 32 + 32 \<le> NN * 32" using that by simp
    then show ?thesis using that assms by linarith
  qed
  obtain a b c d where xe: "x = (a, b, c, d)" "a < NN" "c < 32" "d < 32" using x unfolding set_tile_walk by (cases x) auto
  obtain a' b' c' d' where ye: "y = (a', b', c', d')" "a' < NN" "c' < 32" "d' < 32" using y unfolding set_tile_walk by (cases y) auto
  have "(ti_k0 t + b * 32 + d) * ti_N t + (ti_n0 t + a * 32 + c) = (ti_k0 t + b' * 32 + d') * ti_N t + (ti_n0 t + a' * 32 + c')"
    using e by (simp add: xe ye)
  then have "(ti_k0 t + b * 32 + d) = (ti_k0 t + b' * 32 + d') \<and> ti_n0 t + a * 32 + c = ti_n0 t + a' * 32 + c'"
    using radix_unique [OF _ lt [OF xe(2,3)] lt [OF ye(2,3)]] by blast
  then have "b * 32 + d = b' * 32 + d'" "a * 32 + c = a' * 32 + c'" by simp_all
  then have "b = b' \<and> d = d'" "a = a' \<and> c = c'" using radix_unique [OF _ xe(4) ye(4)] radix_unique [OF _ xe(3) ye(3)] by blast+
  then show "x = y" by (simp add: xe ye)
qed

text \<open>Writing the same values at the same cells of the tiles and of the matrix keeps the contract.\<close>

lemma holds_put:
  assumes "holds_tile t NN bs" "set cs \<subseteq> set (tile_walk 0 NN (ti_KT t))" "length vs = length cs" "distinct cs"
    and "ti_n0 t + NN * 32 \<le> ti_N t" "\<forall>x \<in> set (tile_walk 0 NN (ti_KT t)). src_ix t x < length (ti_Bi t)"
  shows "holds_tile (t\<lparr>ti_Bi := poke (zip (map (src_ix t) cs) vs) (ti_Bi t)\<rparr>) NN (poke (zip (map (tile_ix (ti_KT t)) cs) vs) bs)"
proof -
  let ?W = "set (tile_walk 0 NN (ti_KT t))"
  let ?val = "\<lambda>x. the (map_of (zip cs vs) x)"
  have val: "v = ?val x" if "(x, v) \<in> set (zip cs vs)" for x v using that assms(3,4) by (simp add: map_of_zip_is_Some map_of_is_SomeI)
  have put: "poke (zip (map f cs) vs) b ! f x = (if x \<in> set cs then ?val x else b ! f x)"
    if inj: "inj_on f ?W" and x: "x \<in> ?W" "f x < length b" for f :: "cell \<Rightarrow> nat" and b x
  proof -
    have z: "zip (map f cs) vs = map (\<lambda>p. (f (fst p), snd p)) (zip cs vs)" by (simp add: zip_map1 case_prod_unfold)
    have ag: "\<forall>(i, v) \<in> set (zip (map f cs) vs). v = ?val (inv_into ?W f i)"
      using val inj assms(2) by (auto simp: z inv_into_f_f dest: set_zip_leftD)
    have "map fst (zip (map f cs) vs) = map f cs" using assms(3) by simp
    then have "fst ` set (zip (map f cs) vs) = f ` set cs" by (metis list.set_map)
    then have "f x \<in> fst ` set (zip (map f cs) vs) \<longleftrightarrow> x \<in> set cs"
      using inj x(1) assms(2) by (auto dest: inj_onD)
    then show ?thesis using poke_agree [OF ag x(2)] inj x(1) by (simp add: inv_into_f_f)
  qed
  have ti: "inj_on (tile_ix (ti_KT t)) ?W" by (rule inj_on_inverseI [of _ "tile_cell (ti_KT t)"]) (rule tile_cell_ix)
  have len: "tile_ix (ti_KT t) x < length bs" if "x \<in> ?W" for x
    using tile_ix_less [OF that] assms(1) by (simp add: holds_tile_def del: tile_ix.simps)
  have s: "src_ix (t\<lparr>ti_Bi := B\<rparr>) x = src_ix t x" for B x by (cases x) simp
  show ?thesis
    using assms(1) put [OF ti _ len] put [OF src_ix_inj [OF assms(5)]] assms(6)
    by (simp add: holds_tile_iff s del: tile_ix.simps src_ix.simps)
qed

lemma holds_same:
  assumes "holds_tile t NN bs" "\<forall>x \<in> set (tile_walk 0 NN (ti_KT t)). B ! src_ix t x = ti_Bi t ! src_ix t x"
  shows "holds_tile (t\<lparr>ti_Bi := B\<rparr>) NN bs"
proof -
  have s: "src_ix (t\<lparr>ti_Bi := B\<rparr>) x = src_ix t x" for x by (cases x) simp
  show ?thesis using assms by (simp add: holds_tile_iff s)
qed

lemma put_cells_some:
  assumes "i < length fs" "set cs \<subseteq> set (tile_walk 0 NN KT)" "NN * (KT * 1024) \<le> length (snd (fs ! i))"
  shows "put_cells KT cs vs fs i = Some (fs[i := (fst (fs ! i), poke (zip (map (tile_ix KT) cs) vs) (snd (fs ! i)))])"
proof -
  have "fst ` set (zip (map (tile_ix KT) cs) vs) \<subseteq> {0..<length (snd (fs ! i))}"
    using assms(2,3) tile_ix_less by (fastforce dest: set_zip_leftD)
  then show ?thesis using assms(1) by (simp add: put_cells_def write_in_some)
qed

lemma poke_other: "j \<notin> fst ` set ws \<Longrightarrow> poke ws b ! j = b ! j"
proof (induction ws arbitrary: b)
  case (Cons w ws)
  then have "poke (w # ws) b ! j = b[fst w := snd w] ! j" by (simp add: poke_def case_prod_unfold)
  with Cons.prems show ?case by simp
qed (simp add: poke_def)

text \<open>The key/value pair: \<open>K^T\<close> is 512 rows by \<open>Lmax\<close> keys in one tile, \<open>V\<close> is \<open>Lmax\<close> keys by \<open>HD\<close>.\<close>

definition kv_ok :: "nat \<Rightarrow> nat \<Rightarrow> kv_res \<Rightarrow> byte list \<Rightarrow> byte list \<Rightarrow> bool" where
  "kv_ok KS NMAX kv KT V \<longleftrightarrow>
     kv_Kp kv = 512 \<and> iw_K (kv_wkt kv) = 512 \<and> iw_N (kv_wkt kv) = kv_Lmax kv \<and> iw_K (kv_wv kv) = kv_Lmax kv \<and> iw_N (kv_wv kv) = kv_HD kv
   \<and> 0 < kv_HD kv \<and> kv_HD kv \<le> 512 \<and> kv_HD kv \<le> NMAX \<and> 0 < kv_Lmax kv \<and> kv_Lmax kv \<le> NMAX \<and> 512 \<le> KS
   \<and> geom_ok KS NMAX 512 (kv_Lmax kv) \<and> geom_ok KS NMAX (kv_Lmax kv) (kv_HD kv)
   \<and> length KT = 512 * kv_Lmax kv \<and> length V = kv_Lmax kv * kv_HD kv
   \<and> holds_matrix KS NMAX (kv_wkt kv) KT \<and> holds_matrix KS NMAX (kv_wv kv) V"

lemma one_slice: "0 < x \<Longrightarrow> x \<le> st \<Longrightarrow> n_slices st x = [(0, x)]"
proof -
  assume x: "0 < x" "x \<le> st"
  have "x + st - 1 = (x - 1) + 1 * st" using x by simp
  moreover have "(x - 1) div st = 0" using x by simp
  ultimately have "(x + st - 1) div st = 1" using x div_mult_self1 [of st "x - 1" 1] by simp
  then show ?thesis using x by (simp add: n_slices_def c_slice_def)
qed

text \<open>A column of cells, or a row, put into one full tile.\<close>

lemma cells_src:
  assumes "ti_k0 t = 0" "ti_n0 t = 0"
  shows "map (src_ix t) (kt_cells key HD) = map (\<lambda>k. k * ti_N t + key) [0..<HD]"
  by (simp add: kt_cells_def assms)

lemma v_cells_src:
  assumes "ti_n0 t = 0"
  shows "map (src_ix t) (v_cells lk HD) = map (\<lambda>e. (ti_k0 t + lk) * ti_N t + e) [0..<HD]"
  by (simp add: v_cells_def assms add.assoc)

lemma kt_cells_ok: "key < NN * 32 \<Longrightarrow> HD \<le> KT * 32 \<Longrightarrow> set (kt_cells key HD) \<subseteq> set (tile_walk 0 NN KT) \<and> distinct (kt_cells key HD) \<and> length (kt_cells key HD) = HD"
proof -
  assume a: "key < NN * 32" "HD \<le> KT * 32"
  have "inj_on (\<lambda>k. (key div 32, k div 32, key mod 32, k mod 32)) {0..<HD}" by (rule inj_onI) (metis div_mult_mod_eq prod.inject)
  then show ?thesis using a unfolding kt_cells_def set_tile_walk by (auto simp: distinct_map less_mult_imp_div_less)
qed

lemma v_cells_ok: "lk < KT * 32 \<Longrightarrow> HD \<le> NN * 32 \<Longrightarrow> set (v_cells lk HD) \<subseteq> set (tile_walk 0 NN KT) \<and> distinct (v_cells lk HD) \<and> length (v_cells lk HD) = HD"
proof -
  assume a: "lk < KT * 32" "HD \<le> NN * 32"
  have "inj_on (\<lambda>e. (e div 32, lk div 32, e mod 32, lk mod 32)) {0..<HD}" by (rule inj_onI) (metis div_mult_mod_eq prod.inject)
  then show ?thesis using a unfolding v_cells_def set_tile_walk by (auto simp: distinct_map less_mult_imp_div_less)
qed

lemma src_in_range:
  assumes "x \<in> set (tile_walk 0 NN (ti_KT t))" "ti_k0 t + ti_KT t * 32 \<le> K" "ti_n0 t + NN * 32 \<le> ti_N t"
  shows "src_ix t x < K * ti_N t" "ti_k0 t \<le> src_ix t x div ti_N t" "src_ix t x div ti_N t < ti_k0 t + ti_KT t * 32"
proof -
  obtain a b c d where x: "x = (a, b, c, d)" "a < NN" "b < ti_KT t" "c < 32" "d < 32"
    using assms(1) unfolding set_tile_walk by (cases x) auto
  have "a * 32 + 32 \<le> NN * 32" "b * 32 + 32 \<le> ti_KT t * 32" using x by simp_all
  then have l: "ti_n0 t + a * 32 + c < ti_N t" "b * 32 + d < ti_KT t * 32" using x assms(3) by linarith+
  define r where "r = ti_k0 t + b * 32 + d"
  define m where "m = ti_n0 t + a * 32 + c"
  have s: "src_ix t x = r * ti_N t + m" by (simp add: x r_def m_def)
  have q: "src_ix t x div ti_N t = r" unfolding s using l(1) by (simp add: m_def)
  have r: "ti_k0 t \<le> r" "r < ti_k0 t + ti_KT t * 32" using l(2) by (simp_all add: r_def)
  show "ti_k0 t \<le> src_ix t x div ti_N t" "src_ix t x div ti_N t < ti_k0 t + ti_KT t * 32" unfolding q by fact+
  have "(r + 1) * ti_N t \<le> K * ti_N t" using r assms(2) by (intro mult_le_mono1) linarith
  then show "src_ix t x < K * ti_N t" unfolding s using l(1) by (simp add: m_def)
qed

lemma holds_full_eq: "holds_tile (full_arg B K N n0) NN bs \<longleftrightarrow> holds_tile (slice_arg B N (n0, Nc, 0, K)) NN bs"
  by (simp add: full_arg_def)

text \<open>The key's column into the one tile buffer of \<open>K^T\<close> (both layouts are the same there).\<close>

lemma append_kt:
  assumes "holds_matrix KS NMAX w KT" "iw_K w = 512" "iw_N w = L" "0 < L" "L \<le> NMAX" "512 \<le> KS" "32 dvd L"
    and "length KT = 512 * L" "key < L" "length xs = HD" "HD \<le> 512"
  shows "\<exists>w'. Option.bind (put_bf 16 (kt_cells key HD) xs w) (put_bb 16 (kt_cells key HD) xs 0) = Some w'
     \<and> holds_matrix KS NMAX w' (put_col L key xs KT) \<and> iw_K w' = 512 \<and> iw_N w' = L"
proof -
  have sl: "n_slices NMAX L = [(0, L)]" "n_slices KS 512 = [(0, 512)]" using assms(4-6) by (simp_all add: one_slice)
  then have ws: "w_slices KS NMAX 512 L = [(0, L, 0, 512)]" by (simp add: w_slices_def)
  let ?t = "full_arg KT 512 L 0" and ?cs = "kt_cells key HD"
  have t: "ti_KT ?t = 16" "ti_k0 ?t = 0" "ti_n0 ?t = 0" "ti_N ?t = L" "ti_Bi ?t = KT" by (simp_all add: full_arg_def)
  have NN: "L div 32 * 32 = L" using assms(7) by simp
  note cs = kt_cells_ok [of key "L div 32" HD 16] NN assms(9,11)
  have B': "poke (zip (map (src_ix ?t) ?cs) xs) KT = put_col L key xs KT"
    using cells_src [OF t(2,3)] assms(10) by (simp add: put_col_def t(4))
  have put: "put_cells 16 ?cs xs [f] 0 = Some [g] \<and> bf_cpu (fst g) \<noteq> 0 \<and> holds_tile (full_arg (put_col L key xs KT) 512 L 0) (L div 32) (snd g)"
    if f: "bf_cpu (fst f) \<noteq> 0" "holds_tile ?t (L div 32) (snd f)" and g: "g = (fst f, poke (zip (map (tile_ix 16) ?cs) xs) (snd f))" for f g
  proof -
    have "put_cells 16 ?cs xs [f] 0 = Some [g]"
      using put_cells_some [of 0 "[f]" ?cs "L div 32" 16 xs] cs f(2) by (simp add: g holds_tile_def t)
    moreover have "holds_tile (?t\<lparr>ti_Bi := put_col L key xs KT\<rparr>) (L div 32) (snd g)"
    proof -
      have "\<forall>x \<in> set (tile_walk 0 (L div 32) (ti_KT ?t)). src_ix ?t x < length (ti_Bi ?t)"
        using src_in_range(1) [of _ "L div 32" ?t 512] NN assms(8) by (auto simp: t simp del: src_ix.simps)
      then show ?thesis
        using holds_put [OF f(2), of ?cs xs] cs assms(10) by (simp add: t(1,3-5) B'[unfolded t(5)] g del: src_ix.simps)
    qed
    ultimately show ?thesis using f by (simp add: g full_arg_def)
  qed
  obtain f where f: "iw_Bb w = [f]" "bf_cpu (fst f) \<noteq> 0" "holds_tile ?t (L div 32) (snd f)"
    using assms(1-3) by (auto simp: holds_matrix_def ws full_arg_def list_all2_Cons1)
  define g where "g f = (fst f, poke (zip (map (tile_ix 16) ?cs) xs) (snd f))" for f :: filled
  have bf: "\<exists>f. bf = [f] \<and> bf_cpu (fst f) \<noteq> 0 \<and> holds_tile ?t (L div 32) (snd f)" if "iw_Bf w = Some bf" for bf
    using assms(1-3) that by (auto simp: holds_matrix_def sl list_all2_Cons1)
  show ?thesis
  proof (cases "iw_Bf w")
    case None
    then show ?thesis
      using put [OF f(2,3), of "g f"] f(1) assms(1-3)
      by (auto simp: put_bf_def put_bb_def holds_matrix_def ws g_def full_arg_def)
  next
    case (Some bf0)
    then obtain f2 where f2: "bf0 = [f2]" "bf_cpu (fst f2) \<noteq> 0" "holds_tile ?t (L div 32) (snd f2)" using bf by blast
    show ?thesis
      using put [OF f(2,3), of "g f"] put [OF f2(2,3), of "g f2"] f(1) f2(1) Some assms(1-3)
      by (auto simp: put_bf_def put_bb_def holds_matrix_def ws sl g_def full_arg_def)
  qed
qed

text \<open>The key's row into the full-K buffer of \<open>V\<close> and into the tile buffer its K-slice has.\<close>

lemma append_v:
  assumes "holds_matrix KS NMAX w V" "iw_K w = L" "iw_N w = HD" "0 < HD" "HD \<le> NMAX" "geom_ok KS NMAX L HD"
    and "length V = L * HD" "key < L" "length xs = HD"
  shows "\<exists>w'. Option.bind (put_bf (L div 32) (v_cells key HD) xs w)
                (put_bb (c_slice L KS (key div KS) div 32) (v_cells (key - key div KS * KS) HD) xs (key div KS)) = Some w'
     \<and> holds_matrix KS NMAX w' (put_row HD key xs V) \<and> iw_K w' = L \<and> iw_N w' = HD"
proof -
  have g: "0 < KS" "32 dvd KS" "32 dvd L" "32 dvd HD" using assms(6) by (simp_all add: geom_ok_def)
  have sl: "n_slices NMAX HD = [(0, HD)]" using assms(4,5) by (simp add: one_slice)
  let ?ks = "n_slices KS L" and ?V' = "put_row HD key xs V"
  have ws: "w_slices KS NMAX L HD = map (\<lambda>k. (0, HD, k)) ?ks" by (simp add: w_slices_def sl case_prod_unfold)
  have NN: "HD div 32 * 32 = HD" using g by simp
  have row: "poke (zip (map (\<lambda>e. key * HD + e) [0..<HD]) xs) V = ?V'" by (simp add: put_row_def assms(9))
  have put: "put_cells (ti_KT t) (v_cells lk HD) xs fs i = Some (fs[i := g]) \<and> bf_cpu (fst g) \<noteq> 0 \<and> holds_tile (t\<lparr>ti_Bi := ?V'\<rparr>) (HD div 32) (snd g)"
    if f: "i < length fs" "bf_cpu (fst (fs ! i)) \<noteq> 0" "holds_tile t (HD div 32) (snd (fs ! i))"
      and t: "ti_Bi t = V" "ti_N t = HD" "ti_n0 t = 0" "ti_k0 t + lk = key" "lk < ti_KT t * 32" "ti_k0 t + ti_KT t * 32 \<le> L"
      and g: "g = (fst (fs ! i), poke (zip (map (tile_ix (ti_KT t)) (v_cells lk HD)) xs) (snd (fs ! i)))" for fs i t lk g
  proof -
    have c: "set (v_cells lk HD) \<subseteq> set (tile_walk 0 (HD div 32) (ti_KT t))" "distinct (v_cells lk HD)" "length (v_cells lk HD) = HD"
      using v_cells_ok [of lk "ti_KT t" HD "HD div 32"] t(5) NN by simp_all
    have "put_cells (ti_KT t) (v_cells lk HD) xs fs i = Some (fs[i := g])"
      using put_cells_some [OF f(1) c(1)] f(3) by (simp add: g holds_tile_def)
    moreover have "map (src_ix t) (v_cells lk HD) = map (\<lambda>e. key * HD + e) [0..<HD]" using v_cells_src [OF t(3)] t(2,4) by simp
    moreover have "\<forall>x \<in> set (tile_walk 0 (HD div 32) (ti_KT t)). src_ix t x < length (ti_Bi t)"
      using src_in_range(1) [of _ "HD div 32" t L] t NN assms(7) by auto
    ultimately show ?thesis using holds_put [OF f(3) c(1) _ c(2), of xs] c(3) t(1-3) NN f(2) row assms(9) by (simp add: g)
  qed
  have other: "holds_tile (t\<lparr>ti_Bi := ?V'\<rparr>) (HD div 32) bs"
    if f: "holds_tile t (HD div 32) bs" and t: "ti_Bi t = V" "ti_N t = HD" "ti_n0 t = 0" "ti_k0 t + ti_KT t * 32 \<le> L"
      "key < ti_k0 t \<or> ti_k0 t + ti_KT t * 32 \<le> key" for t bs
  proof (rule holds_same [OF f], intro ballI)
    fix x assume x: "x \<in> set (tile_walk 0 (HD div 32) (ti_KT t))"
    have "src_ix t x div HD \<noteq> key" using src_in_range(2,3) [OF x t(4)] t NN by auto
    moreover have "(key * HD + e) div HD = key" if "e < HD" for e using that by simp
    ultimately have "src_ix t x \<notin> (\<lambda>e. key * HD + e) ` {0..<HD}" by (metis atLeastLessThan_iff imageE)
    then have "src_ix t x \<notin> fst ` set (zip (map (\<lambda>e. key * HD + e) [0..<HD]) xs)"
      by (metis (no_types, lifting) assms(9) diff_zero length_map length_upt list.set_map map_fst_zip set_upt)
    then show "?V' ! src_ix t x = ti_Bi t ! src_ix t x" unfolding row [symmetric] t(1) by (rule poke_other)
  qed
  define i where "i = key div KS"
  have il: "i < length ?ks"
    using div_lt_ceil [OF assms(8) g(1)] by (simp add: i_def)
  have ki: "?ks ! i = (i * KS, c_slice L KS i)" using il by (simp add: n_slices_def)
  have kj: "fst (?ks ! j) = j * KS \<and> fst (?ks ! j) + snd (?ks ! j) \<le> L \<and> 32 dvd snd (?ks ! j) \<and> snd (?ks ! j) \<le> KS" if "j < length ?ks" for j
    using n_slices_bounds [of "fst (?ks ! j)" "snd (?ks ! j)" KS L 32] nth_mem [OF that] that g
    by (simp add: n_slices_def)
  have lk: "i * KS \<le> key" "key < i * KS + KS" using dividend_less_div_times [OF g(1), of key] by (simp_all add: i_def add.commute)
  have bb: "list_all2 (\<lambda>k f. bf_cpu (fst f) \<noteq> 0 \<and> holds_tile (slice_arg V HD (0, HD, k)) (HD div 32) (snd f)) ?ks (iw_Bb w)"
    using assms(1-3) by (simp add: holds_matrix_def ws list_all2_map1)
  then have bl: "length (iw_Bb w) = length ?ks" by (rule list_all2_lengthD [symmetric])
  let ?t = "\<lambda>j. slice_arg V HD (0, HD, ?ks ! j)"
  have bj: "bf_cpu (fst (iw_Bb w ! j)) \<noteq> 0 \<and> holds_tile (?t j) (HD div 32) (snd (iw_Bb w ! j))" if "j < length ?ks" for j
    using list_all2_nthD [OF bb that] .
  have tj: "ti_Bi (?t j) = V \<and> ti_N (?t j) = HD \<and> ti_n0 (?t j) = 0 \<and> ti_k0 (?t j) = j * KS \<and> ti_KT (?t j) * 32 = snd (?ks ! j)
      \<and> ti_k0 (?t j) + ti_KT (?t j) * 32 \<le> L" if "j < length ?ks" for j
    using kj [OF that] by (cases "?ks ! j") simp
  have upd: "(?t j)\<lparr>ti_Bi := ?V'\<rparr> = slice_arg ?V' HD (0, HD, ?ks ! j)" for j by (cases "?ks ! j") simp
  define g2 where "g2 = (fst (iw_Bb w ! i), poke (zip (map (tile_ix (ti_KT (?t i))) (v_cells (key - i * KS) HD)) xs) (snd (iw_Bb w ! i)))"
  have kti: "ti_KT (?t i) = c_slice L KS i div 32" by (simp add: ki)
  have lki: "key - i * KS < ti_KT (?t i) * 32"
    using tj [OF il] lk assms(8) by (simp add: ki c_slice_def) linarith
  have p2: "put_cells (c_slice L KS i div 32) (v_cells (key - i * KS) HD) xs (iw_Bb w) i = Some ((iw_Bb w)[i := g2])"
    "bf_cpu (fst g2) \<noteq> 0" "holds_tile (slice_arg ?V' HD (0, HD, ?ks ! i)) (HD div 32) (snd g2)"
    using put [of i "iw_Bb w" "?t i" "key - i * KS" g2] bj [OF il] tj [OF il] lki lk(1) il by (simp_all only: bl g2_def kti upd) simp_all
  have bb': "list_all2 (\<lambda>k f. bf_cpu (fst f) \<noteq> 0 \<and> holds_tile (slice_arg ?V' HD (0, HD, k)) (HD div 32) (snd f)) ?ks ((iw_Bb w)[i := g2])"
  proof (rule list_all2_all_nthI)
    fix j assume j: "j < length ?ks"
    show "bf_cpu (fst ((iw_Bb w)[i := g2] ! j)) \<noteq> 0 \<and> holds_tile (slice_arg ?V' HD (0, HD, ?ks ! j)) (HD div 32) (snd ((iw_Bb w)[i := g2] ! j))"
    proof (cases "j = i")
      case True
      then show ?thesis using p2(2,3) il bl by simp
    next
      case False
      have "key < j * KS \<or> j * KS + snd (?ks ! j) \<le> key"
      proof (cases "j < i")
        case True
        then have "(j + 1) * KS \<le> i * KS" by (intro mult_le_mono1) simp
        then show ?thesis using kj [OF j] lk(1) by simp
      next
        case f: False
        then have "(i + 1) * KS \<le> j * KS" using False by (intro mult_le_mono1) simp
        then show ?thesis using lk(2) by simp
      qed
      then show ?thesis using other [of "?t j"] bj [OF j] tj [OF j] False by (simp only: upd) simp
    qed
  qed (simp add: bl)
  show ?thesis
  proof (cases "iw_Bf w")
    case None
    then show ?thesis using p2 bb' assms(1-3)
      by (auto simp: put_bf_def put_bb_def holds_matrix_def ws list_all2_map1 i_def)
  next
    case (Some bf)
    then obtain f where f: "bf = [f]" "bf_cpu (fst f) \<noteq> 0" "holds_tile (full_arg V L HD 0) (HD div 32) (snd f)"
      using assms(1-3) by (auto simp: holds_matrix_def sl list_all2_Cons1)
    define g3 where "g3 = (fst f, poke (zip (map (tile_ix (L div 32)) (v_cells key HD)) xs) (snd f))"
    have "put_cells (L div 32) (v_cells key HD) xs [f] 0 = Some [g3] \<and> bf_cpu (fst g3) \<noteq> 0 \<and> holds_tile (full_arg ?V' L HD 0) (HD div 32) (snd g3)"
      using put [of 0 "[f]" "full_arg V L HD 0" key g3] f assms(8) g(3) by (simp add: full_arg_def g3_def)
    then show ?thesis using p2 bb' assms(1-3) Some f(1)
      by (auto simp: put_bf_def put_bb_def holds_matrix_def ws sl list_all2_map1 i_def)
  qed
qed


text \<open>A pair packed by hand: 32 keys of 32 values, all zero.\<close>

definition kv_zero :: kv_res where
  "kv_zero = \<lparr>kv_wkt = (new_w 512 32 1 1 0)\<lparr>iw_Bb := [(no_buf\<lparr>bf_cpu := 4096\<rparr>, tile_spec (slice_arg (replicate 16384 0) 32 (0, 32, 0, 512)) 1)]\<rparr>,
     kv_wv = (new_w 32 32 1 1 0)\<lparr>iw_Bb := [(no_buf\<lparr>bf_cpu := 8192\<rparr>, tile_spec (slice_arg (replicate 1024 0) 32 (0, 32, 0, 32)) 1)]\<rparr>,
     kv_HD = 32, kv_Lmax = 32, kv_Kp = 512\<rparr>"

lemma kv_zero_ok: "kv_ok 1024 8192 kv_zero (replicate 16384 0) (replicate 1024 0)"
proof -
  have "geom_ok 1024 8192 512 32" "geom_ok 1024 8192 32 32"
    by (simp_all add: geom_ok_def w_slices_def n_slices_def c_slice_def w_bytes_def orki_pgup_def)
  moreover have "w_slices 1024 8192 512 32 = [(0, 32, 0, 512)]" "w_slices 1024 8192 32 32 = [(0, 32, 0, 32)]"
    by (simp_all add: w_slices_def n_slices_def c_slice_def)
  moreover have "holds_tile t NN (tile_spec t NN)" for t NN using holds_tile_spec [of t NN "[]"] by simp
  ultimately show ?thesis by (simp add: kv_ok_def kv_zero_def holds_matrix_def new_w_def no_buf_def)
qed


text \<open>Nothing bounds the head by the 512 rows of \<open>K^T\<close>: for a head of 544 the last key's column runs past the
  buffer.\<close>

lemma kv_append_wide_head_overruns:
  assumes "iw_Bf w = None" "iw_Bb w = [f]" "length (snd f) = 16384" "length xs = 544"
  shows "Option.bind (put_bf 16 (kt_cells 31 544) xs w) (put_bb 16 (kt_cells 31 544) xs 0) = None"
proof -
  let ?cs = "kt_cells 31 544"
  have l: "543 < length (zip (map (tile_ix 16) ?cs) xs)" using assms(4) by (simp add: kt_cells_def)
  moreover have "zip (map (tile_ix 16) ?cs) xs ! 543 = (17407, xs ! 543)" using assms(4) by (simp add: kt_cells_def)
  ultimately have "(17407, xs ! 543) \<in> set (zip (map (tile_ix 16) ?cs) xs)" using nth_mem [OF l] by simp
  then have "write_in (zip (map (tile_ix 16) ?cs) xs) (snd f) = None"
    using assms(3) by (force simp: write_in_def list_all_iff)
  then show ?thesis using assms(1,2) by (simp add: put_bf_def put_bb_def put_cells_def)
qed

end
