(* ===== verification/Cpu_Gemm.thy ===== *)
theory Cpu_Gemm
  imports I8_Weight
begin

section \<open>The CPU matrix product: \<open>src/npu/core/buf.c\<close>\<close>

text \<open>
  \<open>orki_cpu_gemm_i32\<close> is the exact product the offline paths compute with and the tests compare the NPU
  with. Matrices are row-major lists; \<open>neon\<close> says whether the file was compiled for ARM NEON, which adds
  the loop that takes four rows of \<open>B\<close> at a time, sixteen columns to a block. Each row of \<open>C\<close> is written by
  one thread of the \<open>omp\<close> loop and depends on \<open>A\<close> and \<open>B\<close> alone, so the rows are stored in order.
\<close>

subsection \<open>One row\<close>

definition vmlal_n_s16 :: "u32 \<Rightarrow> u16 \<Rightarrow> u16 \<Rightarrow> u32" where
  "vmlal_n_s16 c v a = c + scast v * scast a"

definition ORK_AXPY :: "byte list \<Rightarrow> u16 \<Rightarrow> nat \<Rightarrow> u32 list \<Rightarrow> u32 list" where
  "ORK_AXPY w a n cs = map2 (\<lambda>c v. vmlal_n_s16 c (scast v) a) cs (take 16 (drop n w))"

definition store_run :: "nat \<Rightarrow> 'a list \<Rightarrow> 'a list \<Rightarrow> 'a list" where
  "store_run off xs ys = take off ys @ xs @ drop (off + length xs) ys"

definition neon_block :: "(byte list \<times> u16) list \<Rightarrow> nat \<Rightarrow> u32 list \<Rightarrow> u32 list" where
  "neon_block ws n crow =
     store_run n (fold (\<lambda>(w, a) cs. if a \<noteq> 0 then ORK_AXPY w a n cs else cs) ws (take 16 (drop n crow))) crow"

text \<open>\<open>int16_t\<close> operands are promoted to \<open>int\<close> in the column tail.\<close>

function neon_cols :: "(byte list \<times> u16) list \<Rightarrow> nat \<Rightarrow> nat \<Rightarrow> u32 list \<Rightarrow> u32 list" where
  "neon_cols ws n N crow =
     (if n + 16 \<le> N then neon_cols ws (n + 16) N (neon_block ws n crow)
      else fold (\<lambda>n crow. crow[n := crow ! n + (\<Sum>(w, a)\<leftarrow>ws. scast a * scast (w ! n))]) [n..<N] crow)"
  by pat_completeness auto
termination by (relation "measure (\<lambda>(ws, n, N, crow). N - n)") auto

function neon_rows :: "byte list \<Rightarrow> byte list \<Rightarrow> nat \<Rightarrow> nat \<Rightarrow> nat \<Rightarrow> u32 list \<Rightarrow> nat \<times> u32 list" where
  "neon_rows arow B N k K crow =
     (if k + 4 \<le> K then
        let a0 = scast (arow ! k) :: u16; a1 = scast (arow ! (k + 1)); a2 = scast (arow ! (k + 2)); a3 = scast (arow ! (k + 3));
            w0 = drop (k * N) B; w1 = drop N w0; w2 = drop N w1; w3 = drop N w2
        in neon_rows arow B N (k + 4) K
             (if a0 OR a1 OR a2 OR a3 = 0 then crow else neon_cols [(w0, a0), (w1, a1), (w2, a2), (w3, a3)] 0 N crow)
      else (k, crow))"
  by pat_completeness auto
termination by (relation "measure (\<lambda>(arow, B, N, k, K, crow). K - k)") auto

declare neon_cols.simps [simp del] neon_rows.simps [simp del]

definition tail_row :: "byte list \<Rightarrow> byte list \<Rightarrow> nat \<Rightarrow> nat \<Rightarrow> u32 list \<Rightarrow> u32 list" where
  "tail_row arow B N k crow =
     (let a = scast (arow ! k) :: u32; wrow = drop (k * N) B
      in if a = 0 then crow else fold (\<lambda>n crow. crow[n := crow ! n + a * scast (wrow ! n)]) [0..<N] crow)"

definition gemm_row :: "bool \<Rightarrow> nat \<Rightarrow> nat \<Rightarrow> byte list \<Rightarrow> byte list \<Rightarrow> u32 list" where
  "gemm_row neon K N arow B =
     (let (k, crow) = (if neon then neon_rows arow B N 0 K (replicate N 0) else (0, replicate N 0))
      in fold (tail_row arow B N) [k..<K] crow)"

subsection \<open>The product and its callers\<close>

definition orki_cpu_gemm_i32 :: "bool \<Rightarrow> nat \<Rightarrow> nat \<Rightarrow> nat \<Rightarrow> byte list \<Rightarrow> byte list \<Rightarrow> u32 list \<Rightarrow> u32 list" where
  "orki_cpu_gemm_i32 neon M K N A B C = fold (\<lambda>m C. store_run (m * N) (gemm_row neon K N (drop (m * K) A) B) C) [0..<M] C"

definition ork_i8_mm_run_cpu :: "bool \<Rightarrow> nat \<Rightarrow> nat \<Rightarrow> nat \<Rightarrow> byte list \<Rightarrow> byte list \<Rightarrow> u32 list \<Rightarrow> u32 list" where
  "ork_i8_mm_run_cpu neon M K N A B C = orki_cpu_gemm_i32 neon M K N A B C"

record mm_task_i8 =
  mt_w :: "i8_w option"
  mt_M :: nat
  mt_A :: "byte list"
  mt_C :: "u32 list"

text \<open>Each task has an output buffer of its own; the tasks before a bad one have run when the call fails.\<close>

fun orki_cpu_chain_i8 :: "bool \<Rightarrow> mm_task_i8 list \<Rightarrow> int \<times> mm_task_i8 list" where
  "orki_cpu_chain_i8 neon [] = (0, [])"
| "orki_cpu_chain_i8 neon (t # ts) =
     (case Option.bind (mt_w t) (\<lambda>w. map_option (\<lambda>B. (w, B)) (iw_codes w)) of
        None \<Rightarrow> (- 1, t # ts)
      | Some (w, B) \<Rightarrow>
          let (rc, ts) = orki_cpu_chain_i8 neon ts
          in (rc, t\<lparr>mt_C := orki_cpu_gemm_i32 neon (mt_M t) (iw_K w) (iw_N w) (mt_A t) B (mt_C t)\<rparr> # ts))"

definition ork_w_codes :: "i8_w option \<Rightarrow> byte list option" where
  "ork_w_codes w = Option.bind w iw_codes"

definition ork_w_dims :: "i8_w option \<Rightarrow> nat \<times> nat" where
  "ork_w_dims w = (case w of None \<Rightarrow> (0, 0) | Some w \<Rightarrow> (iw_K w, iw_N w))"

text \<open>The grouped product scales each group's integer partial sum in \<open>float\<close>. The float operations are
  parameters; \<open>ok m\<close> says whether the accumulator of row \<open>m\<close> could be allocated.\<close>

record 'f float_ops =
  fl_zero :: 'f
  fl_of_int :: "u32 \<Rightarrow> 'f"
  fl_mul :: "'f \<Rightarrow> 'f \<Rightarrow> 'f"
  fl_add :: "'f \<Rightarrow> 'f \<Rightarrow> 'f"

definition grouped_step :: "'f float_ops \<Rightarrow> bool \<Rightarrow> nat \<Rightarrow> nat \<Rightarrow> nat \<Rightarrow> nat \<Rightarrow> byte list \<Rightarrow> byte list \<Rightarrow> 'f list \<Rightarrow> 'f list \<Rightarrow> nat \<Rightarrow> nat
    \<Rightarrow> 'f list \<Rightarrow> 'f list" where
  "grouped_step F neon K N G Sk A codes aScale bScale m g crow =
     (let as = aScale ! (m * Sk + g); bs = drop (g * N) bScale;
          acc = orki_cpu_gemm_i32 neon 1 G N (drop (m * K + g * G) A) (drop (g * G * N) codes) (replicate N 0)
      in map (\<lambda>n. fl_add F (crow ! n) (fl_mul F (fl_mul F (fl_of_int F (acc ! n)) as) (bs ! n))) [0..<N])"

definition orki_cpu_gemm_grouped :: "'f float_ops \<Rightarrow> bool \<Rightarrow> (nat \<Rightarrow> bool) \<Rightarrow> int \<Rightarrow> int \<Rightarrow> int \<Rightarrow> int \<Rightarrow> byte list option \<Rightarrow> byte list option
    \<Rightarrow> 'f list option \<Rightarrow> 'f list option \<Rightarrow> 'f list option \<Rightarrow> int \<times> 'f list option" where
  "orki_cpu_gemm_grouped F neon ok M K N G A codes aScale bScale C0 =
     (case (A, codes, aScale, bScale, C0) of
        (Some A, Some codes, Some aScale, Some bScale, Some C) \<Rightarrow>
          if M < 1 \<or> K < 1 \<or> N < 1 \<or> G < 1 \<or> c_mod K G \<noteq> 0 then (- 1, C0)
          else
            let M = nat M; K = nat K; N = nat N; G = nat G; Sk = K div G;
                row = (\<lambda>m. let z = replicate N (fl_zero F)
                  in if ok m then fold (grouped_step F neon K N G Sk A codes aScale bScale m) [0..<Sk] z else z)
            in (0, Some (fold (\<lambda>m C. store_run (m * N) (row m) C) [0..<M] C))
      | _ \<Rightarrow> (- 1, C0))"

subsection \<open>The loops add up dot products\<close>

lemma scast_widen: "(scast (scast (a :: byte) :: u16) :: u32) = scast a"
  by (subst scast_eq, subst sint_up_scast) (simp_all add: is_up scast_eq [symmetric])

definition row_term :: "(byte list \<times> u16) list \<Rightarrow> nat \<Rightarrow> u32" where
  "row_term ws n = (\<Sum>(w, a)\<leftarrow>ws. scast a * scast (w ! n))"

lemma axpy_fold:
  assumes "\<forall>(w, a) \<in> set ws. n + 16 \<le> length w"
  shows "length cs = 16 \<Longrightarrow>
    fold (\<lambda>(w, a) cs. if a \<noteq> 0 then ORK_AXPY w a n cs else cs) ws cs = map (\<lambda>j. cs ! j + row_term ws (n + j)) [0..<16]"
  using assms
proof (induction ws arbitrary: cs)
  case Nil
  then show ?case by (auto simp: row_term_def intro!: nth_equalityI)
next
  case (Cons x ws)
  obtain w a where x: "x = (w, a)" by (cases x)
  let ?cs = "if a \<noteq> 0 then ORK_AXPY w a n cs else cs"
  have "n + 16 \<le> length w" using Cons.prems(2) x by simp
  then have len: "length (take 16 (drop n w)) = 16" by simp
  have c: "length ?cs = 16" using Cons.prems(1) len by (simp add: ORK_AXPY_def)
  have "?cs ! j = cs ! j + scast a * scast (w ! (n + j))" if "j < 16" for j
    using that Cons.prems len x by (auto simp: ORK_AXPY_def vmlal_n_s16_def scast_widen)
  then have "map (\<lambda>j. ?cs ! j + row_term ws (n + j)) [0..<16] = map (\<lambda>j. cs ! j + row_term (x # ws) (n + j)) [0..<16]"
    by (intro map_cong) (auto simp: row_term_def x add.assoc)
  with Cons.IH [OF c] Cons.prems(2) show ?case by (simp add: x)
qed

lemma neon_block_nth:
  assumes "\<forall>(w, a) \<in> set ws. N \<le> length w" "n + 16 \<le> N" "length crow = N"
  shows "length (neon_block ws n crow) = N"
    and "i < N \<Longrightarrow> neon_block ws n crow ! i = crow ! i + (if n \<le> i \<and> i < n + 16 then row_term ws i else 0)"
proof -
  let ?cs = "map (\<lambda>j. crow ! (n + j) + row_term ws (n + j)) [0..<16]"
  have "fold (\<lambda>(w, a) cs. if a \<noteq> 0 then ORK_AXPY w a n cs else cs) ws (take 16 (drop n crow)) = ?cs"
    by (subst axpy_fold) (use assms in auto)
  then have b: "neon_block ws n crow = take n crow @ ?cs @ drop (n + 16) crow" by (simp add: neon_block_def store_run_def)
  show "length (neon_block ws n crow) = N" using assms(2,3) by (simp add: b)
  show "i < N \<Longrightarrow> neon_block ws n crow ! i = crow ! i + (if n \<le> i \<and> i < n + 16 then row_term ws i else 0)"
    using assms(2,3) by (auto simp: b nth_append)
qed

lemma fold_upd_nth:
  "n \<le> length xs \<Longrightarrow> fold (\<lambda>j xs. xs[j := xs ! j + f j]) [m..<n] xs = map (\<lambda>i. xs ! i + (if m \<le> i \<and> i < n then f i else 0 :: 'v::monoid_add)) [0..<length xs]"
proof (induction n)
  case 0
  then show ?case by (auto intro!: nth_equalityI)
next
  case (Suc n)
  then show ?case by (auto intro!: nth_equalityI simp: nth_upd less_Suc_eq)
qed

lemma neon_cols_spec:
  "\<forall>(w, a) \<in> set ws. N \<le> length w \<Longrightarrow> length crow = N \<Longrightarrow> n \<le> N \<Longrightarrow>
     neon_cols ws n N crow = map (\<lambda>i. crow ! i + (if n \<le> i then row_term ws i else 0)) [0..<N]"
proof (induction ws n N crow rule: neon_cols.induct)
  case (1 ws n N crow)
  show ?case
  proof (cases "n + 16 \<le> N")
    case True
    note b = neon_block_nth [OF 1(2) True 1(3)]
    have "neon_cols ws n N crow = map (\<lambda>i. neon_block ws n crow ! i + (if n + 16 \<le> i then row_term ws i else 0)) [0..<N]"
      by (rule trans [OF neon_cols.simps]) (use 1(1) [OF True 1(2) b(1)] True in simp)
    also have "\<dots> = map (\<lambda>i. crow ! i + (if n \<le> i then row_term ws i else 0)) [0..<N]"
      by (intro map_cong) (auto simp: b(2))
    finally show ?thesis .
  next
    case False
    then show ?thesis using 1(3) by (simp add: neon_cols.simps [of ws n] fold_upd_nth row_term_def [symmetric])
  qed
qed

text \<open>The reference: one entry of the product.\<close>

definition mat_dot :: "nat \<Rightarrow> nat \<Rightarrow> byte list \<Rightarrow> byte list \<Rightarrow> nat \<Rightarrow> u32" where
  "mat_dot K N arow B n = (\<Sum>k<K. scast (arow ! k) * scast (B ! (k * N + n)))"

lemma tail_row_dot:
  assumes "K * N \<le> length B" "k < K"
  shows "tail_row arow B N k (map (mat_dot k N arow B) [0..<N]) = map (mat_dot (Suc k) N arow B) [0..<N]"
proof -
  have "Suc k * N \<le> K * N" using assms(2) by (intro mult_le_mono1) simp
  then have "k * N \<le> length B" using assms(1) unfolding mult_Suc by linarith
  then have "drop (k * N) B ! n = B ! (k * N + n)" for n by simp
  then show ?thesis
    by (auto simp: tail_row_def Let_def fold_upd_nth mat_dot_def intro!: nth_equalityI)
qed

lemma tail_rows_dot:
  assumes "K * N \<le> length B"
  shows "k \<le> K' \<Longrightarrow> K' \<le> K \<Longrightarrow>
    fold (tail_row arow B N) [k..<K'] (map (mat_dot k N arow B) [0..<N]) = map (mat_dot K' N arow B) [0..<N]"
proof (induction K')
  case (Suc K')
  then show ?case using tail_row_dot [OF assms, of K' arow] by (cases "k = Suc K'") auto
qed simp

lemma neon_rows_dot:
  assumes "K * N \<le> length B"
  shows "k \<le> K \<Longrightarrow> crow = map (mat_dot k N arow B) [0..<N] \<Longrightarrow>
    \<exists>k' \<le> K. neon_rows arow B N k K crow = (k', map (mat_dot k' N arow B) [0..<N])"
  using assms
proof (induction arow B N k K crow rule: neon_rows.induct)
  case (1 arow B N k K crow)
  show ?case
  proof (cases "k + 4 \<le> K")
    case False
    with 1 show ?thesis by (auto simp: neon_rows.simps [of arow B N k])
  next
    case True
    let ?a = "\<lambda>i. scast (arow ! (k + i)) :: u16" and ?w = "\<lambda>i. drop ((k + i) * N) B"
    let ?ws = "[(?w 0, ?a 0), (?w 1, ?a 1), (?w 2, ?a 2), (?w 3, ?a 3)]"
    have w: "drop N (drop (k * N) B) = ?w 1" "drop N (?w 1) = ?w 2" "drop N (?w 2) = ?w 3" by (simp_all add: algebra_simps numeral_3_eq_3)
    have "(k + 4) * N \<le> K * N" using True by (intro mult_le_mono1)
    then have "k * N + 4 * N \<le> length B" using 1(4) unfolding add_mult_distrib by linarith
    then have len: "\<forall>(w, a) \<in> set ?ws. N \<le> length w" by (auto simp: add_mult_distrib)
    have nth: "?w i ! n = B ! ((k + i) * N + n)" if "i < 4" "n < N" for i n
    proof -
      have "Suc (k + i) * N \<le> K * N" using True that by (intro mult_le_mono1) simp
      then have "(k + i) * N \<le> length B" using 1(4) unfolding mult_Suc by linarith
      then show ?thesis by simp
    qed
    have step: "mat_dot k N arow B n + row_term ?ws n = mat_dot (k + 4) N arow B n" if "n < N" for n
    proof -
      have "{..<k + 4} = insert (k + 3) (insert (k + 2) (insert (k + 1) (insert k {..<k})))" by auto
      then have "mat_dot (k + 4) N arow B n = mat_dot k N arow B n + (\<Sum>i\<leftarrow>[0, 1, 2, 3]. scast (arow ! (k + i)) * scast (B ! ((k + i) * N + n)))"
        by (simp add: mat_dot_def add.commute add.left_commute)
      also have "\<dots> = mat_dot k N arow B n + row_term ?ws n"
        using nth [of 0 n] nth [of 1 n] nth [of 2 n] nth [of 3 n] that by (simp add: row_term_def scast_widen)
      finally show ?thesis by simp
    qed
    let ?crow = "if ?a 0 OR ?a 1 OR ?a 2 OR ?a 3 = 0 then crow else neon_cols ?ws 0 N crow"
    have zero: "?a 0 OR ?a 1 OR ?a 2 OR ?a 3 = 0 \<Longrightarrow> row_term ?ws n = 0" for n
      by (simp add: row_term_def or_eq_0_iff)
    have crow: "?crow = map (mat_dot (k + 4) N arow B) [0..<N]"
      using 1(3) step zero neon_cols_spec [OF len, of crow 0] by (auto intro!: nth_equalityI)
    have "neon_rows arow B N k K crow = neon_rows arow B N (k + 4) K ?crow"
      by (subst neon_rows.simps) (simp only: Let_def w True if_True add_0_right)
    moreover have "\<exists>k' \<le> K. neon_rows arow B N (k + 4) K ?crow = (k', map (mat_dot k' N arow B) [0..<N])"
      unfolding add_0_right
      by (rule 1(1) [OF True refl refl refl refl refl refl refl refl, unfolded w]) (use True 1(4) crow in \<open>simp_all only: add_0_right\<close>)
    ultimately show ?thesis by simp
  qed
qed

lemma gemm_row_spec: "K * N \<le> length B \<Longrightarrow> gemm_row neon K N arow B = map (mat_dot K N arow B) [0..<N]"
proof -
  assume B: "K * N \<le> length B"
  have z: "replicate N 0 = map (mat_dot 0 N arow B) [0..<N]" by (auto simp: mat_dot_def intro!: nth_equalityI)
  obtain k where "k \<le> K" "(if neon then neon_rows arow B N 0 K (replicate N 0) else (0, replicate N 0)) = (k, map (mat_dot k N arow B) [0..<N])"
    using neon_rows_dot [OF B _ z] z by (cases neon) auto
  then show ?thesis using tail_rows_dot [OF B, of k K arow] by (simp add: gemm_row_def)
qed

lemma store_rows:
  assumes "\<And>m. m < M \<Longrightarrow> length (row m) = N"
  shows "m \<le> M \<Longrightarrow> m * N \<le> length C \<Longrightarrow>
    fold (\<lambda>m C. store_run (m * N) (row m) C) [0..<m] C = concat (map row [0..<m]) @ drop (m * N) C"
proof (induction m)
  case (Suc m)
  have "length (concat (map row [0..<m])) = m * N"
    using assms Suc.prems(1) by (induction m) auto
  with Suc assms [of m] show ?case by (simp add: store_run_def)
qed simp

definition mat_mul :: "nat \<Rightarrow> nat \<Rightarrow> nat \<Rightarrow> byte list \<Rightarrow> byte list \<Rightarrow> u32 list" where
  "mat_mul M K N A B = concat (map (\<lambda>m. map (mat_dot K N (drop (m * K) A) B) [0..<N]) [0..<M])"

lemma concat_rows_nth:
  assumes "\<And>m. m < M \<Longrightarrow> length (row m) = N"
  shows "length (concat (map row [0..<M])) = M * N"
    and "m < M \<Longrightarrow> n < N \<Longrightarrow> concat (map row [0..<M]) ! (m * N + n) = row m ! n"
proof -
  have l: "length (concat (map row [0..<M])) = M * N \<and> (\<forall>m < M. \<forall>n < N. concat (map row [0..<M]) ! (m * N + n) = row m ! n)"
    using assms
  proof (induction M)
    case (Suc M)
    have "m * N + n < M * N" if "m < M" "n < N" for m n
    proof -
      have "Suc m * N \<le> M * N" using that by (intro mult_le_mono1) simp
      then show ?thesis using that by simp
    qed
    with Suc show ?case by (auto simp: nth_append less_Suc_eq)
  qed simp
  from l show "length (concat (map row [0..<M])) = M * N" by blast
  from l show "m < M \<Longrightarrow> n < N \<Longrightarrow> concat (map row [0..<M]) ! (m * N + n) = row m ! n" by blast
qed

lemma mat_mul_length [simp]: "length (mat_mul M K N A B) = M * N"
  unfolding mat_mul_def by (rule concat_rows_nth(1)) simp

lemma mat_mul_nth:
  "m < M \<Longrightarrow> n < N \<Longrightarrow> mat_mul M K N A B ! (m * N + n) = mat_dot K N (drop (m * K) A) B n"
  unfolding mat_mul_def by (subst concat_rows_nth(2)) simp_all

lemma cpu_gemm_spec:
  "K * N \<le> length B \<Longrightarrow> M * N \<le> length C \<Longrightarrow> orki_cpu_gemm_i32 neon M K N A B C = mat_mul M K N A B @ drop (M * N) C"
  unfolding orki_cpu_gemm_i32_def mat_mul_def by (subst store_rows [of M]) (simp_all add: gemm_row_spec)

lemma sint_small: "- 2147483648 \<le> x \<Longrightarrow> x < 2147483648 \<Longrightarrow> sint (word_of_int x :: u32) = x"
  unfolding sint_sbintrunc' by (rule signed_take_bit_int_eq_self) simp_all

lemma mat_dot_exact:
  assumes "K < 131072"
  shows "sint (mat_dot K N arow B n) = (\<Sum>k<K. sint (arow ! k) * sint (B ! (k * N + n)))"
proof -
  let ?f = "\<lambda>k. sint (arow ! k) * sint (B ! (k * N + n))"
  have b: "\<bar>sint (x :: byte)\<bar> \<le> 128" for x using sint_range_size [of x] by (simp add: word_size abs_le_iff)
  have "\<bar>?f k\<bar> \<le> 16384" for k
    unfolding abs_mult using mult_mono [OF b b] by simp
  then have "\<bar>\<Sum>k<K. ?f k\<bar> \<le> (\<Sum>k<K. 16384)" by (intro order_trans [OF sum_abs] sum_mono) simp
  also have "\<dots> = int K * 16384" by simp
  also have "\<dots> \<le> 131071 * 16384" using assms by linarith
  finally have "- 2147483648 \<le> (\<Sum>k<K. ?f k)" "(\<Sum>k<K. ?f k) < 2147483648" by linarith+
  then have "sint (word_of_int (\<Sum>k<K. ?f k) :: u32) = (\<Sum>k<K. ?f k)" by (rule sint_small)
  moreover have "mat_dot K N arow B n = word_of_int (\<Sum>k<K. ?f k)"
    unfolding mat_dot_def scast_eq by (simp only: of_int_sum of_int_mult)
  ultimately show ?thesis by (simp only:)
qed

text \<open>C39: the CPU product is exact. With or without the NEON loop, its zero tests, its blocks of sixteen columns
  and its tails, every entry of \<open>C\<close> is the dot product of its row and column modulo \<open>2^32\<close>; up to 131071
  products nothing wraps, so it is the integer product.\<close>

theorem cpu_gemm_exact:
  assumes "length B = K * N" "length A = M * K" "length C = M * N"
  shows "length (orki_cpu_gemm_i32 neon M K N A B C) = M * N
    \<and> (\<forall>m < M. \<forall>n < N. orki_cpu_gemm_i32 neon M K N A B C ! (m * N + n) = (\<Sum>k<K. scast (A ! (m * K + k)) * scast (B ! (k * N + n))))
    \<and> (K < 131072 \<longrightarrow> (\<forall>m < M. \<forall>n < N. sint (orki_cpu_gemm_i32 neon M K N A B C ! (m * N + n))
          = (\<Sum>k<K. sint (A ! (m * K + k)) * sint (B ! (k * N + n)))))"
proof -
  have g: "orki_cpu_gemm_i32 neon M K N A B C = mat_mul M K N A B" using cpu_gemm_spec [of K N B M C] assms by simp
  have "drop (m * K) A ! k = A ! (m * K + k)" if "m < M" for m k
  proof -
    have "m * K \<le> length A" using assms(2) that by simp
    then show ?thesis by simp
  qed
  then show ?thesis by (auto simp: g mat_mul_nth mat_dot_exact) (auto simp: mat_dot_def)
qed

theorem cpu_gemm_exact_witness:
  "orki_cpu_gemm_i32 True 1 5 1 [1, 2, 3, 4, 255] [5, 6, 7, 8, 9] [77] ! (0 * 1 + 0) = 61
   \<and> sint (orki_cpu_gemm_i32 True 1 5 1 [1, 2, 3, 4, 255] [5, 6, 7, 8, 9] [77] ! (0 * 1 + 0)) = 61"
proof -
  have "{..<5 :: nat} = {0, 1, 2, 3, 4}" by auto
  then show ?thesis using cpu_gemm_exact [of "[5, 6, 7, 8, 9]" 5 1 "[1, 2, 3, 4, 255]" 1 "[77]" True] by simp
qed

subsection \<open>The callers\<close>

text \<open>A chain on offline weights leaves every task's product; it stops at the first weight without codes, with
  the products before it stored.\<close>

lemma cpu_chain_i8_spec:
  assumes "\<forall>t \<in> set ts. \<exists>w B. mt_w t = Some w \<and> iw_codes w = Some B \<and> iw_K w * iw_N w \<le> length B \<and> length (mt_C t) = mt_M t * iw_N w"
  shows "orki_cpu_chain_i8 neon ts =
    (0, map (\<lambda>t. t\<lparr>mt_C := mat_mul (mt_M t) (iw_K (the (mt_w t))) (iw_N (the (mt_w t))) (mt_A t) (the (iw_codes (the (mt_w t))))\<rparr>) ts)"
  using assms by (induction ts) (auto simp: cpu_gemm_spec)

lemma cpu_chain_i8_refused:
  "t \<in> set ts \<Longrightarrow> ork_w_codes (mt_w t) = None \<Longrightarrow> fst (orki_cpu_chain_i8 neon ts) = - 1"
  by (induction ts) (auto simp: ork_w_codes_def split: option.splits prod.splits bind_splits)

text \<open>A grouped product, and what it silently is when a row's accumulator cannot be allocated: the call
  returns 0 with that row zero.\<close>

definition group_sum :: "'f float_ops \<Rightarrow> nat \<Rightarrow> nat \<Rightarrow> nat \<Rightarrow> byte list \<Rightarrow> byte list \<Rightarrow> 'f list \<Rightarrow> 'f list \<Rightarrow> nat \<Rightarrow> nat \<Rightarrow> nat \<Rightarrow> 'f" where
  "group_sum F K N G A codes aScale bScale m n s =
     fold (\<lambda>g x. fl_add F x (fl_mul F (fl_mul F (fl_of_int F (mat_dot G N (drop (m * K + g * G) A) (drop (g * G * N) codes) n))
       (aScale ! (m * (K div G) + g))) (bScale ! (g * N + n)))) [0..<s] (fl_zero F)"

lemma grouped_row:
  assumes "G * s * N \<le> length codes" "s * N \<le> length bScale"
  shows "fold (grouped_step F neon K N G (K div G) A codes aScale bScale m) [0..<s] (replicate N (fl_zero F))
    = map (\<lambda>n. group_sum F K N G A codes aScale bScale m n s) [0..<N]"
  using assms
proof (induction s)
  case 0
  then show ?case by (auto simp: group_sum_def intro!: nth_equalityI)
next
  case (Suc s)
  have "G * N \<le> length (drop (s * G * N) codes)" using Suc.prems(1) by (simp add: algebra_simps)
  note g = cpu_gemm_spec [OF this, of 1 "replicate N 0" neon "drop (m * K + s * G) A"]
  have m: "mat_mul 1 G N A' B' ! n = mat_dot G N A' B' n" if "n < N" for A' B' n
    using mat_mul_nth [of 0 1 n N G A' B'] that by simp
  have b: "drop (s * N) bScale ! n = bScale ! (s * N + n)" for n
  proof -
    have "s * N \<le> length bScale" using Suc.prems(2) unfolding mult_Suc by linarith
    then show ?thesis by simp
  qed
  have IH: "fold (grouped_step F neon K N G (K div G) A codes aScale bScale m) [0..<s] (replicate N (fl_zero F))
    = map (\<lambda>n. group_sum F K N G A codes aScale bScale m n s) [0..<N]"
    using Suc by (simp add: algebra_simps)
  show ?case
    using g m b by (simp add: IH) (auto simp: grouped_step_def Let_def group_sum_def intro!: nth_equalityI)
qed

lemma cpu_gemm_grouped_spec:
  assumes "0 < M" "0 < K" "0 < N" "0 < G" "G dvd K" "K * N \<le> length codes" "K div G * N \<le> length bScale" "length C = M * N"
  shows "orki_cpu_gemm_grouped F neon ok (int M) (int K) (int N) (int G) (Some A) (Some codes) (Some aScale) (Some bScale) (Some C)
    = (0, Some (concat (map (\<lambda>m. if ok m then map (\<lambda>n. group_sum F K N G A codes aScale bScale m n (K div G)) [0..<N]
                            else replicate N (fl_zero F)) [0..<M])))"
proof -
  have "G * (K div G) * N \<le> length codes" using assms(5,6) by simp
  note r = grouped_row [OF this assms(7)]
  have "c_mod (int K) (int G) = 0" using assms(4,5) by (simp add: c_mod_nonneg)
  then show ?thesis
    using assms by (simp add: orki_cpu_gemm_grouped_def Let_def r nat_div_distrib) (subst store_rows [of M], simp_all add: r cong: if_cong)
qed

end
