(* ===== verification/I8_Sliced.thy ===== *)
theory I8_Sliced
  imports Cpu_Gemm I8_Update Slice Run_Loop
begin

section \<open>Matrix products over sliced weights: \<open>src/npu/i8/pack.c\<close>, \<open>src/npu/i8/run.c\<close>, \<open>src/npu.c\<close>\<close>

text \<open>
  A weight the multi-core path refuses is cut into a grid of sub-weights, one for each K-slice and N-tile,
  each packed like a weight of its own. The run gathers the columns of \<open>A\<close> for every K-slice, hands all
  tiles to the doorbell in one submit, and adds the partial products of the K-slices into \<open>C\<close>, the pool's
  threads each on columns of their own.

  The doorbell (\<open>ork_dyn_begin_mc\<close> to \<open>ork_dyn_end\<close>) is a parameter: it refuses or fails (\<open>None\<close>), or fills
  every task's output. \<open>heap i\<close> says whether the \<open>i\<close>-th allocation of a call succeeds; \<open>order\<close> is the
  interleaving in which the threads' stores happen.
\<close>

subsection \<open>Packing\<close>

record w_sliced =
  sl_K :: nat
  sl_N :: nat
  sl_Kpad :: nat
  sl_cap :: ork_slice_caps
  sl_nks :: nat
  sl_nnt :: nat
  sl_ks :: nat
  sl_ns :: nat
  sl_sub :: "i8_w list"

text \<open>The width of an N-tile: equal tiles, at least one per core, a multiple of 32 up to the cap.\<close>

definition clamp_width :: "nat \<Rightarrow> nat \<Rightarrow> nat \<Rightarrow> nat" where
  "clamp_width nalign cap_ns ns = (let ns = (if cap_ns < ns then cap_ns else ns) in if ns < nalign then nalign else ns)"

definition grid_width :: "nat \<Rightarrow> nat \<Rightarrow> nat" where
  "grid_width cores N =
     (let cap = ork_slice_caps_rk3588; nmul = nat (sc_nmul cap);
          cap_ns = nat (sc_nmax cap) div nmul * nmul;
          nnt = (N + cap_ns - 1) div cap_ns; nnt = (if nnt < cores then cores else nnt);
          nalign = 32
      in clamp_width nalign cap_ns (((N + nnt - 1) div nnt + nalign - 1) div nalign * nalign))"

text \<open>The tile grid: \<open>K\<close> rounded up to the alignment, then cut at the largest aligned step.\<close>

definition slice_grid :: "nat \<Rightarrow> nat \<Rightarrow> nat \<Rightarrow> w_sliced" where
  "slice_grid cores K N =
     (let cap = ork_slice_caps_rk3588; kmul = nat (sc_kmul cap);
          Kpad = (K + kmul - 1) div kmul * kmul;
          ks = nat (sc_kmax cap) div kmul * kmul;
          ns = grid_width cores N
      in \<lparr>sl_K = K, sl_N = N, sl_Kpad = Kpad, sl_cap = cap, sl_nks = (Kpad + ks - 1) div ks, sl_nnt = (N + ns - 1) div ns,
          sl_ks = ks, sl_ns = ns, sl_sub = []\<rparr>)"

text \<open>The rows of one block of \<open>B\<close>, zero past \<open>K\<close>.\<close>

definition slice_blk :: "byte list \<Rightarrow> nat \<Rightarrow> nat \<Rightarrow> nat \<Rightarrow> nat \<Rightarrow> nat \<Rightarrow> nat \<Rightarrow> byte list" where
  "slice_blk B K N k0 Ks n0 Nw =
     concat (map (\<lambda>k. if k0 + k < K then take Nw (drop ((k0 + k) * N + n0) B) else replicate Nw 0) [0..<Ks])"

definition tile_at :: "w_sliced \<Rightarrow> nat \<Rightarrow> nat \<Rightarrow> nat \<times> nat \<times> nat \<times> nat" where
  "tile_at w ki ni =
     (let k0 = ki * sl_ks w; k1 = (if k0 + sl_ks w < sl_Kpad w then k0 + sl_ks w else sl_Kpad w);
          n0 = ni * sl_ns w; n1 = (if n0 + sl_ns w < sl_N w then n0 + sl_ns w else sl_N w)
      in (k0, k1 - k0, n0, n1 - n0))"

definition ork_mm_free_sliced :: "kernel \<Rightarrow> w_sliced \<Rightarrow> kst \<Rightarrow> kst" where
  "ork_mm_free_sliced an w st = fold (ork_mm_free an) (sl_sub w) st"

fun pack_subs :: "i8_env \<Rightarrow> kernel \<Rightarrow> mem \<Rightarrow> i8_ctx \<Rightarrow> byte list \<Rightarrow> (nat \<times> nat) list \<Rightarrow> w_sliced \<Rightarrow> kst \<Rightarrow> w_sliced option \<times> kst" where
  "pack_subs v an mem c B [] w st = (Some w, st)"
| "pack_subs v an mem c B ((ki, ni) # ts) w st =
     (let (k0, Ks, n0, Nw) = tile_at w ki ni in
      case ork_i8_mm_pack v an mem c Ks Nw (slice_blk B (sl_K w) (sl_N w) k0 Ks n0 Nw) st of
        (None, st) \<Rightarrow> (None, ork_mm_free_sliced an w st)
      | (Some sw, st) \<Rightarrow> pack_subs v an mem c B ts (w\<lparr>sl_sub := sl_sub w @ [sw]\<rparr>) st)"

definition orki_i8_slice_pack :: "(nat \<Rightarrow> bool) \<Rightarrow> i8_env \<Rightarrow> kernel \<Rightarrow> mem \<Rightarrow> i8_ctx \<Rightarrow> nat \<Rightarrow> nat \<Rightarrow> byte list \<Rightarrow> kst
    \<Rightarrow> w_sliced option \<times> kst" where
  "orki_i8_slice_pack heap v an mem c K N B st =
     (let w = slice_grid (nat (soc_cores (ic_soc c))) K N in
      if int N mod sc_nmul (sl_cap w) \<noteq> 0 then (None, st)
      else if \<not> heap 0 then (None, st)
      else if \<not> heap 1 \<or> \<not> heap 2 then (None, ork_mm_free_sliced an w st)
      else pack_subs v an mem c B [(ki, ni). ki \<leftarrow> [0..<sl_nks w], ni \<leftarrow> [0..<sl_nnt w]] w st)"

text \<open>\<open>orki_pack\<close> with the companion it builds for the shapes the multi-core path refuses. \<open>off\<close> and \<open>all\<close>
  are \<open>ORK_NO_SLICE_RESCUE\<close> and \<open>ORK_SLICE_ALL\<close>; the packs of the sub-tiles build none.\<close>

definition pack_with_rescue :: "(nat \<Rightarrow> bool) \<Rightarrow> bool \<Rightarrow> bool \<Rightarrow> i8_env \<Rightarrow> kernel \<Rightarrow> mem \<Rightarrow> i8_ctx \<Rightarrow> nat \<Rightarrow> nat \<Rightarrow> byte list \<Rightarrow> kst
    \<Rightarrow> (i8_w \<times> w_sliced option) option \<times> kst" where
  "pack_with_rescue heap off all v an mem c K N B st =
     (case orki_pack_i8 v an mem c K N B st of
        (None, st) \<Rightarrow> (None, st)
      | (Some w, st) \<Rightarrow>
          if \<not> off \<and> (1 < iw_Sn w \<and> (4096 < K \<or> iw_Bf w = None) \<or> all) \<and> 0 < K \<and> 0 < N
          then map_prod (\<lambda>s. Some (w, s)) (\<lambda>st. st) (orki_i8_slice_pack heap v an mem c K N B st)
          else (Some (w, None), st))"

subsection \<open>Running\<close>

type_synonym door_task = "i8_w \<times> nat \<times> byte list"
type_synonym doorbell = "door_task list \<Rightarrow> int \<Rightarrow> u32 list list option"

text \<open>The columns of \<open>A\<close> for one K-slice, zero past \<open>K\<close>.\<close>

definition slice_A :: "w_sliced \<Rightarrow> nat \<Rightarrow> byte list \<Rightarrow> nat \<Rightarrow> byte list" where
  "slice_A w M A ki =
     (let (k0, Ks, _, _) = tile_at w ki 0; real = min (sl_K w - k0) Ks
      in concat (map (\<lambda>m. take real (drop (m * sl_K w + k0) A) @ replicate (Ks - real) 0) [0..<M]))"

definition slice_tasks :: "w_sliced \<Rightarrow> nat \<Rightarrow> byte list \<Rightarrow> door_task list" where
  "slice_tasks w M A =
     [(sl_sub w ! (ki * sl_nnt w + ni), M, slice_A w M A ki). ki \<leftarrow> [0..<sl_nks w], ni \<leftarrow> [0..<sl_nnt w]]"

datatype acc_op = Seed u32 | Accum u32

fun acc_val :: "acc_op \<Rightarrow> u32 \<Rightarrow> u32" where
  "acc_val (Seed v) x = v"
| "acc_val (Accum v) x = x + v"

definition acc_all :: "(nat \<times> acc_op) list \<Rightarrow> u32 list \<Rightarrow> u32 list" where
  "acc_all us C = fold (\<lambda>(j, a) C. C[j := acc_val a (C ! j)]) us C"

text \<open>The stores of one accumulate worker, for the columns \<open>c0\<close> to \<open>c1\<close>.\<close>

definition acc_tile :: "w_sliced \<Rightarrow> nat \<Rightarrow> u32 list list \<Rightarrow> nat \<Rightarrow> nat \<Rightarrow> nat \<Rightarrow> (nat \<times> acc_op) list" where
  "acc_tile w M parts c0 c1 ni =
     (let N = sl_N w; ns = sl_ns w; n0 = ni * ns; Nw = (if N - n0 < ns then N - n0 else ns);
          lo = (if c0 < n0 then n0 else c0); hi = (if n0 + Nw < c1 then n0 + Nw else c1)
      in if hi \<le> lo then []
         else concat (map (\<lambda>ki. let src = parts ! (ki * sl_nnt w + ni) in
                concat (map (\<lambda>m.
                  map (\<lambda>n. let p = src ! (m * Nw + (lo - n0) + n) in (m * N + lo + n, if ki = 0 then Seed p else Accum p))
                    [0..<hi - lo]) [0..<M])) [0..<sl_nks w]))"

definition orki_slice_acc_worker :: "w_sliced \<Rightarrow> nat \<Rightarrow> u32 list list \<Rightarrow> nat \<times> nat \<Rightarrow> (nat \<times> acc_op) list" where
  "orki_slice_acc_worker w M parts r = concat (map (acc_tile w M parts (fst r) (snd r)) [0..<sl_nnt w])"

definition ORK_MAXCORE :: int where
  "ORK_MAXCORE = 4"

definition acc_cores :: "int \<Rightarrow> int \<Rightarrow> nat" where
  "acc_cores cores nc =
     (let anc = (if 0 < nc then nc else cores); anc = (if ORK_MAXCORE < anc then ORK_MAXCORE else anc)
      in nat (if anc < 1 then 1 else anc))"

definition acc_ranges :: "int \<Rightarrow> int \<Rightarrow> nat \<Rightarrow> (nat \<times> nat) list" where
  "acc_ranges cores nc N = map (\<lambda>i. (i * N div acc_cores cores nc, (i + 1) * N div acc_cores cores nc)) [0..<acc_cores cores nc]"

definition orki_i8_slice_run :: "(nat \<Rightarrow> bool) \<Rightarrow> doorbell \<Rightarrow> ((nat \<times> acc_op) list list \<Rightarrow> (nat \<times> acc_op) list) \<Rightarrow> int
    \<Rightarrow> w_sliced option \<Rightarrow> int \<Rightarrow> byte list option \<Rightarrow> u32 list option \<Rightarrow> int \<Rightarrow> int \<times> u32 list option" where
  "orki_i8_slice_run heap dyn order cores w0 M A0 C0 nc =
     (case (w0, A0, C0) of
        (Some w, Some A, Some C) \<Rightarrow>
          if M < 1 \<or> \<not> (heap 0 \<and> heap 1 \<and> heap 2) then (- 1, C0)
          else (case dyn (slice_tasks w (nat M) A) nc of
                  None \<Rightarrow> (- 1, C0)
                | Some parts \<Rightarrow>
                    (0, Some (acc_all (order (map (orki_slice_acc_worker w (nat M) parts) (acc_ranges cores nc (sl_N w)))) C)))
      | _ \<Rightarrow> (- 1, C0))"

subsection \<open>The threads\<close>

lemma schedule_filter: "schedule ts us \<Longrightarrow> schedule (map (filter P) ts) (filter P us)"
proof (induction rule: schedule.induct)
  case (idle ts)
  then show ?case by simp (rule schedule.idle, auto)
next
  case (go i ts w ws us)
  have m: "map (filter P) (ts[i := ws]) = (map (filter P) ts)[i := filter P ws]" by (rule map_update)
  show ?case
  proof (cases "P w")
    case True
    with go m show ?thesis by (auto intro: schedule.go [of i "map (filter P) ts" w "filter P ws"])
  next
    case False
    with go have "(map (filter P) ts)[i := filter P ws] = map (filter P) ts" by (intro list_update_same_conv [THEN iffD2]) auto
    with go m False show ?thesis by simp
  qed
qed

lemma schedule_one:
  "schedule ts us \<Longrightarrow> i < length ts \<Longrightarrow> (\<And>j. j < length ts \<Longrightarrow> j \<noteq> i \<Longrightarrow> ts ! j = []) \<Longrightarrow> us = ts ! i"
proof (induction rule: schedule.induct)
  case (go j ts w ws us)
  have ji: "j = i" using go.hyps(1,2) go.prems(2) by fastforce
  have "us = ts[j := ws] ! i" by (rule go.IH) (use go.prems ji in auto)
  with go.hyps ji show ?case by simp
qed (metis nth_mem)

lemma schedule_pick:
  assumes "schedule ts us" "i < length ts" "\<And>j. j < length ts \<Longrightarrow> j \<noteq> i \<Longrightarrow> filter P (ts ! j) = []"
  shows "filter P us = filter P (ts ! i)"
  using schedule_one [OF schedule_filter [OF assms(1), of P]] assms(2,3) by simp

lemma acc_all_nth:
  "j < length C \<Longrightarrow> acc_all us C ! j = fold (\<lambda>(_, a). acc_val a) (filter (\<lambda>x. fst x = j) us) (C ! j)"
proof (induction us arbitrary: C)
  case (Cons u us)
  obtain i a where "u = (i, a)" by (cases u)
  with Cons.IH [of "C[i := acc_val a (C ! i)]"] Cons.prems show ?case by (simp add: acc_all_def nth_upd)
qed (simp add: acc_all_def)

lemma acc_all_length [simp]: "length (acc_all us C) = length C"
  by (induction us arbitrary: C) (auto simp: acc_all_def)

lemma filter_map_pick:
  assumes "a < L" "\<And>i. i < L \<Longrightarrow> P (f i) \<longleftrightarrow> i = a"
  shows "filter P (map f [0..<L]) = [f a]"
proof -
  have "filter P (map f xs) = concat (map (\<lambda>i. if P (f i) then [f i] else []) xs)" for xs by (induction xs) auto
  then show ?thesis using concat_pick [of a L "\<lambda>i. if P (f i) then [f i] else []"] assms by simp
qed

text \<open>The boundaries \<open>i * N / anc\<close> put every column in one range.\<close>

lemma range_of_column:
  assumes "n < N" "0 < anc"
  shows "\<exists>i < anc. i * N div anc \<le> n \<and> n < (i + 1) * N div (anc :: nat)"
proof -
  let ?f = "\<lambda>i. i * N div anc"
  have "\<exists>i < k. ?f i \<le> n \<and> n < ?f (i + 1)" if "n < ?f k" for k
    using that
  proof (induction k)
    case (Suc k)
    then show ?case by (cases "n < ?f k") (auto simp: not_less intro: less_SucI)
  qed simp
  then show ?thesis using assms by simp
qed

lemma range_unique:
  fixes i j N anc :: nat
  assumes "i * N div anc \<le> n" "n < (i + 1) * N div anc" "j * N div anc \<le> n" "n < (j + 1) * N div anc"
  shows "i = j"
proof -
  have mono: "a * N div anc \<le> b * N div anc" if "a \<le> b" for a b using that by (intro div_le_mono mult_le_mono1)
  show ?thesis using mono [of "i + 1" j] mono [of "j + 1" i] assms by (cases i j rule: linorder_cases) auto
qed

subsection \<open>One column of the result\<close>

definition sliced_ok :: "w_sliced \<Rightarrow> bool" where
  "sliced_ok w \<longleftrightarrow> 0 < sl_ks w \<and> 0 < sl_ns w \<and> 0 < sl_K w \<and> sl_K w \<le> sl_Kpad w
     \<and> sl_nks w = (sl_Kpad w + sl_ks w - 1) div sl_ks w \<and> sl_nnt w = (sl_N w + sl_ns w - 1) div sl_ns w"

lemma tile_at_min:
  "tile_at w ki ni = (ki * sl_ks w, min (sl_ks w) (sl_Kpad w - ki * sl_ks w), ni * sl_ns w, min (sl_ns w) (sl_N w - ni * sl_ns w))"
  by (auto simp: tile_at_def Let_def min_def)

lemma filter_none_iff: "(\<And>x. x \<in> set xs \<Longrightarrow> \<not> P x) \<Longrightarrow> filter P xs = []"
  by (induction xs) auto

definition tile_width :: "w_sliced \<Rightarrow> nat \<Rightarrow> nat" where
  "tile_width w ni = min (sl_ns w) (sl_N w - ni * sl_ns w)"

lemma acc_tile_filter:
  assumes "m < M" "n < sl_N w" "c1 \<le> sl_N w"
  shows "filter (\<lambda>x. fst x = m * sl_N w + n) (acc_tile w M parts c0 c1 ni) =
    (if ni * sl_ns w \<le> n \<and> n < ni * sl_ns w + tile_width w ni \<and> c0 \<le> n \<and> n < c1
     then map (\<lambda>ki. (m * sl_N w + n, (if ki = 0 then Seed else Accum)
            (parts ! (ki * sl_nnt w + ni) ! (m * tile_width w ni + (n - ni * sl_ns w))))) [0..<sl_nks w]
     else [])"
proof -
  let ?N = "sl_N w" and ?n0 = "ni * sl_ns w" and ?W = "tile_width w ni"
  define lo hi where "lo = max c0 ?n0" and "hi = min (?n0 + ?W) c1"
  have W: "(if ?N - ?n0 < sl_ns w then ?N - ?n0 else sl_ns w) = ?W" by (simp add: tile_width_def min_def)
  have lohi: "(if c0 < ?n0 then ?n0 else c0) = lo" "(if ?n0 + ?W < c1 then ?n0 + ?W else c1) = hi" by (simp_all add: lo_def hi_def min_def)
  let ?p = "\<lambda>ki m' n'. parts ! (ki * sl_nnt w + ni) ! (m' * ?W + (lo - ?n0) + n')"
  let ?row = "\<lambda>ki m'. map (\<lambda>n'. (m' * ?N + lo + n', if ki = 0 then Seed (?p ki m' n') else Accum (?p ki m' n'))) [0..<hi - lo]"
  have t: "acc_tile w M parts c0 c1 ni = (if hi \<le> lo then [] else concat (map (\<lambda>ki. concat (map (?row ki) [0..<M])) [0..<sl_nks w]))"
    by (simp only: acc_tile_def Let_def W lohi)
  have hN: "hi \<le> ?N" using assms(3) by (simp add: hi_def)
  have row: "filter (\<lambda>x. fst x = m * ?N + n) (?row ki m') =
      (if m' = m \<and> lo \<le> n \<and> n < hi then [(m * ?N + n, (if ki = 0 then Seed else Accum) (?p ki m (n - lo)))] else [])" for ki m'
  proof (cases "m' = m \<and> lo \<le> n \<and> n < hi")
    case True
    then show ?thesis
      by (subst filter_map_pick [of "n - lo"]) auto
  next
    case False
    have "m' * ?N + lo + n' \<noteq> m * ?N + n" if n': "n' < hi - lo" for n'
    proof
      assume e: "m' * ?N + lo + n' = m * ?N + n"
      have "lo + n' < ?N" using n' hN by linarith
      with radix_unique [of m' ?N "lo + n'" m n] e assms(2) have "m' = m \<and> lo + n' = n" by (simp add: add.assoc)
      with False n' show False by auto
    qed
    then show ?thesis unfolding if_not_P [OF False] by (intro filter_none_iff) auto
  qed
  have ks: "filter (\<lambda>x. fst x = m * ?N + n) (concat (map (?row ki) [0..<M])) =
      (if lo \<le> n \<and> n < hi then [(m * ?N + n, (if ki = 0 then Seed else Accum) (?p ki m (n - lo)))] else [])" for ki
  proof -
    have "filter (\<lambda>x. fst x = m * ?N + n) (concat (map (?row ki) [0..<M])) =
      concat (map (\<lambda>m'. filter (\<lambda>x. fst x = m * ?N + n) (?row ki m')) [0..<M])" by (simp add: filter_concat o_def)
    also have "\<dots> = filter (\<lambda>x. fst x = m * ?N + n) (?row ki m)" by (rule concat_pick [OF assms(1)]) (simp add: row)
    finally show ?thesis by (simp add: row)
  qed
  have "filter (\<lambda>x. fst x = m * ?N + n) (acc_tile w M parts c0 c1 ni) =
     (if hi \<le> lo then [] else concat (map (\<lambda>ki. filter (\<lambda>x. fst x = m * ?N + n) (concat (map (?row ki) [0..<M]))) [0..<sl_nks w]))"
    by (simp add: t filter_concat o_def)
  also have "\<dots> = (if lo \<le> n \<and> n < hi then map (\<lambda>ki. (m * ?N + n, (if ki = 0 then Seed else Accum) (?p ki m (n - lo)))) [0..<sl_nks w] else [])"
    unfolding ks by (auto simp: concat_map_singleton)
  also have "(lo \<le> n \<and> n < hi) \<longleftrightarrow> ?n0 \<le> n \<and> n < ?n0 + ?W \<and> c0 \<le> n \<and> n < c1" by (auto simp: lo_def hi_def)
  finally show ?thesis
    by (auto simp: lo_def add.assoc intro!: arg_cong [where f = "\<lambda>i. _ ! i"])
qed

lemma column_tile:
  assumes "sliced_ok w" "n < sl_N w"
  shows "n div sl_ns w < sl_nnt w" "n div sl_ns w * sl_ns w \<le> n" "n < n div sl_ns w * sl_ns w + tile_width w (n div sl_ns w)"
    and "ni * sl_ns w \<le> n \<Longrightarrow> n < ni * sl_ns w + tile_width w ni \<Longrightarrow> ni = n div sl_ns w"
proof -
  have ns: "0 < sl_ns w" "sl_nnt w = (sl_N w + sl_ns w - 1) div sl_ns w" using assms(1) by (auto simp: sliced_ok_def)
  show "n div sl_ns w < sl_nnt w" unfolding ns(2) by (rule div_lt_ceil [OF assms(2) ns(1)])
  show l: "n div sl_ns w * sl_ns w \<le> n" by simp
  show "n < n div sl_ns w * sl_ns w + tile_width w (n div sl_ns w)"
    using dividend_less_div_times [OF ns(1), of n] assms(2) l by (auto simp: tile_width_def min_def)
  assume a: "ni * sl_ns w \<le> n" "n < ni * sl_ns w + tile_width w ni"
  then have "n < ni * sl_ns w + sl_ns w" by (simp add: tile_width_def)
  then have "n div sl_ns w < Suc ni" using ns(1) by (simp add: less_mult_imp_div_less algebra_simps)
  moreover have "ni \<le> n div sl_ns w" using a(1) ns(1) by (simp add: less_eq_div_iff_mult_less_eq)
  ultimately show "ni = n div sl_ns w" by simp
qed

definition partial_at :: "w_sliced \<Rightarrow> u32 list list \<Rightarrow> nat \<Rightarrow> nat \<Rightarrow> nat \<Rightarrow> u32" where
  "partial_at w parts m n ki = (let ni = n div sl_ns w in parts ! (ki * sl_nnt w + ni) ! (m * tile_width w ni + (n - ni * sl_ns w)))"

lemma worker_filter:
  assumes "sliced_ok w" "m < M" "n < sl_N w" "snd r \<le> sl_N w"
  shows "filter (\<lambda>x. fst x = m * sl_N w + n) (orki_slice_acc_worker w M parts r) =
    (if fst r \<le> n \<and> n < snd r
     then map (\<lambda>ki. (m * sl_N w + n, (if ki = 0 then Seed else Accum) (partial_at w parts m n ki))) [0..<sl_nks w] else [])"
proof -
  note c = column_tile [OF assms(1,3)]
  note f = acc_tile_filter [OF assms(2,3,4), where parts = parts and ?c0.0 = "fst r"]
  have "filter (\<lambda>x. fst x = m * sl_N w + n) (orki_slice_acc_worker w M parts r) =
    concat (map (\<lambda>ni. filter (\<lambda>x. fst x = m * sl_N w + n) (acc_tile w M parts (fst r) (snd r) ni)) [0..<sl_nnt w])"
    by (simp add: orki_slice_acc_worker_def filter_concat o_def)
  also have "\<dots> = filter (\<lambda>x. fst x = m * sl_N w + n) (acc_tile w M parts (fst r) (snd r) (n div sl_ns w))"
    by (rule concat_pick [OF c(1)]) (use c(4) f in auto)
  also have "\<dots> = (if fst r \<le> n \<and> n < snd r
     then map (\<lambda>ki. (m * sl_N w + n, (if ki = 0 then Seed else Accum) (partial_at w parts m n ki))) [0..<sl_nks w] else [])"
    unfolding f partial_at_def Let_def using c(2,3) by auto
  finally show ?thesis .
qed

lemma fold_seed_accum:
  "0 < k \<Longrightarrow> fold (\<lambda>(_, a). acc_val a) (map (\<lambda>ki. (j, (if ki = 0 then Seed else Accum) (f ki))) [0..<k]) x = (\<Sum>ki<k. f ki)"
proof (induction k)
  case (Suc k)
  then show ?case by (cases k) (auto simp: lessThan_Suc add.commute)
qed simp

text \<open>Whatever the interleaving, an entry of \<open>C\<close> ends as the sum of its partial products.\<close>

lemma accumulate_column:
  assumes "sliced_ok w" "m < M" "n < sl_N w" "length C = M * sl_N w"
    and "schedule (map (orki_slice_acc_worker w M parts) (acc_ranges cores nc (sl_N w))) us"
  shows "acc_all us C ! (m * sl_N w + n) = (\<Sum>ki < sl_nks w. partial_at w parts m n ki)"
proof -
  let ?j = "m * sl_N w + n" and ?rs = "acc_ranges cores nc (sl_N w)"
  obtain anc :: nat where anc: "0 < anc" "?rs = map (\<lambda>i. (i * sl_N w div anc, (i + 1) * sl_N w div anc)) [0..<anc]"
    by (rule that [of "acc_cores cores nc"]) (auto simp: acc_ranges_def acc_cores_def Let_def)
  obtain i where i: "i < anc" "i * sl_N w div anc \<le> n" "n < (i + 1) * sl_N w div anc" using range_of_column [OF assms(3) anc(1)] by blast
  have top: "snd (?rs ! k) \<le> sl_N w" if "k < anc" for k
  proof -
    have "(k + 1) * sl_N w \<le> anc * sl_N w" using that by (intro mult_le_mono1) simp
    then have "(k + 1) * sl_N w div anc \<le> anc * sl_N w div anc" by (rule div_le_mono)
    then show ?thesis using that anc by simp
  qed
  have f: "filter (\<lambda>x. fst x = ?j) (map (orki_slice_acc_worker w M parts) ?rs ! k) =
      (if k = i then map (\<lambda>ki. (?j, (if ki = 0 then Seed else Accum) (partial_at w parts m n ki))) [0..<sl_nks w] else [])"
    if k: "k < anc" for k
  proof -
    have r: "?rs ! k = (k * sl_N w div anc, (k + 1) * sl_N w div anc)" "length ?rs = anc" using k anc(2) by simp_all
    have "k * sl_N w div anc \<le> n \<and> n < (k + 1) * sl_N w div anc \<longleftrightarrow> k = i"
      using range_unique [of k "sl_N w" anc n i] i by blast
    then show ?thesis
      using worker_filter [OF assms(1-3) top [OF k], of parts] k by (simp only: r nth_map fst_conv snd_conv)
  qed
  have "filter (\<lambda>x. fst x = ?j) us = filter (\<lambda>x. fst x = ?j) (map (orki_slice_acc_worker w M parts) ?rs ! i)"
    by (rule schedule_pick [OF assms(5)]) (use f i(1) anc(2) in auto)
  also have "\<dots> = map (\<lambda>ki. (?j, (if ki = 0 then Seed else Accum) (partial_at w parts m n ki))) [0..<sl_nks w]"
    using f [OF i(1)] by simp
  finally have u: "filter (\<lambda>x. fst x = ?j) us = \<dots>" .
  have "Suc m * sl_N w \<le> M * sl_N w" using assms(2) by (intro mult_le_mono1) simp
  then have "?j < length C" using assms(3,4) by simp
  moreover have "0 < sl_nks w" using assms(1) div_lt_ceil [of 0 "sl_Kpad w" "sl_ks w"] by (auto simp: sliced_ok_def)
  ultimately show ?thesis using fold_seed_accum [of "sl_nks w" ?j "partial_at w parts m n"] by (simp add: acc_all_nth u)
qed

subsection \<open>The slices of the product\<close>

lemma sum_blocks:
  fixes f :: "nat \<Rightarrow> 'v::comm_monoid_add"
  assumes "0 < ks" "K \<le> Kpad" "\<And>k. K \<le> k \<Longrightarrow> f k = 0"
  shows "(\<Sum>ki < (Kpad + ks - 1) div ks. \<Sum>k < min ks (Kpad - ki * ks). f (ki * ks + k)) = (\<Sum>k<K. f k)"
proof -
  let ?n = "(Kpad + ks - 1) div ks"
  have "(\<Sum>k < min ks (Kpad - ki * ks). f (ki * ks + k)) = sum f {ki * ks..<ki * ks + ks}" for ki
  proof -
    have "(\<Sum>k < min ks (Kpad - ki * ks). f (ki * ks + k)) = (\<Sum>k < ks. f (ki * ks + k))"
      by (rule sum.mono_neutral_left) (use assms in auto)
    also have "\<dots> = sum f {ki * ks..<ki * ks + ks}"
      using sum.shift_bounds_nat_ivl [of f 0 "ki * ks" ks] by (simp add: atLeast0LessThan add.commute)
    finally show ?thesis .
  qed
  then have "(\<Sum>ki < ?n. \<Sum>k < min ks (Kpad - ki * ks). f (ki * ks + k)) = sum f {..<?n * ks}"
    by (simp add: sum.nat_group)
  also have "\<dots> = (\<Sum>k<K. f k)"
  proof (rule sum.mono_neutral_right)
    have "k < ?n * ks" if "k < K" for k
    proof -
      have "k div ks < ?n" using that assms by (intro div_lt_ceil) auto
      then have "(k div ks + 1) * ks \<le> ?n * ks" by (intro mult_le_mono1) simp
      then show ?thesis using dividend_less_div_times [OF assms(1), of k] by simp
    qed
    then show "{..<K} \<subseteq> {..<?n * ks}" by (intro subsetI) simp
  qed (use assms(3) in auto)
  finally show ?thesis .
qed

definition doorbell_computes :: "nat \<Rightarrow> nat \<Rightarrow> doorbell \<Rightarrow> bool" where
  "doorbell_computes KS NMAX dyn \<longleftrightarrow>
     (\<forall>ts nc outs. dyn ts nc = Some outs \<longrightarrow> length outs = length ts
        \<and> (\<forall>i < length ts. \<forall>B. let (w, M, A) = ts ! i in
             geom_ok KS NMAX (iw_K w) (iw_N w) \<longrightarrow> holds_matrix KS NMAX w B \<longrightarrow> length A = M * iw_K w
               \<longrightarrow> outs ! i = mat_mul M (iw_K w) (iw_N w) A B))"

text \<open>The sub-weights hold the blocks of \<open>B\<close>.\<close>

definition holds_block :: "nat \<Rightarrow> nat \<Rightarrow> w_sliced \<Rightarrow> byte list \<Rightarrow> nat \<Rightarrow> nat \<Rightarrow> i8_w \<Rightarrow> bool" where
  "holds_block KS NMAX w B ki ni sw \<longleftrightarrow>
     (let (k0, Ks, n0, Nw) = tile_at w ki ni in
      iw_K sw = Ks \<and> iw_N sw = Nw \<and> geom_ok KS NMAX Ks Nw \<and> holds_matrix KS NMAX sw (slice_blk B (sl_K w) (sl_N w) k0 Ks n0 Nw))"

definition sliced_holds :: "nat \<Rightarrow> nat \<Rightarrow> w_sliced \<Rightarrow> byte list \<Rightarrow> bool" where
  "sliced_holds KS NMAX w B \<longleftrightarrow> sliced_ok w
     \<and> (\<forall>ki < sl_nks w. \<forall>ni < sl_nnt w. holds_block KS NMAX w B ki ni (sl_sub w ! (ki * sl_nnt w + ni)))"

lemma pad_nth:
  "r \<le> length xs \<Longrightarrow> r \<le> n \<Longrightarrow> k < n \<Longrightarrow> (take r xs @ replicate (n - r) z) ! k = (if k < r then xs ! k else z)"
  by (auto simp: nth_append)

lemma slice_A_spec:
  assumes "length A = M * sl_K w"
  shows "length (slice_A w M A ki) = M * min (sl_ks w) (sl_Kpad w - ki * sl_ks w)"
    and "m < M \<Longrightarrow> k < min (sl_ks w) (sl_Kpad w - ki * sl_ks w) \<Longrightarrow>
      slice_A w M A ki ! (m * min (sl_ks w) (sl_Kpad w - ki * sl_ks w) + k) =
        (if ki * sl_ks w + k < sl_K w then A ! (m * sl_K w + (ki * sl_ks w + k)) else 0)"
proof -
  let ?k0 = "ki * sl_ks w" and ?Ks = "min (sl_ks w) (sl_Kpad w - ki * sl_ks w)"
  let ?real = "min (sl_K w - ?k0) ?Ks"
  let ?row = "\<lambda>m. take ?real (drop (m * sl_K w + ?k0) A) @ replicate (?Ks - ?real) 0"
  have l: "?real \<le> length A - (m * sl_K w + ?k0)" "?k0 < sl_K w \<Longrightarrow> m * sl_K w + ?k0 \<le> length A" if "m < M" for m
  proof -
    have "Suc m * sl_K w \<le> M * sl_K w" using that by (intro mult_le_mono1) simp
    then show "?real \<le> length A - (m * sl_K w + ?k0)" "?k0 < sl_K w \<Longrightarrow> m * sl_K w + ?k0 \<le> length A" using assms by auto
  qed
  have A: "slice_A w M A ki = concat (map ?row [0..<M])" by (simp only: slice_A_def tile_at_min Let_def prod.case)
  have len: "length (?row m) = ?Ks" if "m < M" for m
  proof -
    have "length (?row m) = ?real + (?Ks - ?real)" using l(1) [OF that] by simp
    also have "\<dots> = ?Ks" by (rule le_add_diff_inverse) (rule min.cobounded2)
    finally show ?thesis .
  qed
  show "length (slice_A w M A ki) = M * ?Ks" unfolding A by (rule concat_rows_nth(1)) (rule len)
  assume mk: "m < M" "k < ?Ks"
  have "slice_A w M A ki ! (m * ?Ks + k) = ?row m ! k" unfolding A by (rule concat_rows_nth(2)) (use len mk in auto)
  also have "\<dots> = (if ?k0 + k < sl_K w then A ! (m * sl_K w + (?k0 + k)) else 0)"
  proof -
    have "?row m ! k = (if k < ?real then drop (m * sl_K w + ?k0) A ! k else 0)"
      by (rule pad_nth [OF _ min.cobounded2 mk(2)]) (use l(1) [OF mk(1)] in simp)
    moreover have "k < ?real \<longleftrightarrow> ?k0 + k < sl_K w" using mk(2) by auto
    moreover have "drop (m * sl_K w + ?k0) A ! k = A ! (m * sl_K w + (?k0 + k))" if "?k0 + k < sl_K w"
    proof -
      have "m * sl_K w + ?k0 \<le> length A" using that l(2) [OF mk(1)] by simp
      then show ?thesis by (simp add: add.assoc)
    qed
    ultimately show ?thesis by (simp only: if_split) simp
  qed
  finally show "slice_A w M A ki ! (m * ?Ks + k) = (if ?k0 + k < sl_K w then A ! (m * sl_K w + (?k0 + k)) else 0)" .
qed

lemma slice_blk_spec:
  assumes "length B = K * N" "n0 + Nw \<le> N"
  shows "length (slice_blk B K N k0 Ks n0 Nw) = Ks * Nw"
    and "k < Ks \<Longrightarrow> n < Nw \<Longrightarrow> slice_blk B K N k0 Ks n0 Nw ! (k * Nw + n) = (if k0 + k < K then B ! ((k0 + k) * N + (n0 + n)) else 0)"
proof -
  let ?row = "\<lambda>k. if k0 + k < K then take Nw (drop ((k0 + k) * N + n0) B) else replicate Nw 0"
  have l: "(k0 + k) * N + n0 + Nw \<le> length B" if "k0 + k < K" for k
  proof -
    have "Suc (k0 + k) * N \<le> K * N" using that by (intro mult_le_mono1) simp
    then show ?thesis using assms unfolding mult_Suc by linarith
  qed
  have len: "length (?row k) = Nw" for k using l [of k] by auto
  show "length (slice_blk B K N k0 Ks n0 Nw) = Ks * Nw" unfolding slice_blk_def by (rule concat_rows_nth(1)) (rule len)
  assume kn: "k < Ks" "n < Nw"
  have "slice_blk B K N k0 Ks n0 Nw ! (k * Nw + n) = ?row k ! n"
    unfolding slice_blk_def by (rule concat_rows_nth(2)) (use len kn in auto)
  then show "slice_blk B K N k0 Ks n0 Nw ! (k * Nw + n) = (if k0 + k < K then B ! ((k0 + k) * N + (n0 + n)) else 0)"
    using kn l [of k] by (auto simp: add.assoc)
qed

lemma grid_nth:
  "a < S \<Longrightarrow> b < T \<Longrightarrow> [f x y. x \<leftarrow> [0..<S], y \<leftarrow> [0..<T]] ! (a * T + b) = f a b"
  "length [f x y. x \<leftarrow> [0..<S], y \<leftarrow> [0..<T]] = S * T"
  using concat_rows_nth [of S "\<lambda>x. map (f x) [0..<T]" T] by simp_all

lemma slice_run_column:
  assumes "sliced_holds KS NMAX w B" "doorbell_computes KS NMAX dyn" "dyn (slice_tasks w M A) nc = Some parts"
    and "length A = M * sl_K w" "length B = sl_K w * sl_N w" "m < M" "n < sl_N w"
  shows "(\<Sum>ki < sl_nks w. partial_at w parts m n ki) = (\<Sum>k < sl_K w. scast (A ! (m * sl_K w + k)) * scast (B ! (k * sl_N w + n)))"
proof -
  have ok: "sliced_ok w" using assms(1) by (simp add: sliced_holds_def)
  note c = column_tile [OF ok assms(7)]
  let ?ni = "n div sl_ns w" let ?n0 = "?ni * sl_ns w" and ?W = "tile_width w (n div sl_ns w)"
  let ?f = "\<lambda>k. if k < sl_K w then scast (A ! (m * sl_K w + k)) * scast (B ! (k * sl_N w + n)) else 0 :: u32"
  have W: "?n0 + ?W \<le> sl_N w" unfolding tile_width_def using c(2) assms(7) by linarith
  have part: "partial_at w parts m n ki = (\<Sum>k < min (sl_ks w) (sl_Kpad w - ki * sl_ks w). ?f (ki * sl_ks w + k))" if ki: "ki < sl_nks w" for ki
  proof -
    let ?Ks = "min (sl_ks w) (sl_Kpad w - ki * sl_ks w)" and ?i = "ki * sl_nnt w + ?ni"
    let ?sw = "sl_sub w ! ?i" and ?blk = "slice_blk B (sl_K w) (sl_N w) (ki * sl_ks w) (min (sl_ks w) (sl_Kpad w - ki * sl_ks w)) ?n0 ?W"
    have t: "slice_tasks w M A ! ?i = (?sw, M, slice_A w M A ki)" "length (slice_tasks w M A) = sl_nks w * sl_nnt w"
      unfolding slice_tasks_def by (rule grid_nth(1) [OF ki c(1)], rule grid_nth(2))
    have i: "?i < length (slice_tasks w M A)"
    proof -
      have "Suc ki * sl_nnt w \<le> sl_nks w * sl_nnt w" using ki by (intro mult_le_mono1) simp
      then show ?thesis using c(1) t(2) by simp
    qed
    have h: "iw_K ?sw = ?Ks" "iw_N ?sw = ?W" "geom_ok KS NMAX ?Ks ?W" "holds_matrix KS NMAX ?sw ?blk"
      using assms(1) ki c(1) by (auto simp: sliced_holds_def holds_block_def tile_at_min tile_width_def)
    have p: "parts ! ?i = mat_mul M ?Ks ?W (slice_A w M A ki) ?blk"
      using assms(2,3) i h slice_A_spec(1) [OF assms(4)] unfolding doorbell_computes_def by (force simp: t(1) Let_def)
    have "n - ?n0 < ?W" using c(2,3) by linarith
    then have "partial_at w parts m n ki = mat_dot ?Ks ?W (drop (m * ?Ks) (slice_A w M A ki)) ?blk (n - ?n0)"
      unfolding partial_at_def Let_def p by (rule mat_mul_nth [OF assms(6)])
    also have "\<dots> = (\<Sum>k < ?Ks. ?f (ki * sl_ks w + k))"
      unfolding mat_dot_def
    proof (rule sum.cong [OF refl])
      fix k assume "k \<in> {..<?Ks}"
      then have k: "k < ?Ks" by simp
      have "Suc m * ?Ks \<le> M * ?Ks" using assms(6) by (intro mult_le_mono1) simp
      then have "m * ?Ks \<le> length (slice_A w M A ki)" using slice_A_spec(1) [OF assms(4), of ki] unfolding mult_Suc by linarith
      then have "drop (m * ?Ks) (slice_A w M A ki) ! k = slice_A w M A ki ! (m * ?Ks + k)" by simp
      moreover have "?blk ! (k * ?W + (n - ?n0)) = (if ki * sl_ks w + k < sl_K w then B ! ((ki * sl_ks w + k) * sl_N w + n) else 0)"
        using slice_blk_spec(2) [OF assms(5) W k \<open>n - ?n0 < ?W\<close>, of "ki * sl_ks w"] c(2) by simp
      ultimately show "scast (drop (m * ?Ks) (slice_A w M A ki) ! k) * scast (?blk ! (k * ?W + (n - ?n0))) = ?f (ki * sl_ks w + k)"
        using slice_A_spec(2) [OF assms(4,6) k] by simp
    qed
    finally show ?thesis .
  qed
  have "(\<Sum>ki < sl_nks w. partial_at w parts m n ki) = (\<Sum>k < sl_K w. ?f k)"
    using sum_blocks [of "sl_ks w" "sl_K w" "sl_Kpad w" ?f] ok part by (simp add: sliced_ok_def)
  then show ?thesis by simp
qed

subsection \<open>What packing leaves\<close>

lemma n_slices_count: "0 < st \<Longrightarrow> length (n_slices st whole) \<le> whole"
proof (cases whole)
  case (Suc n)
  assume st: "0 < st"
  then have "whole + st - 1 < (whole + 1) * st" using Suc by (cases st) auto
  then have "(whole + st - 1) div st < whole + 1" using st by (simp add: less_mult_imp_div_less)
  then show ?thesis by simp
qed simp

lemma small_geom:
  assumes "0 < KS" "0 < NMAX" "32 dvd KS" "32 dvd NMAX" "32 dvd K" "32 dvd N" "K \<le> 4096" "N \<le> 8192"
  shows "geom_ok KS NMAX K N"
proof -
  have kn: "K * N \<le> 4096 * 8192" using assms(7,8) by (rule mult_le_mono)
  have sz: "slice_size s \<le> 67108864" if mem: "s \<in> set (w_slices KS NMAX K N)" for s
  proof -
    obtain n0 Nc k0 Kp where s: "s = (n0, Nc, k0, Kp)" "(n0, Nc) \<in> set (n_slices NMAX N)" "(k0, Kp) \<in> set (n_slices KS K)"
      using mem unfolding w_slices_prod by auto
    have "Nc \<le> 8192" "Kp \<le> 4096"
      using n_slices_bounds [OF s(2) assms(2), of 1] n_slices_bounds [OF s(3) assms(1), of 1] assms(7,8) by auto
    then have "Kp * Nc \<le> 4096 * 8192" by (intro mult_le_mono)
    then show ?thesis using pgup_ge [of "Kp * Nc"] s(1) by simp
  qed
  have "length (w_slices KS NMAX K N) = length (n_slices NMAX N) * length (n_slices KS K)"
    by (simp only: w_slices_prod length_concat map_map o_def length_map sum_list_triv of_nat_id)
  also have "\<dots> \<le> N * K" using n_slices_count [OF assms(1), of K] n_slices_count [OF assms(2), of N] by (intro mult_le_mono)
  finally have len: "length (w_slices KS NMAX K N) \<le> 33554432" using kn by (simp add: mult.commute)
  have "w_bytes xs \<le> length xs * 67108864" if "\<forall>s \<in> set xs. slice_size s \<le> 67108864" for xs
    using that by (induction xs) (auto simp: w_bytes_def)
  then have "w_bytes (w_slices KS NMAX K N) \<le> length (w_slices KS NMAX K N) * 67108864" using sz by blast
  also have "\<dots> \<le> 33554432 * 67108864" using len by (intro mult_le_mono1)
  finally show ?thesis using assms kn by (simp add: geom_ok_def)
qed

lemma grid_width_bounds: "0 < grid_width cores N" "grid_width cores N \<le> 8192"
proof -
  have "0 < clamp_width 32 8192 x \<and> clamp_width 32 8192 x \<le> 8192" for x by (simp add: clamp_width_def)
  then show "0 < grid_width cores N" "grid_width cores N \<le> 8192" by (simp_all add: grid_width_def Let_def ork_slice_caps_rk3588_def)
qed

lemma slice_grid_fields:
  "sl_K (slice_grid cores K N) = K" "sl_N (slice_grid cores K N) = N" "sl_Kpad (slice_grid cores K N) = (K + 512 - 1) div 512 * 512"
  "sl_ks (slice_grid cores K N) = 4096" "sl_ns (slice_grid cores K N) = grid_width cores N" "sl_sub (slice_grid cores K N) = []"
  "sl_nks (slice_grid cores K N) = ((K + 512 - 1) div 512 * 512 + 4096 - 1) div 4096"
  "sl_nnt (slice_grid cores K N) = (N + grid_width cores N - 1) div grid_width cores N"
  "sl_cap (slice_grid cores K N) = ork_slice_caps_rk3588"
proof -
  have k: "nat (sc_kmul ork_slice_caps_rk3588) = 512" "nat (sc_kmax ork_slice_caps_rk3588) div 512 * 512 = 4096"
    by (simp_all add: ork_slice_caps_rk3588_def)
  show "sl_K (slice_grid cores K N) = K" "sl_N (slice_grid cores K N) = N" "sl_Kpad (slice_grid cores K N) = (K + 512 - 1) div 512 * 512"
    "sl_ks (slice_grid cores K N) = 4096" "sl_ns (slice_grid cores K N) = grid_width cores N" "sl_sub (slice_grid cores K N) = []"
    "sl_nks (slice_grid cores K N) = ((K + 512 - 1) div 512 * 512 + 4096 - 1) div 4096"
    "sl_nnt (slice_grid cores K N) = (N + grid_width cores N - 1) div grid_width cores N"
    "sl_cap (slice_grid cores K N) = ork_slice_caps_rk3588"
    by (simp_all only: slice_grid_def Let_def k w_sliced.simps)
qed

lemma slice_grid_ok: "0 < K \<Longrightarrow> sliced_ok (slice_grid cores K N)"
proof -
  assume K: "0 < K"
  have "K + 512 - 1 < ((K + 512 - 1) div 512 + 1) * 512" using dividend_less_div_times [of 512 "K + 512 - 1"] by simp
  then have "K \<le> (K + 512 - 1) div 512 * 512" by linarith
  moreover have "(0 :: nat) < 4096" by simp
  ultimately show ?thesis using K grid_width_bounds(1) [of cores N] unfolding sliced_ok_def slice_grid_fields by blast
qed

lemma pack_sub_holds:
  assumes "\<And>i n. length (mem i n) = n" "0 \<le> ic_fd c" "0 < nmax_of c" "32 dvd nmax_of c" "sl_ks w \<le> 4096" "sl_ns w \<le> 8192"
    and "tile_at w ki ni = (k0, Ks, n0, Nw)"
    and "ork_i8_mm_pack v an mem c Ks Nw (slice_blk B (sl_K w) (sl_N w) k0 Ks n0 Nw) st = (Some sw, st')"
  shows "holds_block (orki_int8_ks (ie_ktile v)) (nmax_of c) w B ki ni sw"
proof -
  have p: "orki_pack_i8 v an mem c Ks Nw (slice_blk B (sl_K w) (sl_N w) k0 Ks n0 Nw) st = (Some sw, st')"
    using assms(2,8) by (simp add: ork_i8_mm_pack_def)
  then have "32 dvd Ks" "32 dvd Nw" by (auto simp: orki_pack_i8_def split: if_splits)
  moreover have "Ks \<le> 4096" "Nw \<le> 8192" using assms(5-7) by (auto simp: tile_at_min)
  ultimately have g: "geom_ok (orki_int8_ks (ie_ktile v)) (nmax_of c) Ks Nw"
    using small_geom [OF orki_int8_ks_props(2) assms(3) orki_int8_ks_props(1) assms(4)] by blast
  then show ?thesis using pack_i8_holds [OF p g assms(1)] by (simp add: holds_block_def assms(7))
qed

lemma pack_subs_holds:
  assumes "\<And>i n. length (mem i n) = n" "0 \<le> ic_fd c" "0 < nmax_of c" "32 dvd nmax_of c"
  shows "pack_subs v an mem c B ts w st = (Some w', st') \<Longrightarrow> sl_ks w \<le> 4096 \<Longrightarrow> sl_ns w \<le> 8192 \<Longrightarrow>
    \<exists>xs. w' = w\<lparr>sl_sub := sl_sub w @ xs\<rparr>
      \<and> list_all2 (\<lambda>(ki, ni). holds_block (orki_int8_ks (ie_ktile v)) (nmax_of c) w B ki ni) ts xs"
proof (induction ts arbitrary: w st)
  case (Cons t ts)
  obtain ki ni where t: "t = (ki, ni)" by (cases t)
  obtain k0 Ks n0 Nw where ti: "tile_at w ki ni = (k0, Ks, n0, Nw)" by (cases "tile_at w ki ni")
  obtain sw st1 where p: "ork_i8_mm_pack v an mem c Ks Nw (slice_blk B (sl_K w) (sl_N w) k0 Ks n0 Nw) st = (Some sw, st1)"
    and r: "pack_subs v an mem c B ts (w\<lparr>sl_sub := sl_sub w @ [sw]\<rparr>) st1 = (Some w', st')"
    using Cons.prems(1) t ti by (auto split: prod.splits option.splits)
  let ?w = "w\<lparr>sl_sub := sl_sub w @ [sw]\<rparr>"
  have same: "holds_block (orki_int8_ks (ie_ktile v)) (nmax_of c) ?w B ki ni = holds_block (orki_int8_ks (ie_ktile v)) (nmax_of c) w B ki ni" for ki ni
    by (intro ext) (simp add: holds_block_def tile_at_min)
  from Cons.IH [OF r] Cons.prems obtain xs where "w' = w\<lparr>sl_sub := sl_sub w @ sw # xs\<rparr>"
    "list_all2 (\<lambda>(ki, ni). holds_block (orki_int8_ks (ie_ktile v)) (nmax_of c) w B ki ni) ts xs" by (auto simp: same)
  with pack_sub_holds [OF assms Cons.prems(2,3) ti p] t show ?case by (intro exI [of _ "sw # xs"]) simp
qed auto

lemma slice_pack_holds:
  assumes "\<And>i n. length (mem i n) = n" "0 \<le> ic_fd c" "0 < nmax_of c" "32 dvd nmax_of c" "0 < K"
    and "orki_i8_slice_pack heap v an mem c K N B st = (Some w, st')"
  shows "sliced_holds (orki_int8_ks (ie_ktile v)) (nmax_of c) w B" "sl_K w = K" "sl_N w = N"
proof -
  define g where "g = slice_grid (nat (soc_cores (ic_soc c))) K N"
  note ok = slice_grid_ok [OF assms(5), of "nat (soc_cores (ic_soc c))" N, folded g_def]
    slice_grid_fields [of "nat (soc_cores (ic_soc c))" K N, folded g_def] grid_width_bounds
  let ?ts = "[(ki, ni). ki \<leftarrow> [0..<sl_nks g], ni \<leftarrow> [0..<sl_nnt g]]"
  have "pack_subs v an mem c B ?ts g st = (Some w, st')"
    using assms(6) by (auto simp: orki_i8_slice_pack_def Let_def g_def split: if_splits)
  from pack_subs_holds [OF assms(1-4) this] ok obtain xs where xs: "w = g\<lparr>sl_sub := xs\<rparr>"
    "list_all2 (\<lambda>(ki, ni). holds_block (orki_int8_ks (ie_ktile v)) (nmax_of c) g B ki ni) ?ts xs" by auto
  show "sl_K w = K" "sl_N w = N" using xs(1) ok by simp_all
  have "holds_block (orki_int8_ks (ie_ktile v)) (nmax_of c) w B ki ni (xs ! (ki * sl_nnt g + ni))" if "ki < sl_nks g" "ni < sl_nnt g" for ki ni
  proof -
    have "Suc ki * sl_nnt g \<le> sl_nks g * sl_nnt g" using that(1) by (intro mult_le_mono1) simp
    then have "ki * sl_nnt g + ni < length ?ts" using that(2) grid_nth(2) [where f = Pair and S = "sl_nks g" and T = "sl_nnt g"] by simp
    from list_all2_nthD [OF xs(2) this]
    have "holds_block (orki_int8_ks (ie_ktile v)) (nmax_of c) g B ki ni (xs ! (ki * sl_nnt g + ni))"
      using grid_nth(1) [OF that, of Pair] by simp
    then show ?thesis by (simp add: holds_block_def tile_at_min xs(1))
  qed
  moreover have "sliced_ok w" using ok(1) by (simp add: xs(1) sliced_ok_def)
  ultimately show "sliced_holds (orki_int8_ks (ie_ktile v)) (nmax_of c) w B" by (simp add: sliced_holds_def xs(1))
qed


text \<open>A doorbell that reads each tile back from the buffers and multiplies.\<close>

definition read_tile :: "nat \<Rightarrow> nat \<Rightarrow> i8_w \<Rightarrow> nat \<Rightarrow> nat \<Rightarrow> byte" where
  "read_tile KS NMAX w k n =
     snd (iw_Bb w ! (n div NMAX * iw_Sk w + k div KS))
       ! tile_ix (c_slice (iw_K w) KS (k div KS) div 32) (n mod NMAX div 32, k mod KS div 32, n mod NMAX mod 32, k mod KS mod 32)"

definition tile_doorbell :: "nat \<Rightarrow> nat \<Rightarrow> doorbell" where
  "tile_doorbell KS NMAX ts nc =
     Some (map (\<lambda>(w, M, A). mat_mul M (iw_K w) (iw_N w) A
       (concat (map (\<lambda>k. map (read_tile KS NMAX w k) [0..<iw_N w]) [0..<iw_K w]))) ts)"

lemma read_tile_holds:
  assumes "geom_ok KS NMAX (iw_K w) (iw_N w)" "holds_matrix KS NMAX w B" "k < iw_K w" "n < iw_N w"
  shows "read_tile KS NMAX w k n = B ! (k * iw_N w + n)"
proof -
  let ?ns = "n_slices NMAX (iw_N w)" and ?ks = "n_slices KS (iw_K w)" and ?i = "n div NMAX" and ?j = "k div KS"
  have g: "0 < KS" "0 < NMAX" "32 dvd KS" "32 dvd NMAX" "32 dvd iw_K w" "32 dvd iw_N w" using assms(1) by (simp_all add: geom_ok_def)
  have il: "?i < length ?ns" "?j < length ?ks" using div_lt_ceil assms(3,4) g by simp_all
  have e: "?ns ! ?i = (?i * NMAX, c_slice (iw_N w) NMAX ?i)" "?ks ! ?j = (?j * KS, c_slice (iw_K w) KS ?j)"
    using il by (simp_all add: n_slices_def)
  let ?s = "(?i * NMAX, c_slice (iw_N w) NMAX ?i, ?j * KS, c_slice (iw_K w) KS ?j)"
  let ?x = "(n mod NMAX div 32, k mod KS div 32, n mod NMAX mod 32, k mod KS mod 32)"
  note wn = w_slices_nth [OF il]
  have sk: "length ?ks = iw_Sk w" using assms(2) by (simp add: holds_matrix_def)
  have f: "holds_tile (slice_arg B (iw_N w) ?s) (c_slice (iw_N w) NMAX ?i div 32) (snd (iw_Bb w ! (?i * iw_Sk w + ?j)))"
  proof -
    have "list_all2 (\<lambda>s f. bf_cpu (fst f) \<noteq> 0 \<and> holds_tile (slice_arg B (iw_N w) s) (fst (snd s) div 32) (snd f))
       (w_slices KS NMAX (iw_K w) (iw_N w)) (iw_Bb w)" using assms(2) by (simp add: holds_matrix_def)
    from list_all2_nthD [OF this wn(1), unfolded wn(2) e] show ?thesis by (simp add: sk del: n_slices_len)
  qed
  have b: "x mod st < c_slice whole st (x div st)" if "x < whole" "0 < st" for x st whole :: nat
  proof -
    have "x div st * st + x mod st = x" by simp
    then have "x mod st < whole - x div st * st" using that(1) by linarith
    then show ?thesis using that(2) by (simp add: c_slice_def)
  qed
  have dv: "32 dvd c_slice (iw_N w) NMAX ?i" "32 dvd c_slice (iw_K w) KS ?j" using g by (auto simp: c_slice_def dvd_diff_nat)
  have "?x \<in> set (tile_walk 0 (c_slice (iw_N w) NMAX ?i div 32) (c_slice (iw_K w) KS ?j div 32))"
    using b [OF assms(4) g(2)] b [OF assms(3) g(1)] dv by (auto simp: set_tile_walk less_mult_imp_div_less)
  with f have "snd (iw_Bb w ! (?i * iw_Sk w + ?j)) ! tile_ix (c_slice (iw_K w) KS ?j div 32) ?x = B ! src_ix (slice_arg B (iw_N w) ?s) ?x"
    unfolding holds_tile_iff slice_arg.simps tile_i8_arg.simps by blast
  moreover have "src_ix (slice_arg B (iw_N w) ?s) ?x = k * iw_N w + n"
  proof -
    have "?j * KS + k mod KS div 32 * 32 + k mod KS mod 32 = k" "?i * NMAX + n mod NMAX div 32 * 32 + n mod NMAX mod 32 = n"
      by (simp_all add: add.assoc)
    then show ?thesis by (simp only: src_ix.simps slice_arg.simps tile_i8_arg.simps)
  qed
  ultimately show ?thesis by (simp only: read_tile_def)
qed

lemma tile_doorbell_computes: "doorbell_computes KS NMAX (tile_doorbell KS NMAX)"
proof -
  have "mat_mul M (iw_K w) (iw_N w) A (concat (map (\<lambda>k. map (read_tile KS NMAX w k) [0..<iw_N w]) [0..<iw_K w])) = mat_mul M (iw_K w) (iw_N w) A B"
    if h: "geom_ok KS NMAX (iw_K w) (iw_N w)" "holds_matrix KS NMAX w B" for M w A B
  proof -
    have "concat (map (\<lambda>k. map (read_tile KS NMAX w k) [0..<iw_N w]) [0..<iw_K w]) ! (k * iw_N w + n) = B ! (k * iw_N w + n)"
      if "k < iw_K w" "n < iw_N w" for k n
      using that read_tile_holds [OF h that] by (subst concat_rows_nth(2)) simp_all
    then show ?thesis unfolding mat_mul_def mat_dot_def by (intro arg_cong [where f = concat] map_cong sum.cong refl) auto
  qed
  then show ?thesis by (auto simp: doorbell_computes_def tile_doorbell_def split: prod.splits)
qed


end
