(* ===== verification/Transpose.thy ===== *)
theory Transpose
  imports I8_Tile
begin

section \<open>The host transpose: \<open>src/npu/f16/transpose.c\<close>\<close>

text \<open>
  \<open>ork_f16_transpose\<close> moves 16-bit lanes and does no arithmetic, so it is modelled over any element type;
  \<open>ork_f32_transpose_to_f16\<close> narrows on the way, and the narrowing of the vector unit \<open>vcvt\<close> and the C cast
  \<open>cast\<close> are parameters. A vector register is the list of its lanes in memory order; a register seen as
  wider lanes is a list of pairs. The walk is a list of stores, applied by \<open>poke\<close>. \<open>neon\<close> says whether the
  file was compiled for ARM NEON. A NULL pointer is \<open>None\<close>, and \<open>same\<close> says that \<open>dst\<close> and \<open>src\<close> are one buffer.
\<close>

subsection \<open>Vector registers\<close>

fun vtrn_val0 :: "'a list \<Rightarrow> 'a list \<Rightarrow> 'a list" where
  "vtrn_val0 (x # x' # xs) (y # y' # ys) = x # y # vtrn_val0 xs ys"
| "vtrn_val0 _ _ = []"

fun vtrn_val1 :: "'a list \<Rightarrow> 'a list \<Rightarrow> 'a list" where
  "vtrn_val1 (x # x' # xs) (y # y' # ys) = x' # y' # vtrn_val1 xs ys"
| "vtrn_val1 _ _ = []"

text \<open>Reinterpretation to lanes of twice the width, and back.\<close>

fun widen_lanes :: "'a list \<Rightarrow> ('a \<times> 'a) list" where
  "widen_lanes (x # y # xs) = (x, y) # widen_lanes xs"
| "widen_lanes _ = []"

fun narrow_lanes :: "('a \<times> 'a) list \<Rightarrow> 'a list" where
  "narrow_lanes ((x, y) # xs) = x # y # narrow_lanes xs"
| "narrow_lanes [] = []"

definition vget_low :: "'a list \<Rightarrow> 'a list" where
  "vget_low v = take (length v div 2) v"

definition vget_high :: "'a list \<Rightarrow> 'a list" where
  "vget_high v = drop (length v div 2) v"

definition ORK_J :: "(('a \<times> 'a) list \<Rightarrow> ('a \<times> 'a) list \<Rightarrow> (('a \<times> 'a) \<times> ('a \<times> 'a)) list) \<Rightarrow> ('a \<times> 'a) list \<Rightarrow> ('a \<times> 'a) list \<Rightarrow> 'a list" where
  "ORK_J comb x y = narrow_lanes (narrow_lanes (comb x y))"

definition comb_low :: "('a \<times> 'a) list \<Rightarrow> ('a \<times> 'a) list \<Rightarrow> (('a \<times> 'a) \<times> ('a \<times> 'a)) list" where
  "comb_low x y = vget_low (widen_lanes x) @ vget_low (widen_lanes y)"

definition comb_high :: "('a \<times> 'a) list \<Rightarrow> ('a \<times> 'a) list \<Rightarrow> (('a \<times> 'a) \<times> ('a \<times> 'a)) list" where
  "comb_high x y = vget_high (widen_lanes x) @ vget_high (widen_lanes y)"

text \<open>The eight output registers of an 8 by 8 block, in their order.\<close>

definition t16_regs :: "(nat \<Rightarrow> 'a list) \<Rightarrow> 'a list list" where
  "t16_regs a =
     (let p00 = widen_lanes (vtrn_val0 (a 0) (a 1)); p01 = widen_lanes (vtrn_val1 (a 0) (a 1));
          p10 = widen_lanes (vtrn_val0 (a 2) (a 3)); p11 = widen_lanes (vtrn_val1 (a 2) (a 3));
          p20 = widen_lanes (vtrn_val0 (a 4) (a 5)); p21 = widen_lanes (vtrn_val1 (a 4) (a 5));
          p30 = widen_lanes (vtrn_val0 (a 6) (a 7)); p31 = widen_lanes (vtrn_val1 (a 6) (a 7));
          q00 = vtrn_val0 p00 p10; q01 = vtrn_val1 p00 p10; q10 = vtrn_val0 p01 p11; q11 = vtrn_val1 p01 p11;
          q20 = vtrn_val0 p20 p30; q21 = vtrn_val1 p20 p30; q30 = vtrn_val0 p21 p31; q31 = vtrn_val1 p21 p31
      in [ORK_J comb_low q00 q20, ORK_J comb_low q10 q30, ORK_J comb_low q01 q21, ORK_J comb_low q11 q31,
          ORK_J comb_high q00 q20, ORK_J comb_high q10 q30, ORK_J comb_high q01 q21, ORK_J comb_high q11 q31])"

text \<open>The four output registers of a 4 by 4 block of floats.\<close>

definition t32_regs :: "(nat \<Rightarrow> 'a list) \<Rightarrow> 'a list list" where
  "t32_regs a =
     (let t00 = vtrn_val0 (a 0) (a 1); t01 = vtrn_val1 (a 0) (a 1);
          t10 = vtrn_val0 (a 2) (a 3); t11 = vtrn_val1 (a 2) (a 3)
      in [vget_low t00 @ vget_low t10, vget_low t01 @ vget_low t11, vget_high t00 @ vget_high t10, vget_high t01 @ vget_high t11])"

subsection \<open>The walks\<close>

definition vload :: "nat \<Rightarrow> 'a list \<Rightarrow> nat \<Rightarrow> 'a list" where
  "vload n s off = take n (drop off s)"

definition vstore :: "nat \<Rightarrow> 'b list \<Rightarrow> (nat \<times> 'b) list" where
  "vstore off v = zip [off..<off + length v] v"

definition t16_blk8 :: "'a list \<Rightarrow> nat \<Rightarrow> nat \<Rightarrow> nat \<Rightarrow> nat \<Rightarrow> (nat \<times> 'a) list" where
  "t16_blk8 s R C r c =
     (let rs = t16_regs (\<lambda>i. vload 8 s ((r + i) * C + c))
      in concat (map (\<lambda>i. vstore ((c + i) * R + r) (rs ! i)) [0..<8]))"

definition t32_blk4 :: "('f \<Rightarrow> 'h) \<Rightarrow> 'f list \<Rightarrow> nat \<Rightarrow> nat \<Rightarrow> nat \<Rightarrow> nat \<Rightarrow> (nat \<times> 'h) list" where
  "t32_blk4 vcvt s R C r c =
     (let rs = t32_regs (\<lambda>i. vload 4 s ((r + i) * C + c))
      in concat (map (\<lambda>i. vstore ((c + i) * R + r) (map vcvt (rs ! i))) [0..<4]))"

text \<open>\<open>for (x = lo; x < hi; x += st)\<close>\<close>

definition for_step :: "nat \<Rightarrow> nat \<Rightarrow> nat \<Rightarrow> nat list" where
  "for_step lo hi st = map (\<lambda>i. lo + i * st) [0..<(hi - lo + st - 1) div st]"

definition TBLK :: nat where
  "TBLK = 64"

text \<open>The blocked walk over \<open>R\<close> by \<open>C\<close> with units of \<open>u\<close> rows and columns inside a block.\<close>

definition blocked :: "nat \<Rightarrow> nat \<Rightarrow> nat \<Rightarrow> (nat \<Rightarrow> nat \<Rightarrow> (nat \<times> 'b) list) \<Rightarrow> (nat \<times> 'b) list" where
  "blocked u R C unit =
     concat (map (\<lambda>r0. concat (map (\<lambda>c0.
       let rm = (if r0 + TBLK < R then r0 + TBLK else R); cm = (if c0 + TBLK < C then c0 + TBLK else C)
       in concat (map (\<lambda>r. concat (map (\<lambda>c. unit r c) (for_step c0 cm u))) (for_step r0 rm u)))
       (for_step 0 C TBLK))) (for_step 0 R TBLK))"

definition scalar_walk :: "('f \<Rightarrow> 'h) \<Rightarrow> 'f list \<Rightarrow> nat \<Rightarrow> nat \<Rightarrow> nat list \<Rightarrow> nat list \<Rightarrow> (nat \<times> 'h) list" where
  "scalar_walk cast src R C rs cs = concat (map (\<lambda>r. map (\<lambda>c. (c * R + r, cast (src ! (r * C + c)))) cs) rs)"

definition transpose_writes :: "bool \<Rightarrow> nat \<Rightarrow> (nat \<Rightarrow> nat \<Rightarrow> (nat \<times> 'h) list) \<Rightarrow> ('f \<Rightarrow> 'h) \<Rightarrow> 'f list \<Rightarrow> nat \<Rightarrow> nat \<Rightarrow> (nat \<times> 'h) list" where
  "transpose_writes neon u blk cast src R C =
     (if neon then
        let rv = R - R mod u; cv = C - C mod u
        in blocked u rv cv blk @ scalar_walk cast src R C [rv..<R] [0..<C] @ scalar_walk cast src R C [0..<rv] [cv..<C]
      else blocked 1 R C (\<lambda>r c. [(c * R + r, cast (src ! (r * C + c)))]))"

definition ork_f16_transpose :: "bool \<Rightarrow> bool \<Rightarrow> 'a list option \<Rightarrow> 'a list option \<Rightarrow> int \<Rightarrow> int \<Rightarrow> int \<times> 'a list option" where
  "ork_f16_transpose neon same dst src rows cols =
     (case (dst, src) of
        (Some d, Some s) \<Rightarrow>
          if rows \<le> 0 \<or> cols \<le> 0 then (- 1, dst)
          else if same then (- 1, dst)
          else let R = nat rows; C = nat cols
            in (0, Some (poke (transpose_writes neon 8 (t16_blk8 s R C) (\<lambda>x. x) s R C) d))
      | _ \<Rightarrow> (- 1, dst))"

definition ork_f32_transpose_to_f16 :: "('f \<Rightarrow> 'h) \<Rightarrow> ('f \<Rightarrow> 'h) \<Rightarrow> bool \<Rightarrow> 'h list option \<Rightarrow> 'f list option \<Rightarrow> int \<Rightarrow> int \<Rightarrow> int \<times> 'h list option" where
  "ork_f32_transpose_to_f16 vcvt cast neon dst src rows cols =
     (case (dst, src) of
        (Some d, Some s) \<Rightarrow>
          if rows \<le> 0 \<or> cols \<le> 0 then (- 1, dst)
          else let R = nat rows; C = nat cols
            in (0, Some (poke (transpose_writes neon 4 (t32_blk4 vcvt s R C) cast s R C) d))
      | _ \<Rightarrow> (- 1, dst))"

subsection \<open>The register networks transpose\<close>

lemma list8: "length xs = 8 \<Longrightarrow> \<exists>a b c d e f g h. xs = [a, b, c, d, e, f, g, h]"
  by (auto simp: numeral_eq_Suc length_Suc_conv)

lemma list4: "length xs = 4 \<Longrightarrow> \<exists>a b c d. xs = [a, b, c, d]"
  by (auto simp: numeral_eq_Suc length_Suc_conv)

lemma t16_regs_transpose:
  assumes "\<And>j. j < 8 \<Longrightarrow> length (a j) = 8"
  shows "t16_regs a = map (\<lambda>i. map (\<lambda>j. a j ! i) [0..<8]) [0..<8]"
proof -
  have u: "[0..<8] = [0, 1, 2, 3, 4, 5, 6, 7 :: nat]" by (simp add: upt_rec)
  obtain a0 a1 a2 a3 a4 a5 a6 a7 b0 b1 b2 b3 b4 b5 b6 b7 c0 c1 c2 c3 c4 c5 c6 c7 d0 d1 d2 d3 d4 d5 d6 d7
    where "a 0 = [a0, a1, a2, a3, a4, a5, a6, a7]" "a 1 = [b0, b1, b2, b3, b4, b5, b6, b7]"
      "a 2 = [c0, c1, c2, c3, c4, c5, c6, c7]" "a 3 = [d0, d1, d2, d3, d4, d5, d6, d7]"
    using list8 [OF assms [of 0]] list8 [OF assms [of 1]] list8 [OF assms [of 2]] list8 [OF assms [of 3]] by auto
  moreover obtain e0 e1 e2 e3 e4 e5 e6 e7 f0 f1 f2 f3 f4 f5 f6 f7 g0 g1 g2 g3 g4 g5 g6 g7 h0 h1 h2 h3 h4 h5 h6 h7
    where "a 4 = [e0, e1, e2, e3, e4, e5, e6, e7]" "a 5 = [f0, f1, f2, f3, f4, f5, f6, f7]"
      "a 6 = [g0, g1, g2, g3, g4, g5, g6, g7]" "a 7 = [h0, h1, h2, h3, h4, h5, h6, h7]"
    using list8 [OF assms [of 4]] list8 [OF assms [of 5]] list8 [OF assms [of 6]] list8 [OF assms [of 7]] by auto
  ultimately show ?thesis
    by (simp add: t16_regs_def Let_def ORK_J_def comb_low_def comb_high_def vget_low_def vget_high_def u)
qed

lemma t32_regs_transpose:
  assumes "\<And>j. j < 4 \<Longrightarrow> length (a j) = 4"
  shows "t32_regs a = map (\<lambda>i. map (\<lambda>j. a j ! i) [0..<4]) [0..<4]"
proof -
  have u: "[0..<4] = [0, 1, 2, 3 :: nat]" by (simp add: upt_rec)
  obtain a0 a1 a2 a3 b0 b1 b2 b3 c0 c1 c2 c3 d0 d1 d2 d3
    where "a 0 = [a0, a1, a2, a3]" "a 1 = [b0, b1, b2, b3]" "a 2 = [c0, c1, c2, c3]" "a 3 = [d0, d1, d2, d3]"
    using list4 [OF assms [of 0]] list4 [OF assms [of 1]] list4 [OF assms [of 2]] list4 [OF assms [of 3]] by auto
  then show ?thesis by (simp add: t32_regs_def Let_def vget_low_def vget_high_def u)
qed

subsection \<open>What a walk writes\<close>

text \<open>Element \<open>(r, c)\<close> of the source goes to \<open>c * R + r\<close>.\<close>

definition put_at :: "('f \<Rightarrow> 'h) \<Rightarrow> 'f list \<Rightarrow> nat \<Rightarrow> nat \<Rightarrow> nat \<times> nat \<Rightarrow> nat \<times> 'h" where
  "put_at cast s R C = (\<lambda>(r, c). (c * R + r, cast (s ! (r * C + c))))"

lemma row_room: "r < R \<Longrightarrow> c + n \<le> C \<Longrightarrow> r * C + c + n \<le> R * (C :: nat)"
proof -
  assume a: "r < R" "c + n \<le> C"
  then have "Suc r * C \<le> R * C" by (intro mult_le_mono1) simp
  then show ?thesis using a(2) unfolding mult_Suc by linarith
qed

lemma vstore_set: "set (vstore off (map f [0..<n])) = (\<lambda>j. (off + j, f j)) ` {0..<n}"
proof -
  have "vstore off (map f [0..<n]) = map (\<lambda>j. (off + j, f j)) [0..<n]" by (rule nth_equalityI) (simp_all add: vstore_def)
  then show ?thesis by simp
qed

lemma block_set:
  assumes "length s = R * C" "r + u \<le> R" "c + u \<le> C"
    and "\<And>a. (\<And>j. j < u \<Longrightarrow> length (a j) = u) \<Longrightarrow> regs a = map (\<lambda>i. map (\<lambda>j. a j ! i) [0..<u]) [0..<u]"
  shows "set (concat (map (\<lambda>i. vstore ((c + i) * R + r) (map g (regs (\<lambda>i. vload u s ((r + i) * C + c)) ! i))) [0..<u]))
    = put_at g s R C ` ({r..<r + u} \<times> {c..<c + u})"
proof -
  have room: "(r + j) * C + c + u \<le> length s" if "j < u" for j
    using row_room [of "r + j" R c u C] that assms(1-3) by simp
  then have "length (vload u s ((r + j) * C + c)) = u" if j: "j < u" for j using room [OF j] by (simp add: vload_def)
  note rs = assms(4) [of "\<lambda>i. vload u s ((r + i) * C + c)", OF this]
  have v: "vload u s ((r + j) * C + c) ! i = s ! ((r + j) * C + (c + i))" if "i < u" "j < u" for i j
    using that room [of j] by (simp add: vload_def add.assoc)
  have "set (vstore ((c + i) * R + r) (map g (regs (\<lambda>i. vload u s ((r + i) * C + c)) ! i)))
      = (\<lambda>j. put_at g s R C (r + j, c + i)) ` {0..<u}" if i: "i < u" for i
  proof -
    have "map g (regs (\<lambda>i. vload u s ((r + i) * C + c)) ! i) = map (\<lambda>j. g (s ! ((r + j) * C + (c + i)))) [0..<u]"
      using i v [OF i] by (auto simp: rs)
    then show ?thesis by (simp only: vstore_set) (simp add: put_at_def add.assoc)
  qed
  then have "set (concat (map (\<lambda>i. vstore ((c + i) * R + r) (map g (regs (\<lambda>i. vload u s ((r + i) * C + c)) ! i))) [0..<u]))
     = (\<Union>i \<in> {0..<u}. (\<lambda>j. put_at g s R C (r + j, c + i)) ` {0..<u})" by auto
  also have "\<dots> = put_at g s R C ` (\<Union>i \<in> {0..<u}. (\<lambda>j. (r + j, c + i)) ` {0..<u})" by auto
  also have "(\<Union>i \<in> {0..<u}. (\<lambda>j. (r + j, c + i)) ` {0..<u}) = {r..<r + u} \<times> {c..<c + u}"
  proof (rule set_eqI, rule iffI)
    fix x assume "x \<in> {r..<r + u} \<times> {c..<c + u}"
    then show "x \<in> (\<Union>i \<in> {0..<u}. (\<lambda>j. (r + j, c + i)) ` {0..<u})"
      by (auto intro!: bexI [of _ "snd x - c"] image_eqI [of _ _ "fst x - r"])
  qed auto
  finally show ?thesis .
qed

lemma set_for_step: "0 < st \<Longrightarrow> set (for_step lo hi st) = {x. lo \<le> x \<and> x < hi \<and> st dvd x - lo}"
proof -
  assume st: "0 < st"
  have "i < (hi - lo + st - 1) div st \<longleftrightarrow> lo + i * st < hi" for i
  proof -
    have "i < (hi - lo + st - 1) div st \<longleftrightarrow> Suc i \<le> (hi - lo + st - 1) div st" by auto
    also have "\<dots> \<longleftrightarrow> Suc i * st \<le> hi - lo + st - 1" using st by (simp only: less_eq_div_iff_mult_less_eq)
    also have "\<dots> \<longleftrightarrow> lo + i * st < hi" using st unfolding mult_Suc by linarith
    finally show ?thesis .
  qed
  then have "set (for_step lo hi st) = {lo + i * st |i. lo + i * st < hi}" by (auto simp: for_step_def)
  also have "\<dots> = {x. lo \<le> x \<and> x < hi \<and> st dvd x - lo}"
  proof (rule set_eqI, rule iffI)
    fix x assume x: "x \<in> {x. lo \<le> x \<and> x < hi \<and> st dvd x - lo}"
    then obtain i where "x - lo = st * i" by (auto elim: dvdE)
    with x show "x \<in> {lo + i * st |i. lo + i * st < hi}" by (auto intro!: exI [of _ i] simp: mult.commute)
  qed auto
  finally show ?thesis .
qed

lemma block_steps:
  assumes "0 < u" "u dvd 64" "u dvd R"
  shows "(\<exists>r0 \<in> set (for_step 0 R TBLK). r \<in> set (for_step r0 (if r0 + TBLK < R then r0 + TBLK else R) u)) \<longleftrightarrow> r < R \<and> u dvd r"
proof
  assume "\<exists>r0 \<in> set (for_step 0 R TBLK). r \<in> set (for_step r0 (if r0 + TBLK < R then r0 + TBLK else R) u)"
  then obtain r0 where m: "r0 \<in> set (for_step 0 R TBLK)" "r \<in> set (for_step r0 (if r0 + TBLK < R then r0 + TBLK else R) u)" by blast
  have r0: "64 dvd r0" "r0 \<le> r" "u dvd r - r0" using m assms(1) by (simp_all add: set_for_step TBLK_def)
  have "r < (if r0 + TBLK < R then r0 + TBLK else R)" using m(2) assms(1) by (simp add: set_for_step)
  then have rR: "r < R" by (rule less_le_trans) simp
  have "u dvd r0" using dvd_trans [OF assms(2) r0(1)] .
  then have "u dvd (r - r0) + r0" using r0(3) by (intro dvd_add)
  with r0(2) rR show "r < R \<and> u dvd r" by simp
next
  assume r: "r < R \<and> u dvd r"
  let ?r0 = "r div 64 * 64"
  have "?r0 \<le> r" "r < ?r0 + 64" using div_mult_mod_eq [of r 64] mod_less_divisor [of 64 r] by linarith+
  moreover have "u dvd r - ?r0" using r dvd_trans [OF assms(2), of ?r0] by (intro dvd_diff_nat) auto
  moreover have "?r0 < R" using \<open>?r0 \<le> r\<close> r by linarith
  ultimately show "\<exists>r0 \<in> set (for_step 0 R TBLK). r \<in> set (for_step r0 (if r0 + TBLK < R then r0 + TBLK else R) u)"
    using r assms(1) by (intro bexI [of _ ?r0]) (simp_all add: set_for_step TBLK_def)
qed

lemma blocked_set:
  assumes "0 < u" "u dvd 64" "u dvd R" "u dvd C"
    and "\<And>r c. r + u \<le> R \<Longrightarrow> c + u \<le> C \<Longrightarrow> set (unit r c) = P ` ({r..<r + u} \<times> {c..<c + u})"
  shows "set (blocked u R C unit) = P ` ({0..<R} \<times> {0..<C})"
proof -
  let ?S = "\<lambda>R r. \<exists>r0 \<in> set (for_step 0 R TBLK). r \<in> set (for_step r0 (if r0 + TBLK < R then r0 + TBLK else R) u)"
  have "x \<in> set (blocked u R C unit) \<longleftrightarrow> (\<exists>r c. ?S R r \<and> ?S C c \<and> x \<in> set (unit r c))" for x
    unfolding blocked_def Let_def by (simp only: set_concat set_map image_image UN_iff) blast
  then have b: "x \<in> set (blocked u R C unit) \<longleftrightarrow> (\<exists>r c. r < R \<and> u dvd r \<and> c < C \<and> u dvd c \<and> x \<in> set (unit r c))" for x
    using block_steps [OF assms(1,2,3)] block_steps [OF assms(1,2,4)] by simp
  have fit: "r + u \<le> X" if "r < X" "u dvd r" "u dvd X" for r X
  proof -
    have "u dvd X - r" "0 < X - r" using that by (auto intro: dvd_diff_nat)
    then have "u \<le> X - r" by (rule dvd_imp_le)
    then show ?thesis using that(1) by simp
  qed
  have base: "\<exists>r. r < X \<and> u dvd r \<and> r \<le> x \<and> x < r + u" if "x < X" for x X
  proof (intro exI [of _ "x div u * u"] conjI)
    show "x div u * u \<le> x" by simp
    then show "x div u * u < X" using that by (rule le_less_trans)
    show "x < x div u * u + u" using dividend_less_div_times [OF assms(1), of x] by simp
  qed simp
  show ?thesis
  proof (rule set_eqI)
    fix x
    have e: "x \<in> set (unit r c) \<longleftrightarrow> x \<in> P ` ({r..<r + u} \<times> {c..<c + u})" if "r < R" "u dvd r" "c < C" "u dvd c" for r c
      using assms(5) [OF fit [OF that(1,2) assms(3)] fit [OF that(3,4) assms(4)]] by simp
    have "x \<in> set (blocked u R C unit) \<longleftrightarrow>
        (\<exists>r c. r < R \<and> u dvd r \<and> c < C \<and> u dvd c \<and> x \<in> P ` ({r..<r + u} \<times> {c..<c + u}))"
      unfolding b by (intro ex_cong1 conj_cong refl e)
    also have "\<dots> \<longleftrightarrow> x \<in> P ` ({0..<R} \<times> {0..<C})"
    proof
      assume "\<exists>r c. r < R \<and> u dvd r \<and> c < C \<and> u dvd c \<and> x \<in> P ` ({r..<r + u} \<times> {c..<c + u})"
      then obtain r c where rc: "r < R" "u dvd r" "c < C" "u dvd c" "x \<in> P ` ({r..<r + u} \<times> {c..<c + u})" by blast
      have "{r..<r + u} \<times> {c..<c + u} \<subseteq> {0..<R} \<times> {0..<C}" using fit [OF rc(1,2) assms(3)] fit [OF rc(3,4) assms(4)] by auto
      with rc(5) show "x \<in> P ` ({0..<R} \<times> {0..<C})" by blast
    next
      assume "x \<in> P ` ({0..<R} \<times> {0..<C})"
      then obtain a b where ab: "x = P (a, b)" "a < R" "b < C" by auto
      obtain r where r: "r < R" "u dvd r" "r \<le> a" "a < r + u" using base [OF ab(2)] by blast
      obtain c where c: "c < C" "u dvd c" "c \<le> b" "b < c + u" using base [OF ab(3)] by blast
      have "(a, b) \<in> {r..<r + u} \<times> {c..<c + u}" using r c by simp
      then show "\<exists>r c. r < R \<and> u dvd r \<and> c < C \<and> u dvd c \<and> x \<in> P ` ({r..<r + u} \<times> {c..<c + u})"
        using r(1,2) c(1,2) ab(1) by blast
    qed
    finally show "x \<in> set (blocked u R C unit) \<longleftrightarrow> x \<in> P ` ({0..<R} \<times> {0..<C})" .
  qed
qed

lemma transpose_set:
  assumes "u \<in> {4, 8}" "\<And>r c. r + u \<le> R \<Longrightarrow> c + u \<le> C \<Longrightarrow> set (blk r c) = put_at cast s R C ` ({r..<r + u} \<times> {c..<c + u})"
  shows "set (transpose_writes neon u blk cast s R C) = put_at cast s R C ` ({0..<R} \<times> {0..<C})"
proof (cases neon)
  case False
  have "set (blocked 1 R C (\<lambda>r c. [(c * R + r, cast (s ! (r * C + c)))])) = put_at cast s R C ` ({0..<R} \<times> {0..<C})"
    by (rule blocked_set) (auto simp: put_at_def)
  with False show ?thesis by (simp add: transpose_writes_def)
next
  case True
  let ?rv = "R - R mod u" and ?cv = "C - C mod u"
  have u: "0 < u" "u dvd 64" using assms(1) by auto
  have dv: "u dvd ?rv" "u dvd ?cv" by (simp_all add: dvd_minus_mod)
  have "set (blocked u ?rv ?cv blk) = put_at cast s R C ` ({0..<?rv} \<times> {0..<?cv})"
    by (rule blocked_set [OF u dv]) (use assms(2) in auto)
  moreover have "set (scalar_walk cast s R C rs cs) = put_at cast s R C ` (set rs \<times> set cs)" for rs cs
    by (auto simp: scalar_walk_def put_at_def image_iff)
  ultimately have "set (transpose_writes neon u blk cast s R C) =
      put_at cast s R C ` ({0..<?rv} \<times> {0..<?cv} \<union> {?rv..<R} \<times> {0..<C} \<union> {0..<?rv} \<times> {?cv..<C})"
    using True by (simp add: transpose_writes_def Let_def image_Un Un_assoc)
  also have "{0..<?rv} \<times> {0..<?cv} \<union> {?rv..<R} \<times> {0..<C} \<union> {0..<?rv} \<times> {?cv..<C} = {0..<R} \<times> {0..<C}"
    by auto
  finally show ?thesis .
qed

lemma transposed:
  assumes "set ws = put_at cast s R C ` ({0..<R} \<times> {0..<C})" "length d = R * C" "r < R" "c < C"
  shows "poke ws d ! (c * R + r) = cast (s ! (r * C + c))"
proof -
  have F: "\<forall>(i, v) \<in> set ws. v = cast (s ! (i mod R * C + i div R))" unfolding assms(1) by (auto simp: put_at_def)
  have "c * R + r < length d" using row_room [OF assms(4), of r 1 R] assms(2,3) by (simp add: mult.commute)
  moreover have "c * R + r \<in> fst ` set ws" unfolding assms(1) using assms(3,4) by (force simp: put_at_def image_image)
  ultimately show ?thesis using poke_agree [OF F] assms(3) by simp
qed

lemma t16_writes: "length s = R * C \<Longrightarrow> set (transpose_writes neon 8 (t16_blk8 s R C) (\<lambda>x. x) s R C) = put_at (\<lambda>x. x) s R C ` ({0..<R} \<times> {0..<C})"
proof (rule transpose_set)
  fix r c assume a: "length s = R * C" "r + 8 \<le> R" "c + 8 \<le> C"
  show "set (t16_blk8 s R C r c) = put_at (\<lambda>x. x) s R C ` ({r..<r + 8} \<times> {c..<c + 8})"
    using block_set [OF a, where regs = t16_regs and g = "\<lambda>x. x", OF t16_regs_transpose] by (simp add: t16_blk8_def Let_def)
qed simp

lemma t32_writes:
  "length s = R * C \<Longrightarrow> set (transpose_writes neon 4 (t32_blk4 cast s R C) cast s R C) = put_at cast s R C ` ({0..<R} \<times> {0..<C})"
proof (rule transpose_set)
  fix r c assume a: "length s = R * C" "r + 4 \<le> R" "c + 4 \<le> C"
  show "set (t32_blk4 cast s R C r c) = put_at cast s R C ` ({r..<r + 4} \<times> {c..<c + 4})"
    using block_set [OF a, where regs = t32_regs and g = cast, OF t32_regs_transpose] by (simp add: t32_blk4_def Let_def)
qed simp



end
