(* ===== verification/Spine.thy ===== *)
theory Spine
  imports Prelude
begin

unbundle bit_operations_syntax

section \<open>The execution-unit dispatcher: \<open>include/ork_spine.h\<close>\<close>

text \<open>
  \<open>ork_spine_run\<close> drives a graph of operations over one NPU unit and some CPU units, each a worker thread
  behind a mutex. The scheduler's loop is cut at its mutex operations: one step handles one operation of
  the dispatch pass, or polls one unit; a worker takes its job in one step and posts the result in another,
  at any time in between. A job is named by the operation whose \<open>fn\<close> and \<open>arg\<close> it is, and what the function
  returns is any value. \<open>sp_log\<close> records what happened, newest first. Starting, pinning, stopping units and
  the cache maintenance are not modelled; generation counters do not wrap.
\<close>

datatype unit_kind = UNIT_CPU | UNIT_NPU
datatype spine_place = PL_NPU | PL_CPU | PL_EITHER
datatype op_state = PEND | INFLIGHT | FINISHED

record spine_unit =
  su_kind :: unit_kind
  su_gen :: nat
  su_done_gen :: nat
  su_fn :: nat
  su_ret :: int
  su_busy :: bool
  su_op :: nat
  su_run :: "(nat \<times> nat) option"

record spine_op =
  so_deps :: u32
  so_place :: spine_place
  so_state :: op_state
  so_unit :: int
  so_gen :: nat
  so_ret :: int

datatype spine_pc = Disp nat | Poll nat | Return
datatype spine_event = Start nat | Finish nat int

record spine =
  sp_U :: "spine_unit list"
  sp_ops :: "spine_op list"
  sp_done :: u32
  sp_ndone :: nat
  sp_pc :: spine_pc
  sp_log :: "spine_event list"

subsection \<open>The scheduler\<close>

definition first_free :: "unit_kind \<Rightarrow> spine_unit list \<Rightarrow> nat option" where
  "first_free k U = find (\<lambda>i. \<not> su_busy (U ! i) \<and> su_kind (U ! i) = k) [0..<length U]"

definition ork_spine_pick :: "spine_unit list \<Rightarrow> spine_place \<Rightarrow> nat option" where
  "ork_spine_pick U pl =
     (let npu_free = first_free UNIT_NPU U; cpu_free = first_free UNIT_CPU U in
      case pl of PL_NPU \<Rightarrow> npu_free | PL_CPU \<Rightarrow> cpu_free | PL_EITHER \<Rightarrow> (if cpu_free \<noteq> None then cpu_free else npu_free))"

definition ork_spine_unit_dispatch :: "spine_unit \<Rightarrow> nat \<Rightarrow> nat \<times> spine_unit" where
  "ork_spine_unit_dispatch u f = (let g = su_gen u + 1 in (g, u\<lparr>su_fn := f, su_gen := g\<rparr>))"

definition ork_spine_unit_poll :: "spine_unit \<Rightarrow> nat \<Rightarrow> bool" where
  "ork_spine_unit_poll u gen \<longleftrightarrow> gen \<le> su_done_gen u"

text \<open>The checks and resets before the loop; \<open>None\<close> is the return of -1.\<close>

definition spine_begin :: "spine_unit list \<Rightarrow> spine_op list \<Rightarrow> spine option" where
  "spine_begin U ops =
     (let nnpu = length (filter (\<lambda>u. su_kind u = UNIT_NPU) U) in
      if 1 < nnpu then None
      else if \<exists>p \<in> set ops. so_place p = PL_NPU \<and> nnpu = 0 then None
      else Some \<lparr>sp_U = map (\<lambda>u. u\<lparr>su_busy := False\<rparr>) U, sp_ops = map (\<lambda>p. p\<lparr>so_state := PEND, so_unit := - 1\<rparr>) ops,
        sp_done = 0, sp_ndone = 0, sp_pc = (if 0 < length ops then Disp 0 else Return), sp_log = []\<rparr>)"

definition spine_dispatch :: "nat \<Rightarrow> spine \<Rightarrow> spine" where
  "spine_dispatch i s =
     (let p = sp_ops s ! i in
      if so_state p = PEND \<and> so_deps p AND sp_done s = so_deps p then
        case ork_spine_pick (sp_U s) (so_place p) of
          None \<Rightarrow> s
        | Some ui \<Rightarrow>
          let (g, u) = ork_spine_unit_dispatch (sp_U s ! ui) i
          in s\<lparr>sp_ops := (sp_ops s)[i := p\<lparr>so_gen := g, so_state := INFLIGHT, so_unit := int ui\<rparr>],
               sp_U := (sp_U s)[ui := u\<lparr>su_busy := True, su_op := i\<rparr>], sp_log := Start i # sp_log s\<rparr>
      else s)"

definition spine_poll :: "nat \<Rightarrow> spine \<Rightarrow> spine" where
  "spine_poll k s =
     (let u = sp_U s ! k; i = su_op u; p = sp_ops s ! i in
      if su_busy u \<and> ork_spine_unit_poll u (so_gen p) then
        s\<lparr>sp_ops := (sp_ops s)[i := p\<lparr>so_ret := su_ret u, so_state := FINISHED\<rparr>],
          sp_done := sp_done s OR push_bit i 1, sp_ndone := sp_ndone s + 1,
          sp_U := (sp_U s)[k := u\<lparr>su_busy := False\<rparr>]\<rparr>
      else s)"

definition spine_sched :: "spine \<Rightarrow> spine" where
  "spine_sched s =
     (case sp_pc s of
        Disp i \<Rightarrow> if i < length (sp_ops s) then (spine_dispatch i s)\<lparr>sp_pc := Disp (i + 1)\<rparr> else s\<lparr>sp_pc := Poll 0\<rparr>
      | Poll k \<Rightarrow>
          if k < length (sp_U s) then (spine_poll k s)\<lparr>sp_pc := Poll (k + 1)\<rparr>
          else s\<lparr>sp_pc := (if sp_ndone s < length (sp_ops s) then Disp 0 else Return)\<rparr>
      | Return \<Rightarrow> s)"

subsection \<open>The workers\<close>

text \<open>One turn of \<open>ork__spine_unit_loop\<close>: read the job and unlock; lock again and post the result.\<close>

definition unit_take :: "spine_unit \<Rightarrow> spine_unit option" where
  "unit_take u = (if su_run u = None \<and> su_gen u \<noteq> su_done_gen u then Some (u\<lparr>su_run := Some (su_fn u, su_gen u)\<rparr>) else None)"

definition unit_post :: "int \<Rightarrow> spine_unit \<Rightarrow> (nat \<times> spine_unit) option" where
  "unit_post r u = map_option (\<lambda>(f, g). (f, u\<lparr>su_ret := r, su_done_gen := g, su_run := None\<rparr>)) (su_run u)"

inductive spine_step :: "spine \<Rightarrow> spine \<Rightarrow> bool" where
  sched: "sp_pc s \<noteq> Return \<Longrightarrow> spine_step s (spine_sched s)"
| take: "k < length (sp_U s) \<Longrightarrow> unit_take (sp_U s ! k) = Some u \<Longrightarrow> spine_step s (s\<lparr>sp_U := (sp_U s)[k := u]\<rparr>)"
| post: "k < length (sp_U s) \<Longrightarrow> unit_post r (sp_U s ! k) = Some (i, u) \<Longrightarrow>
    spine_step s (s\<lparr>sp_U := (sp_U s)[k := u], sp_log := Finish i r # sp_log s\<rparr>)"

inductive_cases spine_stepE: "spine_step s s'"

subsection \<open>The invariant\<close>

text \<open>A history is in order when an operation starts once, after all it depends on has finished, and finishes
  once, after its start.\<close>

fun log_ok :: "(nat \<Rightarrow> u32) \<Rightarrow> spine_event list \<Rightarrow> bool" where
  "log_ok deps [] = True"
| "log_ok deps (Start i # l) = ((\<forall>j. bit (deps i) j \<longrightarrow> (\<exists>r. Finish j r \<in> set l)) \<and> Start i \<notin> set l \<and> log_ok deps l)"
| "log_ok deps (Finish i r # l) = (Start i \<in> set l \<and> (\<forall>r'. Finish i r' \<notin> set l) \<and> log_ok deps l)"

definition place_ok :: "spine_place \<Rightarrow> unit_kind \<Rightarrow> bool" where
  "place_ok pl k \<longleftrightarrow> (pl = PL_NPU \<longrightarrow> k = UNIT_NPU) \<and> (pl = PL_CPU \<longrightarrow> k = UNIT_CPU)"

definition unit_inv :: "spine_op list \<Rightarrow> spine_event list \<Rightarrow> nat \<Rightarrow> spine_unit \<Rightarrow> bool" where
  "unit_inv ops log k u \<longleftrightarrow>
     (if su_busy u then
        su_op u < length ops \<and> so_state (ops ! su_op u) = INFLIGHT \<and> so_unit (ops ! su_op u) = int k
      \<and> so_gen (ops ! su_op u) = su_gen u \<and> su_fn u = su_op u \<and> place_ok (so_place (ops ! su_op u)) (su_kind u)
      \<and> (if su_gen u = su_done_gen u then su_run u = None \<and> Finish (su_op u) (su_ret u) \<in> set log
         else su_done_gen u < su_gen u \<and> su_run u \<in> {None, Some (su_op u, su_gen u)} \<and> (\<forall>r. Finish (su_op u) r \<notin> set log))
      else su_gen u = su_done_gen u \<and> su_run u = None)"

definition op_inv :: "spine_unit list \<Rightarrow> spine_event list \<Rightarrow> nat \<Rightarrow> spine_op \<Rightarrow> bool" where
  "op_inv U log i p \<longleftrightarrow>
     (case so_state p of
        PEND \<Rightarrow> Start i \<notin> set log \<and> (\<forall>r. Finish i r \<notin> set log)
      | INFLIGHT \<Rightarrow> Start i \<in> set log \<and> (\<exists>k < length U. so_unit p = int k \<and> su_busy (U ! k) \<and> su_op (U ! k) = i)
      | FINISHED \<Rightarrow> Start i \<in> set log \<and> Finish i (so_ret p) \<in> set log)"

definition done_inv :: "spine_op list \<Rightarrow> u32 \<Rightarrow> bool" where
  "done_inv ops d \<longleftrightarrow> (\<forall>j. bit d j \<longleftrightarrow> j < length ops \<and> so_state (ops ! j) = FINISHED)"

definition finished :: "spine_op list \<Rightarrow> nat set" where
  "finished ops = {i. i < length ops \<and> so_state (ops ! i) = FINISHED}"

definition spine_inv :: "unit_kind list \<Rightarrow> (u32 \<times> spine_place) list \<Rightarrow> spine \<Rightarrow> bool" where
  "spine_inv ks ds s \<longleftrightarrow>
     map su_kind (sp_U s) = ks \<and> map (\<lambda>p. (so_deps p, so_place p)) (sp_ops s) = ds
   \<and> (\<forall>k < length (sp_U s). unit_inv (sp_ops s) (sp_log s) k (sp_U s ! k))
   \<and> (\<forall>i < length (sp_ops s). op_inv (sp_U s) (sp_log s) i (sp_ops s ! i))
   \<and> done_inv (sp_ops s) (sp_done s) \<and> sp_ndone s = card (finished (sp_ops s))
   \<and> log_ok (\<lambda>i. so_deps (sp_ops s ! i)) (sp_log s)
   \<and> (sp_pc s = Return \<longrightarrow> sp_ndone s = length (sp_ops s))"

lemma find_upt: "find P [0..<n] = Some i \<Longrightarrow> i < n \<and> P i"
  by (auto simp: find_Some_iff)

lemma pick_free:
  "ork_spine_pick U pl = Some k \<Longrightarrow> k < length U \<and> \<not> su_busy (U ! k) \<and> place_ok pl (su_kind (U ! k))"
  by (auto simp: ork_spine_pick_def first_free_def place_ok_def Let_def dest!: find_upt split: spine_place.splits if_splits)

lemma deps_met: "d AND m = d \<longleftrightarrow> (\<forall>j. bit d j \<longrightarrow> bit m j)" for d m :: u32
proof
  assume "d AND m = d"
  then show "\<forall>j. bit d j \<longrightarrow> bit m j" by (metis bit_and_iff)
next
  assume "\<forall>j. bit d j \<longrightarrow> bit m j"
  then show "d AND m = d" by (intro bit_eqI) (auto simp: bit_and_iff)
qed

lemma bit_done: "i < 32 \<Longrightarrow> bit (d OR push_bit i 1) j \<longleftrightarrow> bit d j \<or> j = i" for d :: u32
  by (auto simp: bit_or_iff bit_exp_iff)

lemma log_ok_cong: "(\<And>i. Start i \<in> set l \<Longrightarrow> f i = g i) \<Longrightarrow> log_ok f l = log_ok g l"
  by (induction l rule: log_ok.induct) auto

lemma unit_inv_place: "unit_inv ops log k u \<Longrightarrow> su_busy u \<Longrightarrow> place_ok (so_place (ops ! su_op u)) (su_kind u)"
  by (simp add: unit_inv_def)

lemma unit_inv_run: "unit_inv ops log k u \<Longrightarrow> su_run u = Some (i, g) \<Longrightarrow> g = su_gen u"
  by (auto simp: unit_inv_def split: if_splits)

lemma unit_inv_posted: "unit_inv ops log k u \<Longrightarrow> su_busy u \<Longrightarrow> so_gen (ops ! su_op u) = su_gen u"
  by (simp add: unit_inv_def)

lemma not_busy_id: "\<not> su_busy u \<Longrightarrow> u\<lparr>su_busy := False\<rparr> = u"
  by (cases u) simp

lemma unit_inv_other:
  assumes "unit_inv ops log k u" "ops' = ops[i := p]" "su_busy u \<longrightarrow> su_op u \<noteq> i"
    "\<forall>r. su_busy u \<longrightarrow> (Finish (su_op u) r \<in> set log') = (Finish (su_op u) r \<in> set log)"
  shows "unit_inv ops' log' k u"
  using assms by (auto simp: unit_inv_def)

lemma inv_dispatch:
  assumes "spine_inv ks ds s" "i < length (sp_ops s)" "sp_pc s \<noteq> Return"
  shows "spine_inv ks ds (spine_dispatch i s)"
proof (cases "so_state (sp_ops s ! i) = PEND \<and> so_deps (sp_ops s ! i) AND sp_done s = so_deps (sp_ops s ! i)")
  case True
  show ?thesis
  proof (cases "ork_spine_pick (sp_U s) (so_place (sp_ops s ! i))")
    case None
    with True assms(1) show ?thesis by (simp add: spine_dispatch_def Let_def)
  next
    case (Some k)
    let ?p = "sp_ops s ! i" and ?u = "sp_U s ! k"
    let ?p' = "?p\<lparr>so_gen := su_gen ?u + 1, so_state := INFLIGHT, so_unit := int k\<rparr>"
    let ?u' = "?u\<lparr>su_fn := i, su_gen := su_gen ?u + 1, su_busy := True, su_op := i\<rparr>"
    let ?ops = "(sp_ops s)[i := ?p']" and ?U = "(sp_U s)[k := ?u']" and ?log = "Start i # sp_log s"
    have s': "spine_dispatch i s = s\<lparr>sp_ops := ?ops, sp_U := ?U, sp_log := ?log\<rparr>"
      using True Some by (simp add: spine_dispatch_def Let_def ork_spine_unit_dispatch_def)
    note k = pick_free [OF Some]
    have inv: "\<And>k. k < length (sp_U s) \<Longrightarrow> unit_inv (sp_ops s) (sp_log s) k (sp_U s ! k)"
      "\<And>i. i < length (sp_ops s) \<Longrightarrow> op_inv (sp_U s) (sp_log s) i (sp_ops s ! i)"
      "done_inv (sp_ops s) (sp_done s)" "log_ok (\<lambda>i. so_deps (sp_ops s ! i)) (sp_log s)"
      using assms(1) by (auto simp: spine_inv_def)
    have i: "Start i \<notin> set (sp_log s)" "\<forall>r. Finish i r \<notin> set (sp_log s)"
      using inv(2) [OF assms(2)] True by (auto simp: op_inv_def)
    have u: "unit_inv ?ops ?log m (?U ! m)" if m: "m < length ?U" for m
    proof (cases "m = k")
      case eq: True
      have "su_gen ?u = su_done_gen ?u \<and> su_run ?u = None" using inv(1) k by (auto simp: unit_inv_def)
      then show ?thesis using eq k assms(2) i by (simp add: unit_inv_def)
    next
      case False
      have "su_busy (sp_U s ! m) \<longrightarrow> su_op (sp_U s ! m) \<noteq> i"
        using inv(1) [of m] m True by (auto simp: unit_inv_def)
      then show ?thesis using inv(1) [of m] m False by (auto intro: unit_inv_other)
    qed
    have o: "op_inv ?U ?log j (?ops ! j)" if j: "j < length ?ops" for j
    proof (cases "j = i")
      case True
      then show ?thesis using k assms(2) by (auto simp: op_inv_def intro!: exI [of _ k])
    next
      case False
      have "m \<noteq> k" if "su_busy (sp_U s ! m)" for m using that k by auto
      then have "\<exists>m < length ?U. so_unit (sp_ops s ! j) = int m \<and> su_busy (?U ! m) \<and> su_op (?U ! m) = j"
        if "\<exists>m < length (sp_U s). so_unit (sp_ops s ! j) = int m \<and> su_busy (sp_U s ! m) \<and> su_op (sp_U s ! m) = j"
        using that by force
      then show ?thesis using inv(2) [of j] j False by (auto simp: op_inv_def split: op_state.splits)
    qed
    have d: "done_inv ?ops (sp_done s)" using inv(3) True assms(2) by (auto simp: done_inv_def nth_list_update)
    have f: "finished ?ops = finished (sp_ops s)" using True assms(2) by (auto simp: finished_def nth_list_update)
    have "\<exists>r. Finish j r \<in> set (sp_log s)" if "bit (so_deps ?p) j" for j
    proof -
      have "bit (sp_done s) j" using that True deps_met by blast
      then have "j < length (sp_ops s) \<and> so_state (sp_ops s ! j) = FINISHED" using inv(3) by (simp add: done_inv_def)
      with inv(2) [of j] show ?thesis by (auto simp: op_inv_def)
    qed
    moreover have dep: "so_deps (?ops ! j) = so_deps (sp_ops s ! j)" for j by (cases "j = i") (use assms(2) in auto)
    ultimately have l: "log_ok (\<lambda>i. so_deps (?ops ! i)) ?log" using inv(4) i(1) by (simp add: dep)
    have m: "map su_kind ?U = map su_kind (sp_U s)" "map (\<lambda>p. (so_deps p, so_place p)) ?ops = map (\<lambda>p. (so_deps p, so_place p)) (sp_ops s)"
      using k assms(2) by (simp_all add: map_update list_update_id [of "map su_kind (sp_U s)", symmetric] list_eq_iff_nth_eq nth_list_update)
    show ?thesis using u o d l m f assms(1,3) unfolding s' spine_inv_def by simp
  qed
qed (use assms(1) in \<open>auto simp: spine_dispatch_def Let_def\<close>)


lemma inv_poll:
  assumes "spine_inv ks ds s" "k < length (sp_U s)" "sp_pc s \<noteq> Return" "length (sp_ops s) \<le> 32"
  shows "spine_inv ks ds (spine_poll k s)"
proof (cases "su_busy (sp_U s ! k) \<and> ork_spine_unit_poll (sp_U s ! k) (so_gen (sp_ops s ! su_op (sp_U s ! k)))")
  case True
  let ?u = "sp_U s ! k"
  let ?i = "su_op ?u"
  let ?p = "sp_ops s ! ?i"
  let ?ops = "(sp_ops s)[?i := ?p\<lparr>so_ret := su_ret ?u, so_state := FINISHED\<rparr>]" and ?U = "(sp_U s)[k := ?u\<lparr>su_busy := False\<rparr>]"
  let ?d = "sp_done s OR push_bit ?i 1"
  have s': "spine_poll k s = s\<lparr>sp_ops := ?ops, sp_done := ?d, sp_ndone := sp_ndone s + 1, sp_U := ?U\<rparr>"
    using True by (simp add: spine_poll_def Let_def)
  have inv: "\<And>k. k < length (sp_U s) \<Longrightarrow> unit_inv (sp_ops s) (sp_log s) k (sp_U s ! k)"
    "\<And>i. i < length (sp_ops s) \<Longrightarrow> op_inv (sp_U s) (sp_log s) i (sp_ops s ! i)"
    "done_inv (sp_ops s) (sp_done s)" "log_ok (\<lambda>i. so_deps (sp_ops s ! i)) (sp_log s)"
    "sp_ndone s = card (finished (sp_ops s))"
    using assms(1) by (auto simp: spine_inv_def)
  have i: "?i < length (sp_ops s)" "so_state ?p = INFLIGHT" "so_unit ?p = int k" "su_gen ?u = su_done_gen ?u"
    "su_run ?u = None" "Finish ?i (su_ret ?u) \<in> set (sp_log s)"
    using inv(1) [OF assms(2)] True by (auto simp: unit_inv_def ork_spine_unit_poll_def split: if_splits)
  have st: "Start ?i \<in> set (sp_log s)" using inv(2) [OF i(1)] i(2) by (simp add: op_inv_def)
  have u: "unit_inv ?ops (sp_log s) m (?U ! m)" if m: "m < length ?U" for m
  proof (cases "m = k")
    case eq: True
    then show ?thesis using i assms(2) by (simp add: unit_inv_def)
  next
    case False
    have "su_busy (sp_U s ! m) \<longrightarrow> su_op (sp_U s ! m) \<noteq> ?i"
      using inv(1) [of m] m False i(3) by (auto simp: unit_inv_def)
    then show ?thesis using inv(1) [of m] m False by (auto intro: unit_inv_other)
  qed
  have o: "op_inv ?U (sp_log s) j (?ops ! j)" if j: "j < length ?ops" for j
  proof (cases "j = ?i")
    case True
    then show ?thesis using i st by (simp add: op_inv_def)
  next
    case False
    have "m \<noteq> k" if "su_op (sp_U s ! m) = j" for m using that False by auto
    then have "\<exists>m < length ?U. so_unit (sp_ops s ! j) = int m \<and> su_busy (?U ! m) \<and> su_op (?U ! m) = j"
      if "\<exists>m < length (sp_U s). so_unit (sp_ops s ! j) = int m \<and> su_busy (sp_U s ! m) \<and> su_op (sp_U s ! m) = j"
      using that by force
    then show ?thesis using inv(2) [of j] j False by (auto simp: op_inv_def split: op_state.splits)
  qed
  have bit: "bit ?d j \<longleftrightarrow> bit (sp_done s) j \<or> j = ?i" for j
    using i(1) assms(4) by (intro bit_done) linarith
  have d: "done_inv ?ops ?d" using inv(3) i(1,2) bit unfolding done_inv_def by (simp add: nth_list_update)
  have fin: "finished ?ops = insert ?i (finished (sp_ops s))" "?i \<notin> finished (sp_ops s)" "finite (finished (sp_ops s))"
    using i by (auto simp: finished_def nth_list_update)
  then have f: "sp_ndone s + 1 = card (finished ?ops)" using inv(5) by simp
  have dep: "so_deps (?ops ! j) = so_deps (sp_ops s ! j)" for j by (cases "j = ?i") (use i in auto)
  have m: "map su_kind ?U = map su_kind (sp_U s)"
    "map (\<lambda>p. (so_deps p, so_place p)) ?ops = map (\<lambda>p. (so_deps p, so_place p)) (sp_ops s)"
    using i assms(2) by (simp_all add: map_update list_eq_iff_nth_eq nth_list_update)
  show ?thesis using u o d inv(4) dep m f assms(1,3) unfolding s' spine_inv_def by simp
qed (use assms(1) in \<open>auto simp: spine_poll_def Let_def\<close>)

lemma poll_lengths [simp]:
  "length (sp_U (spine_poll k s)) = length (sp_U s)" "length (sp_ops (spine_poll k s)) = length (sp_ops s)"
  "sp_pc (spine_poll k s) = sp_pc s"
  by (simp_all add: spine_poll_def Let_def)

lemma dispatch_lengths [simp]:
  "length (sp_U (spine_dispatch k s)) = length (sp_U s)" "length (sp_ops (spine_dispatch k s)) = length (sp_ops s)"
  "sp_pc (spine_dispatch k s) = sp_pc s"
  by (simp_all add: spine_dispatch_def Let_def ork_spine_unit_dispatch_def split: option.splits)

lemma inv_pc: "spine_inv ks ds s \<Longrightarrow> pc \<noteq> Return \<or> sp_ndone s = length (sp_ops s) \<Longrightarrow> spine_inv ks ds (s\<lparr>sp_pc := pc\<rparr>)"
  by (auto simp: spine_inv_def)

lemma finished_le: "card (finished ops) \<le> length ops"
  using card_mono [of "{..<length ops}" "finished ops"] by (auto simp: finished_def)

lemma inv_sched:
  assumes "spine_inv ks ds s" "length ds \<le> 32"
  shows "spine_inv ks ds (spine_sched s)"
proof -
  have len: "length (sp_ops s) \<le> 32" using assms by (auto simp: spine_inv_def)
  have ge: "sp_ndone s \<le> length (sp_ops s)" using assms(1) finished_le by (simp add: spine_inv_def)
  show ?thesis
  proof (cases "sp_pc s")
    case (Disp i)
    then show ?thesis
      using assms(1) inv_dispatch [OF assms(1), of i] by (auto simp: spine_sched_def intro!: inv_pc)
  next
    case (Poll k)
    then show ?thesis
      using assms(1) ge inv_poll [OF assms(1) _ _ len, of k] by (auto simp: spine_sched_def intro!: inv_pc)
  qed (use assms(1) in \<open>simp add: spine_sched_def\<close>)
qed

lemma op_inv_unit:
  "op_inv U log i p \<Longrightarrow> su_busy u = su_busy (U ! k) \<Longrightarrow> su_op u = su_op (U ! k) \<Longrightarrow> op_inv (U[k := u]) log i p"
  by (cases "k < length U") (auto simp: op_inv_def nth_list_update split: op_state.splits)

lemma inv_take:
  assumes "spine_inv ks ds s" "k < length (sp_U s)" "unit_take (sp_U s ! k) = Some u"
  shows "spine_inv ks ds (s\<lparr>sp_U := (sp_U s)[k := u]\<rparr>)"
proof -
  have u: "u = (sp_U s ! k)\<lparr>su_run := Some (su_fn (sp_U s ! k), su_gen (sp_U s ! k))\<rparr>" "su_run (sp_U s ! k) = None"
    "su_gen (sp_U s ! k) \<noteq> su_done_gen (sp_U s ! k)"
    using assms(3) by (auto simp: unit_take_def split: if_splits)
  have k: "unit_inv (sp_ops s) (sp_log s) k (sp_U s ! k)" using assms by (simp add: spine_inv_def)
  have "unit_inv (sp_ops s) (sp_log s) k u" using k unfolding u(1) unit_inv_def by (simp add: u split: if_splits)
  then have "unit_inv (sp_ops s) (sp_log s) m ((sp_U s)[k := u] ! m)" if "m < length (sp_U s)" for m
    using that assms(1) by (cases "m = k") (simp_all add: spine_inv_def)
  moreover have "map su_kind ((sp_U s)[k := u]) = map su_kind (sp_U s)"
    using assms(2) u by (simp add: map_update list_eq_iff_nth_eq nth_list_update)
  moreover have "op_inv ((sp_U s)[k := u]) (sp_log s) j (sp_ops s ! j)" if "j < length (sp_ops s)" for j
    using that assms(1) u(1) by (intro op_inv_unit) (simp_all add: spine_inv_def)
  ultimately show ?thesis using assms(1) by (auto simp: spine_inv_def)
qed

lemma inv_post:
  assumes "spine_inv ks ds s" "k < length (sp_U s)" "unit_post r (sp_U s ! k) = Some (i, u)"
  shows "spine_inv ks ds (s\<lparr>sp_U := (sp_U s)[k := u], sp_log := Finish i r # sp_log s\<rparr>)"
proof -
  let ?u = "sp_U s ! k" and ?log = "Finish i r # sp_log s"
  obtain g where g: "su_run ?u = Some (i, g)" "u = ?u\<lparr>su_ret := r, su_done_gen := g, su_run := None\<rparr>"
    using assms(3) by (auto simp: unit_post_def)
  have inv: "\<And>k. k < length (sp_U s) \<Longrightarrow> unit_inv (sp_ops s) (sp_log s) k (sp_U s ! k)"
    "\<And>i. i < length (sp_ops s) \<Longrightarrow> op_inv (sp_U s) (sp_log s) i (sp_ops s ! i)"
    "log_ok (\<lambda>i. so_deps (sp_ops s ! i)) (sp_log s)"
    using assms(1) by (auto simp: spine_inv_def)
  have k: "su_busy ?u" "i = su_op ?u" "g = su_gen ?u" "i < length (sp_ops s)" "so_state (sp_ops s ! i) = INFLIGHT"
    "so_unit (sp_ops s ! i) = int k" "so_gen (sp_ops s ! i) = su_gen ?u" "su_fn ?u = i"
    "place_ok (so_place (sp_ops s ! i)) (su_kind ?u)" "\<forall>r. Finish i r \<notin> set (sp_log s)"
    using inv(1) [OF assms(2)] g(1) by (auto simp: unit_inv_def split: if_splits)
  have st: "Start i \<in> set (sp_log s)" using inv(2) [OF k(4)] k(5) by (simp add: op_inv_def)
  have u: "unit_inv (sp_ops s) ?log m ((sp_U s)[k := u] ! m)" if m: "m < length (sp_U s)" for m
  proof (cases "m = k")
    case True
    then show ?thesis using k g assms(2) by (simp add: unit_inv_def)
  next
    case False
    have "su_busy (sp_U s ! m) \<longrightarrow> su_op (sp_U s ! m) \<noteq> i"
      using inv(1) [OF m] False k(6) by (auto simp: unit_inv_def)
    then have "unit_inv ((sp_ops s)[i := sp_ops s ! i]) ?log m (sp_U s ! m)"
      using inv(1) [OF m] by (intro unit_inv_other [OF inv(1) [OF m] refl]) auto
    then show ?thesis using False by simp
  qed
  have o: "op_inv ((sp_U s)[k := u]) ?log j (sp_ops s ! j)" if j: "j < length (sp_ops s)" for j
  proof -
    have "op_inv (sp_U s) ?log j (sp_ops s ! j)"
      using inv(2) [OF j] k(5) by (auto simp: op_inv_def split: op_state.splits)
    then show ?thesis using g(2) by (intro op_inv_unit) simp_all
  qed
  have m: "map su_kind ((sp_U s)[k := u]) = map su_kind (sp_U s)"
    using assms(2) g(2) by (simp add: map_update list_eq_iff_nth_eq nth_list_update)
  show ?thesis using u o m assms(1) st k(10) by (auto simp: spine_inv_def)
qed

lemma inv_step: "spine_step s s' \<Longrightarrow> spine_inv ks ds s \<Longrightarrow> length ds \<le> 32 \<Longrightarrow> spine_inv ks ds s'"
  by (erule spine_stepE) (auto intro: inv_sched inv_take inv_post)

lemma inv_reach: "spine_step\<^sup>*\<^sup>* s s' \<Longrightarrow> spine_inv ks ds s \<Longrightarrow> length ds \<le> 32 \<Longrightarrow> spine_inv ks ds s'"
  by (induction rule: rtranclp_induct) (auto intro: inv_step)

definition units_idle :: "spine_unit list \<Rightarrow> bool" where
  "units_idle U = list_all (\<lambda>u. su_gen u = su_done_gen u \<and> su_run u = None) U"

lemma inv_begin:
  assumes "spine_begin U ops = Some s" "units_idle U"
  shows "spine_inv (map su_kind U) (map (\<lambda>p. (so_deps p, so_place p)) ops) s"
  using assms by (auto simp: spine_begin_def spine_inv_def unit_inv_def op_inv_def done_inv_def finished_def
      units_idle_def list_all_iff Let_def split: if_splits)

lemma begin_npu: "spine_begin U ops = Some s \<Longrightarrow> length (filter ((=) UNIT_NPU) (map su_kind U)) \<le> 1"
  by (auto simp: spine_begin_def Let_def filter_map comp_def eq_commute [of UNIT_NPU] split: if_splits)

lemma nth_beyond: "length xs \<le> n \<Longrightarrow> xs ! n = [] ! (n - length xs)"
  by (induction xs arbitrary: n) (auto simp: nth_Cons' Suc_le_eq)

lemma map_nth_eq:
  assumes "map f xs = map f ys"
  shows "f (xs ! i) = f (ys ! i)"
proof (cases "i < length xs")
  case True
  with assms show ?thesis by (metis length_map nth_map)
next
  case False
  with assms show ?thesis by (metis length_map linorder_not_less nth_beyond)
qed

lemma one_of:
  assumes "length (filter P xs) \<le> 1" "i < length xs" "j < length xs" "P (xs ! i)" "P (xs ! j)"
  shows "i = j"
proof -
  have "card {i. i < length xs \<and> P (xs ! i)} \<le> 1" using assms(1) by (simp add: length_filter_conv_card)
  then show ?thesis using assms(2-5) by (auto simp: card_le_Suc0_iff_eq)
qed


text \<open>
  C33: \<open>ork_spine_run\<close>, on idle units and at most 32 operations, in every order its workers may run in: an
  operation starts once, only after every operation of its dependency mask has finished, and finishes once;
  at most one operation is on an NPU unit at a time; an operation runs on a unit of the kind its placement
  names; and when the call returns every operation has finished and its \<open>ret\<close> is what its function returned.
\<close>

theorem spine_run_safe:
  assumes "spine_begin U ops = Some s0" "units_idle U" "length ops \<le> 32" "spine_step\<^sup>*\<^sup>* s0 s"
  shows "log_ok (\<lambda>i. so_deps (ops ! i)) (sp_log s)
   \<and> card {i. i < length ops \<and> so_state (sp_ops s ! i) = INFLIGHT
             \<and> su_kind (sp_U s ! nat (so_unit (sp_ops s ! i))) = UNIT_NPU} \<le> 1
   \<and> (\<forall>k < length U. su_busy (sp_U s ! k) \<longrightarrow> place_ok (so_place (ops ! su_op (sp_U s ! k))) (su_kind (U ! k)))
   \<and> (sp_pc s = Return \<longrightarrow> (\<forall>i < length ops. so_state (sp_ops s ! i) = FINISHED \<and> Start i \<in> set (sp_log s)
                                        \<and> Finish i (so_ret (sp_ops s ! i)) \<in> set (sp_log s)))"
proof -
  let ?ks = "map su_kind U" and ?ds = "map (\<lambda>p. (so_deps p, so_place p)) ops"
  have inv: "spine_inv ?ks ?ds s" using inv_reach [OF assms(4) inv_begin [OF assms(1,2)]] assms(3) by simp
  have ks: "map su_kind (sp_U s) = ?ks" and ds: "map (\<lambda>p. (so_deps p, so_place p)) (sp_ops s) = ?ds"
    using inv by (auto simp: spine_inv_def)
  have len: "length (sp_U s) = length U" "length (sp_ops s) = length ops" using ks ds map_eq_imp_length_eq by blast+
  have dep: "so_deps (sp_ops s ! i) = so_deps (ops ! i)" and pl: "so_place (sp_ops s ! i) = so_place (ops ! i)" for i
    using map_nth_eq [OF ds, of i] by auto
  have kind: "su_kind (sp_U s ! k) = su_kind (U ! k)" for k using map_nth_eq [OF ks, of k] .
  have log: "log_ok (\<lambda>i. so_deps (ops ! i)) (sp_log s)" using inv by (simp add: spine_inv_def dep)
  have op: "\<And>i. i < length ops \<Longrightarrow> op_inv (sp_U s) (sp_log s) i (sp_ops s ! i)" using inv len by (simp add: spine_inv_def)
  have un: "\<And>k. k < length U \<Longrightarrow> unit_inv (sp_ops s) (sp_log s) k (sp_U s ! k)" using inv len by (simp add: spine_inv_def)
  let ?npu = "{i. i < length ops \<and> so_state (sp_ops s ! i) = INFLIGHT
      \<and> su_kind (sp_U s ! nat (so_unit (sp_ops s ! i))) = UNIT_NPU}"
  have on: "\<exists>m < length U. su_op (sp_U s ! m) = i \<and> su_kind (U ! m) = UNIT_NPU" if i: "i \<in> ?npu" for i
    using i op [of i] len kind by (auto simp: op_inv_def)
  have "i = j" if ij: "i \<in> ?npu" "j \<in> ?npu" for i j
    using on [OF ij(1)] on [OF ij(2)] one_of [OF begin_npu [OF assms(1)]] by (metis length_map nth_map)
  then have card: "card ?npu \<le> 1" using card_le_Suc0_iff_eq [of ?npu] by auto
  have place: "\<forall>k < length U. su_busy (sp_U s ! k) \<longrightarrow> place_ok (so_place (ops ! su_op (sp_U s ! k))) (su_kind (U ! k))"
    using unit_inv_place [OF un] by (auto simp: pl kind)
  have ret: "\<forall>i < length ops. so_state (sp_ops s ! i) = FINISHED \<and> Start i \<in> set (sp_log s)
      \<and> Finish i (so_ret (sp_ops s ! i)) \<in> set (sp_log s)" if "sp_pc s = Return"
  proof -
    have "card (finished (sp_ops s)) = card {..<length ops}" using inv that len by (simp add: spine_inv_def)
    then have "finished (sp_ops s) = {..<length ops}"
      by (intro card_subset_eq) (auto simp: finished_def len)
    then have "so_state (sp_ops s ! i) = FINISHED" if "i < length ops" for i using that by (auto simp: finished_def)
    then show ?thesis using op by (simp add: op_inv_def)
  qed
  show ?thesis using log card place ret by blast
qed

text \<open>A run of one NPU operation to its return.\<close>

definition unit0 :: "unit_kind \<Rightarrow> spine_unit" where
  "unit0 k = \<lparr>su_kind = k, su_gen = 0, su_done_gen = 0, su_fn = 0, su_ret = 0, su_busy = False, su_op = 0, su_run = None\<rparr>"

definition op0 :: "u32 \<Rightarrow> spine_place \<Rightarrow> spine_op" where
  "op0 d p = \<lparr>so_deps = d, so_place = p, so_state = PEND, so_unit = - 1, so_gen = 0, so_ret = 0\<rparr>"

lemma spine_one_op:
  "\<exists>s0 s. spine_begin [unit0 UNIT_NPU] [op0 0 PL_NPU] = Some s0 \<and> spine_step\<^sup>*\<^sup>* s0 s \<and> sp_pc s = Return
     \<and> sp_log s = [Finish 0 7, Start 0]"
proof -
  obtain s0 where s0: "spine_begin [unit0 UNIT_NPU] [op0 0 PL_NPU] = Some s0" by (simp add: spine_begin_def unit0_def op0_def)
  have d: "sp_pc s0 = Disp 0" "sp_U s0 = [unit0 UNIT_NPU]" "sp_ops s0 = [op0 0 PL_NPU]" "sp_log s0 = []" "sp_done s0 = 0"
    "sp_ndone s0 = 0"
    using s0 by (auto simp: spine_begin_def unit0_def op0_def)
  let ?o = "(op0 0 PL_NPU)\<lparr>so_gen := 1, so_state := INFLIGHT, so_unit := 0\<rparr>"
  let ?u = "(unit0 UNIT_NPU)\<lparr>su_gen := 1, su_busy := True\<rparr>"
  let ?s1 = "s0\<lparr>sp_ops := [?o], sp_U := [?u], sp_log := [Start 0], sp_pc := Disp 1\<rparr>"
  let ?s2 = "?s1\<lparr>sp_U := [?u\<lparr>su_run := Some (0, 1)\<rparr>]\<rparr>"
  let ?s3 = "?s2\<lparr>sp_U := [?u\<lparr>su_ret := 7, su_done_gen := 1\<rparr>], sp_log := [Finish 0 7, Start 0]\<rparr>"
  let ?s4 = "?s3\<lparr>sp_pc := Poll 0\<rparr>"
  let ?s5 = "spine_sched ?s4"
  let ?s6 = "spine_sched ?s5"
  have "spine_sched s0 = ?s1"
    by (simp add: spine_sched_def spine_dispatch_def d op0_def unit0_def ork_spine_pick_def first_free_def
        ork_spine_unit_dispatch_def)
  then have 1: "spine_step s0 ?s1" using spine_step.sched [of s0] d by simp
  have 2: "spine_step ?s1 ?s2"
    using spine_step.take [of 0 ?s1] by (simp add: unit_take_def unit0_def)
  have 3: "spine_step ?s2 ?s3"
    using spine_step.post [of 0 ?s2 7] by (simp add: unit_post_def unit0_def)
  have 4: "spine_step ?s3 ?s4" using spine_step.sched [of ?s3] by (simp add: spine_sched_def)
  have 5: "spine_step ?s4 ?s5" "spine_step ?s5 ?s6"
    by (rule spine_step.sched, simp add: spine_sched_def)+
  have "sp_pc ?s6 = Return" "sp_log ?s6 = [Finish 0 7, Start 0]"
    by (simp_all add: spine_sched_def spine_poll_def ork_spine_unit_poll_def Let_def d unit0_def op0_def)
  moreover have "spine_step\<^sup>*\<^sup>* s0 ?s6"
    using 1 2 3 4 5 by (meson converse_rtranclp_into_rtranclp rtranclp.rtrancl_refl)
  ultimately show ?thesis using s0 by blast
qed

lemma spine_run_safe_witness:
  "\<exists>s0 s. spine_begin [unit0 UNIT_NPU] [op0 0 PL_NPU] = Some s0 \<and> spine_step\<^sup>*\<^sup>* s0 s \<and> sp_pc s = Return
     \<and> Finish 0 (so_ret (sp_ops s ! 0)) \<in> set (sp_log s) \<and> sp_log s = [Finish 0 7, Start 0]"
proof -
  obtain s0 s where s: "spine_begin [unit0 UNIT_NPU] [op0 0 PL_NPU] = Some s0" "spine_step\<^sup>*\<^sup>* s0 s" "sp_pc s = Return"
    "sp_log s = [Finish 0 7, Start 0]" using spine_one_op by blast
  from spine_run_safe [OF s(1) _ _ s(2)] s(3) have "Finish 0 (so_ret (sp_ops s ! 0)) \<in> set (sp_log s)"
    by (simp add: units_idle_def unit0_def)
  with s show ?thesis by blast
qed


subsection \<open>The run can always complete\<close>

text \<open>What a worker does between two steps of the scheduler leaves alone what the scheduler keeps.\<close>

definition same_sched :: "spine \<Rightarrow> spine \<Rightarrow> bool" where
  "same_sched s s' \<longleftrightarrow> sp_pc s' = sp_pc s \<and> sp_ops s' = sp_ops s \<and> sp_ndone s' = sp_ndone s \<and> sp_done s' = sp_done s
     \<and> length (sp_U s') = length (sp_U s) \<and> (\<forall>k < length (sp_U s). su_busy (sp_U s' ! k) = su_busy (sp_U s ! k))"

definition posted :: "spine_unit \<Rightarrow> bool" where
  "posted u \<longleftrightarrow> su_gen u = su_done_gen u"

lemma same_trans: "same_sched s s' \<Longrightarrow> same_sched s' s'' \<Longrightarrow> same_sched s s''"
  by (auto simp: same_sched_def)

lemma post_running:
  assumes "spine_inv ks ds s" "k < length (sp_U s)" "su_run (sp_U s ! k) \<noteq> None"
  shows "\<exists>s'. spine_step s s' \<and> same_sched s s' \<and> posted (sp_U s' ! k) \<and> (\<forall>m. m \<noteq> k \<longrightarrow> sp_U s' ! m = sp_U s ! m)"
proof -
  obtain i g where g: "su_run (sp_U s ! k) = Some (i, g)" using assms(3) by auto
  let ?u = "(sp_U s ! k)\<lparr>su_ret := 0, su_done_gen := g, su_run := None\<rparr>"
  let ?s = "s\<lparr>sp_U := (sp_U s)[k := ?u], sp_log := Finish i 0 # sp_log s\<rparr>"
  have "spine_step s ?s" using spine_step.post [OF assms(2), of 0 i ?u] g by (simp add: unit_post_def)
  moreover have "posted ?u" using unit_inv_run [OF _ g] assms(1,2) by (auto simp: spine_inv_def posted_def)
  ultimately show ?thesis using assms(2) by (intro exI [of _ ?s]) (simp add: same_sched_def nth_list_update)
qed

lemma post_unit:
  assumes "spine_inv ks ds s" "length ds \<le> 32" "k < length (sp_U s)"
  shows "\<exists>s'. spine_step\<^sup>*\<^sup>* s s' \<and> same_sched s s' \<and> posted (sp_U s' ! k) \<and> (\<forall>m. m \<noteq> k \<longrightarrow> sp_U s' ! m = sp_U s ! m)"
proof (cases "posted (sp_U s ! k)")
  case True
  then show ?thesis by (intro exI [of _ s]) (simp add: same_sched_def)
next
  case np: False
  show ?thesis
  proof (cases "su_run (sp_U s ! k) = None")
    case False
    from post_running [OF assms(1,3) False] show ?thesis by (blast intro: r_into_rtranclp [of spine_step])
  next
    case True
    let ?u = "(sp_U s ! k)\<lparr>su_run := Some (su_fn (sp_U s ! k), su_gen (sp_U s ! k))\<rparr>"
    let ?s = "s\<lparr>sp_U := (sp_U s)[k := ?u]\<rparr>"
    have step: "spine_step s ?s"
      using spine_step.take [OF assms(3)] np True by (simp add: unit_take_def posted_def)
    obtain s' where s': "spine_step ?s s'" "same_sched ?s s'" "posted (sp_U s' ! k)"
      "\<forall>m. m \<noteq> k \<longrightarrow> sp_U s' ! m = sp_U ?s ! m"
      using post_running [OF inv_step [OF step assms(1,2)], of k] assms(3) by auto
    have "same_sched s ?s" using assms(3) by (simp add: same_sched_def nth_list_update)
    then have "same_sched s s'" using s'(2) same_trans by blast
    moreover have "spine_step\<^sup>*\<^sup>* s s'"
      using converse_rtranclp_into_rtranclp [of spine_step, OF step] r_into_rtranclp [of spine_step, OF s'(1)] by blast
    moreover have "\<forall>m. m \<noteq> k \<longrightarrow> sp_U s' ! m = sp_U s ! m" using s'(4) by simp
    ultimately show ?thesis using s'(3) by blast
  qed
qed

lemma drain:
  assumes "spine_inv ks ds s" "length ds \<le> 32" "n \<le> length (sp_U s)"
  shows "\<exists>s'. spine_step\<^sup>*\<^sup>* s s' \<and> same_sched s s' \<and> (\<forall>k < n. posted (sp_U s' ! k))"
  using assms(3)
proof (induction n)
  case 0
  show ?case by (intro exI [of _ s]) (simp add: same_sched_def)
next
  case (Suc n)
  then obtain s1 where s1: "spine_step\<^sup>*\<^sup>* s s1" "same_sched s s1" "\<forall>k < n. posted (sp_U s1 ! k)" by auto
  have "n < length (sp_U s1)" using s1(2) Suc.prems by (simp add: same_sched_def)
  with post_unit [OF inv_reach [OF s1(1) assms(1,2)] assms(2)] obtain s2
    where s2: "spine_step\<^sup>*\<^sup>* s1 s2" "same_sched s1 s2" "posted (sp_U s2 ! n)" "\<forall>m. m \<noteq> n \<longrightarrow> sp_U s2 ! m = sp_U s1 ! m"
    by blast
  have "\<forall>k < Suc n. posted (sp_U s2 ! k)" using s1(3) s2(3,4) by (auto simp: less_Suc_eq)
  moreover have "same_sched s s2" using s1(2) s2(2) same_trans by blast
  moreover have "spine_step\<^sup>*\<^sup>* s s2" using rtranclp_trans [of spine_step] s1(1) s2(1) by blast
  ultimately show ?case by blast
qed

text \<open>A pass over the units that have all posted retires every operation in flight.\<close>

definition quiet :: "spine \<Rightarrow> bool" where
  "quiet s \<longleftrightarrow> (\<forall>k < length (sp_U s). \<not> su_busy (sp_U s ! k))"

lemma poll_pass:
  assumes "spine_inv ks ds s" "length ds \<le> 32" "sp_pc s = Poll k" "k \<le> length (sp_U s)"
    "\<forall>m < length (sp_U s). posted (sp_U s ! m)" "\<forall>m < k. \<not> su_busy (sp_U s ! m)"
  shows "\<exists>s'. spine_step\<^sup>*\<^sup>* s s' \<and> quiet s' \<and> sp_ndone s \<le> sp_ndone s' \<and> (quiet s \<or> sp_ndone s < sp_ndone s')
           \<and> (sp_pc s' = Return \<or> sp_pc s' = Disp 0 \<and> sp_ndone s' < length ds)"
  using assms
proof (induction "length (sp_U s) - k" arbitrary: s k)
  case 0
  have ops: "length (sp_ops s) = length ds" using 0(2) by (auto simp: spine_inv_def)
  show ?case using 0 ops spine_step.sched [of s]
    by (intro exI [of _ "spine_sched s"]) (auto simp: spine_sched_def quiet_def)
next
  case (Suc n)
  let ?s = "spine_sched s"
  have k: "k < length (sp_U s)" using Suc.hyps(2) by simp
  then have sched: "?s = (spine_poll k s)\<lparr>sp_pc := Poll (k + 1)\<rparr>" using Suc.prems(3) by (simp add: spine_sched_def)
  have step: "spine_step s ?s" using spine_step.sched Suc.prems(3) by simp
  have u: "unit_inv (sp_ops s) (sp_log s) k (sp_U s ! k)" using Suc.prems(1) k by (simp add: spine_inv_def)
  have poll: "ork_spine_unit_poll (sp_U s ! k) (so_gen (sp_ops s ! su_op (sp_U s ! k)))" if "su_busy (sp_U s ! k)"
    using unit_inv_posted [OF u that] Suc.prems(5) k by (simp add: posted_def ork_spine_unit_poll_def)
  have upd: "sp_U ?s = (sp_U s)[k := (sp_U s ! k)\<lparr>su_busy := False\<rparr>]"
    "sp_ndone ?s = sp_ndone s + (if su_busy (sp_U s ! k) then 1 else 0)"
    using poll k by (auto simp: sched spine_poll_def Let_def not_busy_id)
  have q: "quiet s \<longleftrightarrow> quiet ?s \<and> \<not> su_busy (sp_U s ! k)"
    using k by (auto simp: quiet_def upd nth_list_update)
  have "\<exists>s'. spine_step\<^sup>*\<^sup>* ?s s' \<and> quiet s' \<and> sp_ndone ?s \<le> sp_ndone s' \<and> (quiet ?s \<or> sp_ndone ?s < sp_ndone s')
           \<and> (sp_pc s' = Return \<or> sp_pc s' = Disp 0 \<and> sp_ndone s' < length ds)"
  proof (rule Suc.hyps(1) [of ?s "k + 1"])
    show "n = length (sp_U ?s) - (k + 1)" using Suc.hyps(2) by (simp add: upd)
    show "spine_inv ks ds ?s" using inv_step [OF step Suc.prems(1,2)] .
    show "sp_pc ?s = Poll (k + 1)" by (simp add: sched)
    show "\<forall>m < length (sp_U ?s). posted (sp_U ?s ! m)" using Suc.prems(5) k by (simp add: upd posted_def nth_list_update)
    show "\<forall>m < k + 1. \<not> su_busy (sp_U ?s ! m)" using Suc.prems(6) k by (auto simp: upd nth_list_update less_Suc_eq)
  qed (use k Suc.prems(2) in \<open>simp_all add: upd\<close>)
  then obtain s' where s': "spine_step\<^sup>*\<^sup>* ?s s'" "quiet s'" "sp_ndone ?s \<le> sp_ndone s'" "quiet ?s \<or> sp_ndone ?s < sp_ndone s'"
    "sp_pc s' = Return \<or> sp_pc s' = Disp 0 \<and> sp_ndone s' < length ds" by blast
  have "quiet s \<or> sp_ndone s < sp_ndone s'" using s'(3,4) q upd(2) by (auto split: if_splits)
  then show ?case using s' step upd(2) by (intro exI [of _ s']) (auto intro: converse_rtranclp_into_rtranclp)
qed

text \<open>
  The graph can be run: an operation depends on earlier ones only, and one placed on the CPU, or anywhere,
  has a unit to go to (one placed on the NPU has, or the call refuses the graph).
\<close>

definition runnable :: "unit_kind list \<Rightarrow> (u32 \<times> spine_place) list \<Rightarrow> bool" where
  "runnable ks ds \<longleftrightarrow> (\<forall>i < length ds. (\<forall>j. bit (fst (ds ! i)) j \<longrightarrow> j < i) \<and> (\<exists>k \<in> set ks. place_ok (snd (ds ! i)) k))"

lemma first_free_quiet: "quiet s \<Longrightarrow> k \<in> set (map su_kind (sp_U s)) \<Longrightarrow> first_free k (sp_U s) \<noteq> None"
  by (auto simp: first_free_def find_None_iff quiet_def in_set_conv_nth)

lemma pick_quiet:
  assumes "quiet s" "k \<in> set (map su_kind (sp_U s))" "place_ok pl k"
  shows "ork_spine_pick (sp_U s) pl \<noteq> None"
  using first_free_quiet [OF assms(1,2)] assms(3)
  by (cases k; cases pl) (auto simp: ork_spine_pick_def Let_def place_ok_def)

lemma dispatch_ready:
  assumes "so_state (sp_ops s ! i) = PEND" "so_deps (sp_ops s ! i) AND sp_done s = so_deps (sp_ops s ! i)"
    "ork_spine_pick (sp_U s) (so_place (sp_ops s ! i)) \<noteq> None"
  shows "\<not> quiet (spine_dispatch i s)"
proof -
  obtain k where k: "ork_spine_pick (sp_U s) (so_place (sp_ops s ! i)) = Some k" using assms(3) by auto
  with pick_free [OF k] assms(1,2) show ?thesis
    by (auto simp: quiet_def spine_dispatch_def Let_def ork_spine_unit_dispatch_def intro!: exI [of _ k])
qed

lemma dispatch_quiet: "quiet (spine_dispatch i s) \<Longrightarrow> spine_dispatch i s = s"
proof (rule ccontr)
  assume q: "quiet (spine_dispatch i s)" "spine_dispatch i s \<noteq> s"
  then have "so_state (sp_ops s ! i) = PEND" "so_deps (sp_ops s ! i) AND sp_done s = so_deps (sp_ops s ! i)"
    "ork_spine_pick (sp_U s) (so_place (sp_ops s ! i)) \<noteq> None"
    by (auto simp: spine_dispatch_def Let_def split: if_splits option.splits)
  with dispatch_ready q(1) show False by blast
qed

text \<open>The least unfinished operation is ready when no unit is busy.\<close>

lemma least_ready:
  assumes "spine_inv ks ds s" "quiet s" "runnable ks ds" "sp_ndone s < length ds"
  shows "\<exists>m < length ds. so_state (sp_ops s ! m) = PEND \<and> so_deps (sp_ops s ! m) AND sp_done s = so_deps (sp_ops s ! m)
           \<and> ork_spine_pick (sp_U s) (so_place (sp_ops s ! m)) \<noteq> None"
proof -
  have ds: "map (\<lambda>p. (so_deps p, so_place p)) (sp_ops s) = ds" and ks: "map su_kind (sp_U s) = ks"
    and n: "sp_ndone s = card (finished (sp_ops s))" and d: "done_inv (sp_ops s) (sp_done s)"
    and op: "\<And>i. i < length (sp_ops s) \<Longrightarrow> op_inv (sp_U s) (sp_log s) i (sp_ops s ! i)"
    using assms(1) by (auto simp: spine_inv_def)
  have len: "length (sp_ops s) = length ds" using ds by auto
  have "\<not> {..<length ds} \<subseteq> finished (sp_ops s)"
    using assms(4) n card_mono [of "finished (sp_ops s)" "{..<length ds}"] by (auto simp: finished_def)
  then have ex: "\<exists>m. m < length ds \<and> m \<notin> finished (sp_ops s)" by auto
  define m where "m = (LEAST m. m < length ds \<and> m \<notin> finished (sp_ops s))"
  have m: "m < length ds" "m \<notin> finished (sp_ops s)" using LeastI_ex [OF ex] by (simp_all add: m_def)
  have less: "j \<in> finished (sp_ops s)" if "j < m" for j
    using not_less_Least [of j "\<lambda>m. m < length ds \<and> m \<notin> finished (sp_ops s)"] that m(1) by (auto simp: m_def)
  have at: "so_deps (sp_ops s ! m) = fst (ds ! m)" "so_place (sp_ops s ! m) = snd (ds ! m)"
    using m(1) len nth_map [of m "sp_ops s" "\<lambda>p. (so_deps p, so_place p)"] unfolding ds by simp_all
  have "so_state (sp_ops s ! m) \<noteq> INFLIGHT" using op [of m] m(1) assms(2) len by (auto simp: op_inv_def quiet_def)
  moreover have "so_state (sp_ops s ! m) \<noteq> FINISHED" using m len by (simp add: finished_def)
  ultimately have "so_state (sp_ops s ! m) = PEND" using op_state.exhaust by blast
  moreover have "bit (sp_done s) j" if "bit (so_deps (sp_ops s ! m)) j" for j
    using that assms(3) m(1) less [of j] d at by (auto simp: runnable_def done_inv_def finished_def)
  moreover have "ork_spine_pick (sp_U s) (so_place (sp_ops s ! m)) \<noteq> None"
    using assms(3) m(1) pick_quiet [OF assms(2)] ks at by (auto simp: runnable_def)
  ultimately show ?thesis using m(1) deps_met by blast
qed

lemma disp_pass:
  assumes "spine_inv ks ds s" "length ds \<le> 32" "runnable ks ds" "sp_pc s = Disp i" "i \<le> length ds"
    "quiet s \<longrightarrow> (\<exists>m \<ge> i. m < length ds \<and> so_state (sp_ops s ! m) = PEND \<and> so_deps (sp_ops s ! m) AND sp_done s = so_deps (sp_ops s ! m)
       \<and> ork_spine_pick (sp_U s) (so_place (sp_ops s ! m)) \<noteq> None)"
  shows "\<exists>s'. spine_step\<^sup>*\<^sup>* s s' \<and> \<not> quiet s' \<and> sp_ndone s' = sp_ndone s \<and> sp_pc s' = Poll 0"
  using assms
proof (induction "length ds - i" arbitrary: s i)
  case 0
  have ops: "length (sp_ops s) = length ds" using 0(2) by (auto simp: spine_inv_def)
  show ?case using 0 ops r_into_rtranclp [of spine_step, OF spine_step.sched [of s]]
    by (intro exI [of _ "spine_sched s"]) (auto simp: spine_sched_def quiet_def)
next
  case (Suc n)
  let ?s = "spine_sched s" and ?d = "spine_dispatch i s"
  have i: "i < length ds" "length (sp_ops s) = length ds" using Suc by (auto simp: spine_inv_def)
  then have s: "?s = ?d\<lparr>sp_pc := Disp (i + 1)\<rparr>" using Suc.prems(4) by (simp add: spine_sched_def)
  have step: "spine_step s ?s" using spine_step.sched Suc.prems(4) by simp
  have nd: "sp_ndone ?s = sp_ndone s"
    by (simp add: s spine_dispatch_def Let_def ork_spine_unit_dispatch_def split: option.splits)
  have q: "quiet ?s = quiet ?d" by (simp add: s quiet_def)
  have "\<exists>s'. spine_step\<^sup>*\<^sup>* ?s s' \<and> \<not> quiet s' \<and> sp_ndone s' = sp_ndone ?s \<and> sp_pc s' = Poll 0"
  proof (rule Suc.hyps(1) [of "i + 1"])
    show "n = length ds - (i + 1)" using Suc.hyps(2) by simp
    show "spine_inv ks ds ?s" using inv_step [OF step Suc.prems(1,2)] .
    show "quiet ?s \<longrightarrow> (\<exists>m \<ge> i + 1. m < length ds \<and> so_state (sp_ops ?s ! m) = PEND \<and> so_deps (sp_ops ?s ! m) AND sp_done ?s = so_deps (sp_ops ?s ! m)
       \<and> ork_spine_pick (sp_U ?s) (so_place (sp_ops ?s ! m)) \<noteq> None)"
    proof
      assume "quiet ?s"
      then have d: "quiet ?d" "?d = s" using q dispatch_quiet by auto
      then obtain m where m: "i \<le> m" "m < length ds" "so_state (sp_ops s ! m) = PEND" "so_deps (sp_ops s ! m) AND sp_done s = so_deps (sp_ops s ! m)"
        "ork_spine_pick (sp_U s) (so_place (sp_ops s ! m)) \<noteq> None" using Suc.prems(6) by auto
      have "m \<noteq> i" using dispatch_ready [OF m(3-5)] d by auto
      then show "\<exists>m \<ge> i + 1. m < length ds \<and> so_state (sp_ops ?s ! m) = PEND \<and> so_deps (sp_ops ?s ! m) AND sp_done ?s = so_deps (sp_ops ?s ! m)
         \<and> ork_spine_pick (sp_U ?s) (so_place (sp_ops ?s ! m)) \<noteq> None"
        using m d(2) by (intro exI [of _ m]) (simp add: s)
    qed
  qed (use i Suc.prems(2,3) in \<open>simp_all add: s\<close>)
  then show ?case using step nd by (auto intro: converse_rtranclp_into_rtranclp)
qed

text \<open>One turn of the loop from a quiet state retires an operation.\<close>

lemma run_turn:
  assumes "spine_inv ks ds s" "length ds \<le> 32" "runnable ks ds" "sp_pc s = Disp 0" "quiet s" "sp_ndone s < length ds"
  shows "\<exists>s'. spine_step\<^sup>*\<^sup>* s s' \<and> quiet s' \<and> sp_ndone s < sp_ndone s'
     \<and> (sp_pc s' = Return \<or> sp_pc s' = Disp 0 \<and> sp_ndone s' < length ds)"
proof -
  obtain s1 where s1: "spine_step\<^sup>*\<^sup>* s s1" "\<not> quiet s1" "sp_ndone s1 = sp_ndone s" "sp_pc s1 = Poll 0"
    using disp_pass [OF assms(1-4)] least_ready [OF assms(1,5,3,6)] by auto
  have inv1: "spine_inv ks ds s1" using inv_reach [OF s1(1) assms(1,2)] .
  obtain s2 where s2: "spine_step\<^sup>*\<^sup>* s1 s2" "same_sched s1 s2" "\<forall>k < length (sp_U s1). posted (sp_U s2 ! k)"
    using drain [OF inv1 assms(2), of "length (sp_U s1)"] by auto
  have eq: "sp_pc s2 = Poll 0" "sp_ndone s2 = sp_ndone s" "quiet s2 = quiet s1" "length (sp_U s2) = length (sp_U s1)"
    using s1 s2 by (auto simp: same_sched_def quiet_def)
  obtain s3 where s3: "spine_step\<^sup>*\<^sup>* s2 s3" "quiet s3" "quiet s2 \<or> sp_ndone s2 < sp_ndone s3"
    "sp_pc s3 = Return \<or> sp_pc s3 = Disp 0 \<and> sp_ndone s3 < length ds"
    using poll_pass [OF inv_reach [OF s2(1) inv1 assms(2)] assms(2) eq(1)] s2(3) unfolding eq(4) by blast
  have "sp_ndone s < sp_ndone s3" using s3(3) s1(2) eq by simp
  then show ?thesis using s3 rtranclp_trans [of spine_step, OF s1(1) rtranclp_trans [of spine_step, OF s2(1) s3(1)]] by blast
qed

lemma run_turns:
  assumes "spine_inv ks ds s" "length ds \<le> 32" "runnable ks ds" "sp_pc s = Disp 0" "quiet s" "sp_ndone s < length ds"
  shows "\<exists>s'. spine_step\<^sup>*\<^sup>* s s' \<and> sp_pc s' = Return"
  using assms
proof (induction "length ds - sp_ndone s" arbitrary: s rule: less_induct)
  case less
  obtain s' where s': "spine_step\<^sup>*\<^sup>* s s'" "quiet s'" "sp_ndone s < sp_ndone s'"
    "sp_pc s' = Return \<or> sp_pc s' = Disp 0 \<and> sp_ndone s' < length ds" using run_turn [OF less.prems] by blast
  show ?case
  proof (cases "sp_pc s' = Return")
    case False
    with less.hyps [of s'] s' less.prems inv_reach [OF s'(1)] rtranclp_trans [of spine_step, OF s'(1)] show ?thesis
      by (auto simp: diff_less_mono2)
  qed (use s'(1) in blast)
qed

lemma disp_any:
  assumes "spine_inv ks ds s" "length ds \<le> 32" "sp_pc s = Disp i"
  shows "\<exists>s'. spine_step\<^sup>*\<^sup>* s s' \<and> sp_pc s' = Poll 0"
  using assms
proof (induction "length ds - i" arbitrary: s i)
  case 0
  have "length (sp_ops s) = length ds" using 0(2) by (auto simp: spine_inv_def)
  with 0 r_into_rtranclp [of spine_step, OF spine_step.sched [of s]] show ?case
    by (intro exI [of _ "spine_sched s"]) (auto simp: spine_sched_def)
next
  case (Suc n)
  have "length (sp_ops s) = length ds" using Suc by (auto simp: spine_inv_def)
  then have pc: "sp_pc (spine_sched s) = Disp (i + 1)" using Suc by (simp add: spine_sched_def)
  have step: "spine_step s (spine_sched s)" using spine_step.sched Suc.prems(3) by simp
  from Suc.hyps(1) [of "i + 1", OF _ inv_step [OF step Suc.prems(1,2)] assms(2) pc] Suc.hyps(2)
  show ?case using converse_rtranclp_into_rtranclp [of spine_step, OF step] by fastforce
qed

lemma poll_any:
  assumes "spine_inv ks ds s" "length ds \<le> 32" "sp_pc s = Poll k"
  shows "\<exists>s'. spine_step\<^sup>*\<^sup>* s s' \<and> (sp_pc s' = Return \<or> sp_pc s' = Disp 0)"
  using assms
proof (induction "length ks - k" arbitrary: s k)
  case 0
  have "length (sp_U s) = length ks" using 0(2) by (auto simp: spine_inv_def)
  with 0 r_into_rtranclp [of spine_step, OF spine_step.sched [of s]] show ?case
    by (intro exI [of _ "spine_sched s"]) (auto simp: spine_sched_def)
next
  case (Suc n)
  have "length (sp_U s) = length ks" using Suc by (auto simp: spine_inv_def)
  then have pc: "sp_pc (spine_sched s) = Poll (k + 1)" using Suc by (simp add: spine_sched_def)
  have step: "spine_step s (spine_sched s)" using spine_step.sched Suc.prems(3) by simp
  from Suc.hyps(1) [of "k + 1", OF _ inv_step [OF step Suc.prems(1,2)] assms(2) pc] Suc.hyps(2)
  show ?case using converse_rtranclp_into_rtranclp [of spine_step, OF step] by fastforce
qed

lemma steps_trans:
  "spine_step\<^sup>*\<^sup>* s s' \<Longrightarrow> \<exists>s''. spine_step\<^sup>*\<^sup>* s' s'' \<and> P s'' \<Longrightarrow> \<exists>s''. spine_step\<^sup>*\<^sup>* s s'' \<and> P s''"
  using rtranclp_trans [of spine_step] by blast

lemma returns_from_poll:
  assumes "spine_inv ks ds s" "length ds \<le> 32" "runnable ks ds" "sp_pc s = Poll 0"
  shows "\<exists>s'. spine_step\<^sup>*\<^sup>* s s' \<and> sp_pc s' = Return"
proof -
  obtain s1 where s1: "spine_step\<^sup>*\<^sup>* s s1" "same_sched s s1" "\<forall>k < length (sp_U s). posted (sp_U s1 ! k)"
    using drain [OF assms(1,2), of "length (sp_U s)"] by auto
  have inv1: "spine_inv ks ds s1" using inv_reach [OF s1(1) assms(1,2)] .
  have pc: "sp_pc s1 = Poll 0" and post: "\<forall>k < length (sp_U s1). posted (sp_U s1 ! k)"
    using s1(2,3) assms(4) by (simp_all add: same_sched_def)
  have no_unit: "\<forall>m < 0. \<not> su_busy (sp_U s1 ! m)" by simp
  obtain s2 where s2: "spine_step\<^sup>*\<^sup>* s1 s2" "quiet s2"
    "sp_pc s2 = Return \<or> sp_pc s2 = Disp 0 \<and> sp_ndone s2 < length ds"
    using poll_pass [OF inv1 assms(2) pc le0 post no_unit] by (elim exE conjE) auto
  have r2: "spine_step\<^sup>*\<^sup>* s s2" using rtranclp_trans [of spine_step, OF s1(1) s2(1)] .
  show ?thesis using s2(3)
  proof
    assume "sp_pc s2 = Disp 0 \<and> sp_ndone s2 < length ds"
    then have "\<exists>s'. spine_step\<^sup>*\<^sup>* s2 s' \<and> sp_pc s' = Return"
      using run_turns [OF inv_reach [OF s2(1) inv1 assms(2)] assms(2,3) _ s2(2)] by blast
    then show ?thesis by (rule steps_trans [OF r2])
  qed (use r2 in blast)
qed

lemma returns_from_disp:
  assumes "spine_inv ks ds s" "length ds \<le> 32" "runnable ks ds" "sp_pc s = Disp i"
  shows "\<exists>s'. spine_step\<^sup>*\<^sup>* s s' \<and> sp_pc s' = Return"
proof -
  obtain s1 where s1: "spine_step\<^sup>*\<^sup>* s s1" "sp_pc s1 = Poll 0" using disp_any [OF assms(1,2,4)] by blast
  show ?thesis by (rule steps_trans [OF s1(1)], rule returns_from_poll [OF inv_reach [OF s1(1) assms(1,2)] assms(2,3) s1(2)])
qed

lemma run_returns:
  assumes "spine_inv ks ds s" "length ds \<le> 32" "runnable ks ds"
  shows "\<exists>s'. spine_step\<^sup>*\<^sup>* s s' \<and> sp_pc s' = Return"
proof (cases "sp_pc s")
  case (Disp i)
  then show ?thesis by (rule returns_from_disp [OF assms])
next
  case (Poll k)
  obtain s1 where s1: "spine_step\<^sup>*\<^sup>* s s1" "sp_pc s1 = Return \<or> sp_pc s1 = Disp 0"
    using poll_any [OF assms(1,2) Poll] by blast
  show ?thesis using s1(2)
  proof
    assume "sp_pc s1 = Disp 0"
    then show ?thesis by (rule steps_trans [OF s1(1) returns_from_disp [OF inv_reach [OF s1(1) assms(1,2)] assms(2,3)]])
  qed (use s1(1) in blast)
qed blast

text \<open>
  C32: from every state \<open>ork_spine_run\<close> can reach, on idle units and a graph of at most 32 operations that
  depend on earlier ones and have a unit of their kind, the call can still return: no order of its workers
  leads it into a deadlock.
\<close>

theorem spine_run_can_return:
  assumes "spine_begin U ops = Some s0" "units_idle U" "length ops \<le> 32"
    "runnable (map su_kind U) (map (\<lambda>p. (so_deps p, so_place p)) ops)" "spine_step\<^sup>*\<^sup>* s0 s"
  shows "\<exists>s'. spine_step\<^sup>*\<^sup>* s s' \<and> sp_pc s' = Return"
  using run_returns [OF inv_reach [OF assms(5) inv_begin [OF assms(1,2)]] _ assms(4)] assms(3) by simp

text \<open>A second operation waits for the first, on one unit each of the two kinds.\<close>

lemma spine_run_can_return_witness:
  "\<exists>s0 s. spine_begin [unit0 UNIT_NPU, unit0 UNIT_CPU] [op0 0 PL_NPU, op0 1 PL_EITHER] = Some s0
     \<and> spine_step\<^sup>*\<^sup>* s0 s \<and> sp_pc s = Return"
proof -
  obtain s0 where s0: "spine_begin [unit0 UNIT_NPU, unit0 UNIT_CPU] [op0 0 PL_NPU, op0 1 PL_EITHER] = Some s0"
    by (simp add: spine_begin_def unit0_def op0_def)
  have "runnable [UNIT_NPU, UNIT_CPU] [(0, PL_NPU), (1, PL_EITHER)]"
    by (auto simp: runnable_def place_ok_def nth_Cons' bit_1_iff)
  with spine_run_can_return [OF s0 _ _ _ rtranclp.rtrancl_refl] s0 show ?thesis
    by (auto simp: units_idle_def unit0_def op0_def)
qed

end
