(* ===== verification/I4_Tile.thy ===== *)
theory I4_Tile
  imports I8_Weight
begin

unbundle bit_operations_syntax

section \<open>The int4 tile layout and weight files: \<open>src/npu/i4/pack.c\<close>\<close>

text \<open>
  An int4 weight is given as one byte per code; its tiles keep the low four bits, two to a byte, element
  \<open>(k0+kt*32+kk, n0+nb*64+nl)\<close> of a slice at nibble \<open>((nb*KT+kt)*64+nl)*32+kk\<close>. The loops are lists of
  bytes or-ed into a cleared buffer. Contexts, sizes and \<open>mem\<close> are as in theories \<open>I8_Tile\<close> and \<open>I8_Weight\<close>;
  a weight that loads as int8 is that theory's \<open>i8_w\<close>. The daemon's branch and the sliced companion of
  \<open>ork_i4_mm_pack\<close>, and cache syncs, are not modelled.
\<close>

subsection \<open>Nibbles\<close>

definition or_bytes :: "(nat \<times> byte) list \<Rightarrow> byte list \<Rightarrow> byte list" where
  "or_bytes ws b = fold (\<lambda>(i, v) b. b[i := b ! i OR v]) ws b"

definition nib_at :: "nat \<Rightarrow> byte \<Rightarrow> nat \<times> byte" where
  "nib_at idx v = (idx div 2, if odd idx then push_bit 4 v else v)"

definition get_nib :: "byte list \<Rightarrow> nat \<Rightarrow> byte" where
  "get_nib bb idx = drop_bit (if odd idx then 4 else 0) (bb ! (idx div 2)) AND 0xf"

definition nib_code :: "byte \<Rightarrow> byte" where
  "nib_code v = (if 8 \<le> v then v - 16 else v)"

definition clear_front :: "nat \<Rightarrow> byte list \<Rightarrow> byte list" where
  "clear_front n b = replicate n 0 @ drop n b"

subsection \<open>The tilers\<close>

definition i4_walk :: "nat \<Rightarrow> nat \<Rightarrow> cell list" where
  "i4_walk NB KT = [(nb, kt, nl, kk). nb \<leftarrow> [0..<NB], kt \<leftarrow> [0..<KT], nl \<leftarrow> [0..<64], kk \<leftarrow> [0..<32]]"

fun i4_ix :: "nat \<Rightarrow> cell \<Rightarrow> nat" where
  "i4_ix KT (nb, kt, nl, kk) = ((nb * KT + kt) * 64 + nl) * 32 + kk"

fun i4_src :: "nat \<Rightarrow> slice \<Rightarrow> cell \<Rightarrow> nat" where
  "i4_src N (n0, Nc, k0, Kp) (nb, kt, nl, kk) = (k0 + kt * 32 + kk) * N + (n0 + nb * 64 + nl)"

fun tile_i4_Bslice :: "byte list \<Rightarrow> nat \<Rightarrow> slice \<Rightarrow> byte list \<Rightarrow> byte list" where
  "tile_i4_Bslice B N (n0, Nc, k0, Kp) dst =
     or_bytes (map (\<lambda>x. nib_at (i4_ix (Kp div 32) x) (B ! i4_src N (n0, Nc, k0, Kp) x AND 0xf)) (i4_walk (Nc div 64) (Kp div 32)))
       (clear_front (Kp * Nc div 2) dst)"

text \<open>Activation rows: the vector loop, sixteen codes to eight bytes, and the scalar one.\<close>

definition vuzp_val0 :: "byte list \<Rightarrow> byte list \<Rightarrow> byte list" where
  "vuzp_val0 u v = map (\<lambda>i. (u @ v) ! (2 * i)) [0..<length u]"

definition vuzp_val1 :: "byte list \<Rightarrow> byte list \<Rightarrow> byte list" where
  "vuzp_val1 u v = map (\<lambda>i. (u @ v) ! (2 * i + 1)) [0..<length u]"

definition aslice_block :: "byte list \<Rightarrow> byte list" where
  "aslice_block v =
     (let m = map (\<lambda>x. x AND 0xf) v in map2 (\<lambda>e d. e OR push_bit 4 d) (take 8 (vuzp_val0 m m)) (take 8 (vuzp_val1 m m)))"

definition orki_i4_tile_Aslice :: "bool \<Rightarrow> byte list \<Rightarrow> nat \<Rightarrow> nat \<Rightarrow> byte list \<Rightarrow> byte list" where
  "orki_i4_tile_Aslice neon Arow k0 Kp dst =
     (if neon then
        fold (\<lambda>b d. place (b * 16 div 2) (aslice_block (take 16 (drop (k0 + b * 16) Arow))) d) [0..<Kp div 16] dst
      else
        or_bytes [nib_at (kt * 32 + kk) (Arow ! (k0 + kt * 32 + kk) AND 0xf). kt \<leftarrow> [0..<Kp div 32], kk \<leftarrow> [0..<32]]
          (clear_front (Kp div 2) dst))"

definition tile_i4_Aslice_mm :: "byte list \<Rightarrow> nat \<Rightarrow> nat \<Rightarrow> nat \<Rightarrow> nat \<Rightarrow> byte list \<Rightarrow> byte list" where
  "tile_i4_Aslice_mm A M K k0 Kp dst =
     or_bytes [nib_at ((kt * M + m) * 32 + kk) (A ! (m * K + k0 + kt * 32 + kk) AND 0xf).
                 kt \<leftarrow> [0..<Kp div 32], m \<leftarrow> [0..<M], kk \<leftarrow> [0..<32]]
       (clear_front (M * Kp div 2) dst)"

text \<open>The probe's tilers; \<open>nib\<close> swaps the halves of every byte.\<close>

definition nib_at' :: "bool \<Rightarrow> nat \<Rightarrow> byte \<Rightarrow> nat \<times> byte" where
  "nib_at' nib idx v = (idx div 2, if odd idx \<noteq> nib then push_bit 4 v else v)"

definition orki_i4_tile_A :: "byte list \<Rightarrow> nat \<Rightarrow> nat \<Rightarrow> bool \<Rightarrow> byte list \<Rightarrow> byte list" where
  "orki_i4_tile_A A M K nib dst =
     or_bytes [nib_at' nib ((kt * M + m) * 32 + kk) (A ! (m * K + kt * 32 + kk) AND 0xf).
                 kt \<leftarrow> [0..<K div 32], m \<leftarrow> [0..<M], kk \<leftarrow> [0..<32]]
       (clear_front (M * K div 2) dst)"

definition orki_i4_tile_B :: "byte list \<Rightarrow> nat \<Rightarrow> nat \<Rightarrow> bool \<Rightarrow> byte list \<Rightarrow> byte list" where
  "orki_i4_tile_B B K N nib dst =
     or_bytes (map (\<lambda>x. nib_at' nib (i4_ix (K div 32) x) (B ! i4_src N (0, N, 0, K) x AND 0xf)) (i4_walk (N div 64) (K div 32)))
       (clear_front (K * N div 2) dst)"

subsection \<open>Dumping\<close>

fun i4_size :: "slice \<Rightarrow> nat" where
  "i4_size (n0, Nc, k0, Kp) = orki_pgup (Kp * Nc div 2)"

fun dump_i4 :: "byte list \<Rightarrow> nat \<Rightarrow> nat \<Rightarrow> slice list \<Rightarrow> nat \<Rightarrow> byte list option \<Rightarrow> nat \<times> byte list option" where
  "dump_i4 B N cap [] off out = (off, out)"
| "dump_i4 B N cap (s # ss) off out =
     (let tsz = i4_size s in
      case out of None \<Rightarrow> dump_i4 B N cap ss (off + tsz) None
      | Some bs \<Rightarrow>
        if off + tsz > cap then (0, Some bs)
        else dump_i4 B N cap ss (off + tsz) (Some (place off (tile_i4_Bslice B N s (replicate tsz 0)) bs)))"

definition orki_i4_w_dump_cpu_body :: "ork_soc option \<Rightarrow> nat \<Rightarrow> nat \<Rightarrow> byte list option \<Rightarrow> byte list option \<Rightarrow> nat
    \<Rightarrow> nat \<times> byte list option" where
  "orki_i4_w_dump_cpu_body c K N B out cap =
     (case (c, B) of (Some soc, Some Bi) \<Rightarrow>
        if K mod 32 \<noteq> 0 \<or> N mod 64 \<noteq> 0 then (0, out)
        else dump_i4 Bi N cap (w_slices ORK_I4_KS (nat (soc_nmax soc)) K N) 0 out
      | _ \<Rightarrow> (0, out))"

definition ork_i4_w_dump_cpu :: "ork_soc option \<Rightarrow> ork_soc option \<Rightarrow> nat \<Rightarrow> nat \<Rightarrow> byte list option \<Rightarrow> byte list option \<Rightarrow> nat
    \<Rightarrow> nat \<times> byte list option" where
  "ork_i4_w_dump_cpu det c K N B out cap =
     (if out \<noteq> None \<and> cap < ORK_PACK_HDR_BYTES then (0, out)
      else
        let out = orki_pack_stamp det (map_option Some c) out 2 (int K) (int N);
            cap = (if cap > ORK_PACK_HDR_BYTES then cap - ORK_PACK_HDR_BYTES else 0);
            (body, out') = orki_i4_w_dump_cpu_body c K N B (map_option (drop ORK_PACK_HDR_BYTES) out) cap
        in (if body \<noteq> 0 then body + ORK_PACK_HDR_BYTES else 0,
            map_option (\<lambda>bs. take ORK_PACK_HDR_BYTES (the out) @ bs) out'))"

subsection \<open>Un-tiling\<close>

fun untile_i4_writes :: "nat \<Rightarrow> slice \<Rightarrow> byte list \<Rightarrow> (nat \<times> byte) list" where
  "untile_i4_writes N (n0, Nc, k0, Kp) bb =
     map (\<lambda>x. (i4_src N (n0, Nc, k0, Kp) x, nib_code (get_nib bb (i4_ix (Kp div 32) x)))) (i4_walk (Nc div 64) (Kp div 32))"

text \<open>The walk's outcome (\<open>False\<close>: a tile runs past the \<open>n\<close> bytes), its end and the codes.\<close>

fun untile_i4 :: "nat \<Rightarrow> nat \<Rightarrow> byte list \<Rightarrow> slice list \<Rightarrow> nat \<Rightarrow> byte list \<Rightarrow> bool \<times> nat \<times> byte list" where
  "untile_i4 N n src [] off codes = (True, off, codes)"
| "untile_i4 N n src (s # ss) off codes =
     (let tsz = i4_size s in
      if off + tsz > n then (False, off, codes)
      else untile_i4 N n src ss (off + tsz) (poke (untile_i4_writes N s (drop off src)) codes))"

definition orki_i4_untile_blob :: "ork_soc option \<Rightarrow> nat \<Rightarrow> nat \<Rightarrow> byte list option \<Rightarrow> nat \<Rightarrow> byte list option
    \<Rightarrow> int \<times> byte list option" where
  "orki_i4_untile_blob c K N blob n codes =
     (case (c, blob, codes) of (Some soc, Some src, Some cs) \<Rightarrow>
        if K mod 32 \<noteq> 0 \<or> N mod 64 \<noteq> 0 then (- 1, codes)
        else let (ok, off, cs) = untile_i4 N n src (w_slices ORK_I4_KS (nat (soc_nmax soc)) K N) 0 cs
             in (if ok \<and> off = n then 0 else - 1, Some cs)
      | _ \<Rightarrow> (- 1, codes))"

text \<open>The CPU kernels' layout: one output channel after the other. \<open>junk\<close> is what \<open>malloc\<close> hands out.\<close>

definition cpu_blob_writes :: "nat \<Rightarrow> nat \<Rightarrow> byte list \<Rightarrow> (nat \<times> byte) list" where
  "cpu_blob_writes K N codes =
     [(nn * (K div 2) + j, (codes ! (2 * j * N + nn) AND 0xf) OR push_bit 4 (codes ! ((2 * j + 1) * N + nn) AND 0xf)).
        nn \<leftarrow> [0..<N], j \<leftarrow> [0..<K div 2]]"

definition ork_i4_cpu_blob_from_tiled :: "(nat \<Rightarrow> byte list) \<Rightarrow> ork_soc option \<Rightarrow> nat \<Rightarrow> nat \<Rightarrow> byte list option \<Rightarrow> nat
    \<Rightarrow> byte list option \<Rightarrow> nat \<Rightarrow> nat \<times> byte list option" where
  "ork_i4_cpu_blob_from_tiled junk c K N blob n out cap =
     (if c = None \<or> K = 0 \<or> N = 0 \<or> odd K then (0, out)
      else let need = N * (K div 2) in
        case out of None \<Rightarrow> (need, None)
        | Some o' \<Rightarrow>
          if cap < need then (0, out)
          else let (rc, codes) = orki_i4_untile_blob c K N blob n (Some (junk (K * N))) in
            if rc \<noteq> 0 then (0, out) else (need, Some (poke (cpu_blob_writes K N (the codes)) o')))"

subsection \<open>Resident int4 weights\<close>

record i4_w =
  xw_K :: nat
  xw_N :: nat
  xw_Sk :: nat
  xw_Sn :: nat
  xw_owns :: bool
  xw_dom :: int
  xw_gsize :: nat
  xw_codes :: "byte list option"
  xw_own :: "buf option"
  xw_Bb :: "filled list"

definition new_i4 :: "nat \<Rightarrow> nat \<Rightarrow> nat \<Rightarrow> nat \<Rightarrow> int \<Rightarrow> i4_w" where
  "new_i4 K N Sk Sn d = \<lparr>xw_K = K, xw_N = N, xw_Sk = Sk, xw_Sn = Sn, xw_owns = True, xw_dom = d, xw_gsize = 0,
     xw_codes = None, xw_own = None, xw_Bb = []\<rparr>"

definition ork_i4_mm_pack :: "i8_env \<Rightarrow> kernel \<Rightarrow> mem \<Rightarrow> i8_ctx \<Rightarrow> nat \<Rightarrow> nat \<Rightarrow> byte list \<Rightarrow> kst \<Rightarrow> i4_w option \<times> kst" where
  "ork_i4_mm_pack v an mem c K N B st =
     (if K mod 32 \<noteq> 0 \<or> N mod 64 \<noteq> 0 then (None, st)
      else if ic_fd c < 0 then (Some ((new_i4 K N 1 1 0)\<lparr>xw_codes := Some (take (K * N) B)\<rparr>), st)
      else
        let KS = ORK_I4_KS; NMAX = nmax_of c;
            w = new_i4 K N ((K + KS - 1) div KS) ((N + NMAX - 1) div NMAX) (ork_dom (ie_dom v) (ic_pack_dom c));
            (bb, st) = fill_bufs (ie_dom v) an 0x403 (xw_dom w)
              (map (\<lambda>s. (snd (snd (snd s)) * fst (snd s) div 2, \<lambda>i n. tile_i4_Bslice B N s (mem i n))) (w_slices KS NMAX K N)) [] st
        in (map_option (\<lambda>bb. w\<lparr>xw_Bb := bb\<rparr>) bb, st))"

fun load_i4_bb :: "dom_env \<Rightarrow> kernel \<Rightarrow> int \<Rightarrow> byte list \<Rightarrow> slice list \<Rightarrow> nat \<Rightarrow> filled list \<Rightarrow> kst \<Rightarrow> filled list option \<times> kst" where
  "load_i4_bb e an d blob [] off acc st = (Some acc, st)"
| "load_i4_bb e an d blob ((n0, Nc, k0, Kp) # ss) off acc st =
     (let (b, st') = k_create e an (Kp * Nc div 2) 0x403 d st in
      if bf_cpu b = 0 then (None, k_destroy_all an acc st')
      else load_i4_bb e an d blob ss (off + bf_size b) (acc @ [(b, take (bf_size b) (drop off blob))]) st')"

definition ork_i4_mm_load :: "ork_soc option \<Rightarrow> i8_env \<Rightarrow> kernel \<Rightarrow> i8_ctx \<Rightarrow> nat \<Rightarrow> nat \<Rightarrow> byte list option \<Rightarrow> nat \<Rightarrow> kst
    \<Rightarrow> i4_w option \<times> kst" where
  "ork_i4_mm_load det v an c K N blob n st =
     (if orki_pack_check det (Some (Some (ic_soc c))) blob n 2 (int K) (int N) \<noteq> PACK_OK' then (None, st)
      else
        let body = drop ORK_PACK_HDR_BYTES (the blob); n = n - ORK_PACK_HDR_BYTES; KS = ORK_I4_KS; NMAX = nmax_of c;
            ss = w_slices KS NMAX K N
        in if K mod 32 \<noteq> 0 \<or> N mod 64 \<noteq> 0 then (None, st)
        else if ic_fd c < 0 then
          let (ok, off, codes) = untile_i4 N n body ss 0 (replicate (K * N) 0)
          in (if ok then Some ((new_i4 K N 1 1 0)\<lparr>xw_codes := Some codes\<rparr>) else None, st)
        else if n \<noteq> (\<Sum>s\<leftarrow>ss. i4_size s) then (None, st)
        else
          let w = new_i4 K N ((K + KS - 1) div KS) ((N + NMAX - 1) div NMAX) (ork_dom (ie_dom v) (ic_pack_dom c));
              (bb, st) = load_i4_bb (ie_dom v) an (xw_dom w) body ss 0 [] st
          in (map_option (\<lambda>bb. w\<lparr>xw_Bb := bb\<rparr>) bb, st))"


subsection \<open>Nibbles of a buffer\<close>

lemma f_mask: "(0xf :: byte) = mask 4"
  by (simp add: mask_eq_exp_minus_1)

lemma nib_or:
  fixes x m :: byte
  assumes "m AND 0xf = m"
  shows "(x OR m) AND 0xf = (x AND 0xf) OR m" "drop_bit 4 (x OR m) AND 0xf = drop_bit 4 x AND 0xf"
    "(x OR push_bit 4 m) AND 0xf = x AND 0xf" "drop_bit 4 (x OR push_bit 4 m) AND 0xf = (drop_bit 4 x AND 0xf) OR m"
proof -
  have m: "bit m n \<longrightarrow> n < 4" for n
  proof
    assume "bit m n"
    then have "bit (m AND mask 4) n" using assms by (simp only: f_mask)
    then show "n < 4" by (simp add: bit_and_iff bit_mask_iff)
  qed
  show "(x OR m) AND 0xf = (x AND 0xf) OR m" "drop_bit 4 (x OR m) AND 0xf = drop_bit 4 x AND 0xf"
    "(x OR push_bit 4 m) AND 0xf = x AND 0xf" "drop_bit 4 (x OR push_bit 4 m) AND 0xf = (drop_bit 4 x AND 0xf) OR m"
    unfolding f_mask by (rule bit_eqI; use m in \<open>auto simp: bit_simps\<close>)+
qed

lemma length_or_bytes [simp]: "length (or_bytes ws b) = length b"
  unfolding or_bytes_def by (induction ws arbitrary: b) (auto simp: case_prod_unfold)

lemma or_bytes_Cons: "or_bytes (w # ws) b = or_bytes ws (b[fst w := b ! fst w OR snd w])"
  by (simp add: or_bytes_def case_prod_unfold)

lemma get_nib_put:
  fixes m :: byte
  assumes "j div 2 < length b" "m AND 0xf = m"
  shows "get_nib (b[fst (nib_at i m) := b ! fst (nib_at i m) OR snd (nib_at i m)]) j = (if j = i then get_nib b j OR m else get_nib b j)"
proof (cases "j div 2 = i div 2")
  case True
  then have "j = i \<longleftrightarrow> odd j = odd i" by (metis odd_two_times_div_two_succ dvd_mult_div_cancel)
  with True assms(1) show ?thesis
    by (cases "odd i"; cases "odd j") (simp_all add: get_nib_def nib_at_def nib_or [OF assms(2)] del: drop_bit_or)
qed (auto simp: get_nib_def nib_at_def)

text \<open>Or-ing in nibbles that agree with one function adds its values where they went.\<close>

lemma or_nibs_agree:
  "\<forall>x \<in> set xs. v x = F (ix x) \<Longrightarrow> \<forall>i. F i AND 0xf = F i \<Longrightarrow> j div 2 < length b \<Longrightarrow>
     get_nib (or_bytes (map (\<lambda>x. nib_at (ix x) (v x)) xs) b) j = (if j \<in> ix ` set xs then get_nib b j OR F j else get_nib b j)"
proof (induction xs arbitrary: b)
  case Nil
  then show ?case by (simp add: or_bytes_def)
next
  case (Cons x xs)
  let ?m = "F (ix x)"
  let ?b = "b[fst (nib_at (ix x) ?m) := b ! fst (nib_at (ix x) ?m) OR snd (nib_at (ix x) ?m)]"
  have "get_nib (or_bytes (map (\<lambda>x. nib_at (ix x) (v x)) (x # xs)) b) j = get_nib (or_bytes (map (\<lambda>x. nib_at (ix x) (v x)) xs) ?b) j"
    using Cons.prems(1) by (simp add: or_bytes_Cons)
  also have "\<dots> = (if j \<in> ix ` set xs then get_nib ?b j OR F j else get_nib ?b j)"
    using Cons.prems by (intro Cons.IH) auto
  finally show ?case using get_nib_put [OF Cons.prems(3) spec [OF Cons.prems(2)], of "ix x"] by (auto simp: or.assoc)
qed

lemma get_nib_clear: "j < n * 2 \<Longrightarrow> get_nib (clear_front n b) j = 0"
  by (auto simp: get_nib_def clear_front_def nth_append)

lemma length_clear_front: "n \<le> length b \<Longrightarrow> length (clear_front n b) = length b"
  by (simp add: clear_front_def)

lemma get_nib_bound: "get_nib b j AND 0xf = get_nib b j"
  by (simp add: get_nib_def and.assoc)

definition i4_code :: "byte \<Rightarrow> byte" where
  "i4_code b = nib_code (b AND 0xf)"

text \<open>Sign extension of a nibble gives back every code from -8 to 7.\<close>

lemma i4_code_id: "- 8 \<le> sint b \<Longrightarrow> sint b \<le> 7 \<Longrightarrow> i4_code b = b"
proof -
  assume a: "- 8 \<le> sint b" "sint b \<le> 7"
  define i where "i = sint b"
  have b: "b = word_of_int i" by (simp add: i_def)
  have "i \<in> {- 8, - 7, - 6, - 5, - 4, - 3, - 2, - 1, 0, 1, 2, 3, 4, 5, 6, 7}" using a by (simp add: i_def) presburger
  then show ?thesis unfolding b by (elim insertE) (simp_all add: i4_code_def nib_code_def word_le_nat_alt)
qed

subsection \<open>One slice\<close>

lemma set_i4_walk: "set (i4_walk NB KT) = {0..<NB} \<times> {0..<KT} \<times> {0..<64} \<times> {0..<32}"
  unfolding i4_walk_def by (auto simp: image_iff)

fun i4_cell :: "nat \<Rightarrow> nat \<Rightarrow> cell" where
  "i4_cell KT i = (i div (KT * 2048), i div 2048 mod KT, i div 32 mod 64, i mod 32)"

lemma i4_cell_ix:
  assumes "x \<in> set (i4_walk NB KT)"
  shows "i4_cell KT (i4_ix KT x) = x"
proof -
  obtain nb kt nl kk where x: "x = (nb, kt, nl, kk)" "kt < KT" "nl < 64" "kk < 32"
    using assms unfolding set_i4_walk by (cases x) auto
  define i where "i = i4_ix KT x"
  have "i = (nl * 32 + kk) + 2048 * (nb * KT + kt)" by (simp add: i_def x algebra_simps)
  moreover have "nl * 32 + kk < 2048" using x by linarith
  moreover have "(r + 2048 * q) div 2048 = q \<and> (r + 2048 * q) mod 2048 = r" if "r < 2048" for r q :: nat using that by simp
  ultimately have a: "i div 2048 = nb * KT + kt" "i mod 2048 = nl * 32 + kk" by metis+
  have "i div (KT * 2048) = i div 2048 div KT" by (simp only: div_mult2_eq [symmetric] mult.commute)
  moreover have "(nb * KT + kt) div KT = nb" "(nb * KT + kt) mod KT = kt" using x by simp_all
  moreover have "i mod 32 = i mod 2048 mod 32" by (simp add: mod_mod_cancel)
  moreover have "i div 32 mod 64 = i mod 2048 div 32" using mod_mult2_eq [of i 32 64] by simp
  ultimately have "i4_cell KT i = x" using x a by simp
  then show ?thesis by (simp only: i_def)
qed

lemma i4_ix_less:
  assumes "x \<in> set (i4_walk NB KT)"
  shows "i4_ix KT x < NB * (KT * 2048)"
proof -
  obtain nb kt nl kk where x: "x = (nb, kt, nl, kk)" "nb < NB" "kt < KT" "nl < 64" "kk < 32"
    using assms unfolding set_i4_walk by (cases x) auto
  have "kt * 2048 + nl * 32 + kk < KT * 2048" using x by linarith
  moreover have "(nb + 1) * (KT * 2048) \<le> NB * (KT * 2048)" using x by (intro mult_le_mono1) simp
  ultimately show ?thesis using x by (simp add: algebra_simps)
qed

fun i4_ok :: "slice \<Rightarrow> bool" where
  "i4_ok (n0, Nc, k0, Kp) \<longleftrightarrow> 64 dvd Nc \<and> 32 dvd Kp \<and> Kp * Nc < 9223372036854775808"

text \<open>What a tile of a slice holds: the low nibble of every code of the slice, at its place.\<close>

fun holds_i4 :: "byte list \<Rightarrow> nat \<Rightarrow> slice \<Rightarrow> byte list \<Rightarrow> bool" where
  "holds_i4 B N (n0, Nc, k0, Kp) bs \<longleftrightarrow> Kp * Nc div 2 \<le> length bs
     \<and> (\<forall>x \<in> set (i4_walk (Nc div 64) (Kp div 32)). get_nib bs (i4_ix (Kp div 32) x) = B ! i4_src N (n0, Nc, k0, Kp) x AND 0xf)"

lemma i4_area: "64 dvd Nc \<Longrightarrow> 32 dvd Kp \<Longrightarrow> Nc div 64 * (Kp div 32 * 2048) = Kp * (Nc :: nat)"
  by (elim dvdE) simp

lemma length_i4_Bslice: "snd (snd (snd s)) * fst (snd s) div 2 \<le> length dst \<Longrightarrow> length (tile_i4_Bslice B N s dst) = length dst"
  by (cases s) (simp add: length_clear_front)

lemma tile_i4_holds:
  assumes "i4_ok s" "snd (snd (snd s)) * fst (snd s) div 2 \<le> length dst"
  shows "holds_i4 B N s (tile_i4_Bslice B N s dst)"
proof -
  obtain n0 Nc k0 Kp where s: "s = (n0, Nc, k0, Kp)" by (cases s)
  let ?KT = "Kp div 32" and ?W = "i4_walk (Nc div 64) (Kp div 32)"
  have "get_nib (tile_i4_Bslice B N s dst) (i4_ix ?KT x) = B ! i4_src N s x AND 0xf" if x: "x \<in> set ?W" for x
  proof -
    have "even (Kp * Nc)" using assms(1) by (auto simp: s elim!: dvdE)
    then have l: "i4_ix ?KT x < Kp * Nc div 2 * 2" using i4_ix_less [OF x] i4_area [of Nc Kp] assms(1) by (simp add: s)
    then have "i4_ix ?KT x div 2 < length (clear_front (Kp * Nc div 2) dst)" using assms(2) by (simp add: s length_clear_front)
    moreover have "\<forall>y \<in> set ?W. B ! i4_src N s y AND 0xf = B ! i4_src N s (i4_cell ?KT (i4_ix ?KT y)) AND 0xf"
      using i4_cell_ix by metis
    ultimately have "get_nib (tile_i4_Bslice B N s dst) (i4_ix ?KT x)
        = get_nib (clear_front (Kp * Nc div 2) dst) (i4_ix ?KT x) OR (B ! i4_src N s (i4_cell ?KT (i4_ix ?KT x)) AND 0xf)"
      using or_nibs_agree [where F = "\<lambda>i. B ! i4_src N s (i4_cell ?KT i) AND 0xf" and ix = "i4_ix ?KT" and xs = ?W
          and v = "\<lambda>x. B ! i4_src N s x AND 0xf"] x
      by (simp add: s and.assoc del: i4_ix.simps i4_cell.simps i4_src.simps)
    then show ?thesis using get_nib_clear [OF l] i4_cell_ix [OF x] by simp
  qed
  then show ?thesis using assms by (simp add: s length_clear_front del: i4_ix.simps i4_src.simps)
qed


subsection \<open>Dumping and un-tiling are inverse\<close>

definition i4_blob :: "byte list \<Rightarrow> nat \<Rightarrow> slice \<Rightarrow> byte list" where
  "i4_blob B N s = tile_i4_Bslice B N s (replicate (i4_size s) 0)"

definition i4_bytes :: "slice list \<Rightarrow> nat" where
  "i4_bytes ss = (\<Sum>s\<leftarrow>ss. i4_size s)"

lemma i4_size_ge: "i4_ok s \<Longrightarrow> snd (snd (snd s)) * fst (snd s) div 2 \<le> i4_size s"
  using pgup_ge [of "snd (snd (snd s)) * fst (snd s) div 2"] by (cases s) auto

lemma i4_blob_length: "i4_ok s \<Longrightarrow> length (i4_blob B N s) = i4_size s"
  using i4_size_ge by (simp add: i4_blob_def length_i4_Bslice)

lemma i4_blob_holds: "i4_ok s \<Longrightarrow> holds_i4 B N s (i4_blob B N s)"
  unfolding i4_blob_def by (rule tile_i4_holds) (use i4_size_ge in auto)

lemma concat_i4_length: "\<forall>s \<in> set ss. i4_ok s \<Longrightarrow> length (concat (map (i4_blob B N) ss)) = i4_bytes ss"
  by (induction ss) (auto simp: i4_bytes_def i4_blob_length)

lemma place_append:
  "off + length xs + length ys \<le> length bs \<Longrightarrow> place off (xs @ ys) bs = place (off + length xs) ys (place off xs bs)"
  by (simp add: place_def ac_simps)

lemma dump_i4_spec:
  "\<forall>s \<in> set ss. i4_ok s \<Longrightarrow>
      dump_i4 B N cap ss off None = (off + i4_bytes ss, None)
    \<and> (off + i4_bytes ss \<le> cap \<longrightarrow> off + i4_bytes ss \<le> length bs \<longrightarrow>
        dump_i4 B N cap ss off (Some bs) = (off + i4_bytes ss, Some (place off (concat (map (i4_blob B N) ss)) bs)))"
proof (induction ss arbitrary: off bs)
  case Nil
  then show ?case by (simp add: i4_bytes_def place_def)
next
  case (Cons s ss)
  have ok: "i4_ok s" "\<forall>s \<in> set ss. i4_ok s" using Cons.prems by auto
  note len = i4_blob_length [OF ok(1), of B N] concat_i4_length [OF ok(2), of B N]
  have b: "i4_bytes (s # ss) = i4_size s + i4_bytes ss" by (simp add: i4_bytes_def)
  have l: "length (place off (i4_blob B N s) bs) = length bs" if "off + i4_size s \<le> length bs"
    using that len(1) by (intro place_blobs) simp
  show ?case
    using Cons.IH [OF ok(2), of "off + i4_size s" "place off (i4_blob B N s) bs"] len l
      place_append [of off "i4_blob B N s" "concat (map (i4_blob B N) ss)" bs]
    by (simp add: b i4_blob_def [symmetric] Let_def add.assoc)
qed

definition i4_untiled :: "byte list \<Rightarrow> nat \<Rightarrow> slice \<Rightarrow> (nat \<times> byte) list" where
  "i4_untiled B N s = map (\<lambda>x. (i4_src N s x, i4_code (B ! i4_src N s x))) (i4_walk (fst (snd s) div 64) (snd (snd (snd s)) div 32))"

lemma untile_i4_writes_agree:
  assumes "i4_ok s" "take (i4_size s) bb = i4_blob B N s"
  shows "untile_i4_writes N s bb = i4_untiled B N s"
proof -
  obtain n0 Nc k0 Kp where s: "s = (n0, Nc, k0, Kp)" by (cases s)
  let ?KT = "Kp div 32" and ?NB = "Nc div 64"
  have "get_nib bb (i4_ix ?KT x) = B ! i4_src N s x AND 0xf" if x: "x \<in> set (i4_walk ?NB ?KT)" for x
  proof -
    have "even (Kp * Nc)" using assms(1) by (auto simp: s elim!: dvdE)
    then have "i4_ix ?KT x < Kp * Nc div 2 * 2" using i4_ix_less [OF x] i4_area [of Nc Kp] assms(1) by (simp add: s)
    then have "i4_ix ?KT x div 2 < i4_size s" using i4_size_ge [OF assms(1)] by (simp add: s)
    then have "bb ! (i4_ix ?KT x div 2) = i4_blob B N s ! (i4_ix ?KT x div 2)"
      using assms(2) by (metis nth_take)
    then have "get_nib bb (i4_ix ?KT x) = get_nib (i4_blob B N s) (i4_ix ?KT x)" by (simp only: get_nib_def)
    then show ?thesis using i4_blob_holds [OF assms(1), of B N] x by (simp add: s del: i4_ix.simps i4_src.simps)
  qed
  then show ?thesis by (auto simp: s i4_untiled_def i4_code_def simp del: i4_ix.simps i4_src.simps)
qed

lemma untile_i4_spec:
  "\<forall>s \<in> set ss. i4_ok s \<Longrightarrow> drop off src = concat (map (i4_blob B N) ss) \<Longrightarrow> off + i4_bytes ss \<le> n \<Longrightarrow>
     untile_i4 N n src ss off codes = (True, off + i4_bytes ss, poke (concat (map (i4_untiled B N) ss)) codes)"
proof (induction ss arbitrary: off codes)
  case Nil
  then show ?case by (simp add: i4_bytes_def poke_def)
next
  case (Cons s ss)
  have ok: "i4_ok s" using Cons.prems(1) by simp
  note l = i4_blob_length [OF ok, of B N]
  have "take (i4_size s) (drop off src) = i4_blob B N s" using Cons.prems(2) l by simp
  note u = untile_i4_writes_agree [OF ok this]
  have d: "drop (off + i4_size s) src = concat (map (i4_blob B N) ss)"
  proof -
    have "drop (i4_size s) (drop off src) = concat (map (i4_blob B N) ss)" unfolding Cons.prems(2) using l by simp
    then show ?thesis by (simp add: add.commute)
  qed
  have "off + i4_size s + i4_bytes ss \<le> n" using Cons.prems(3) by (simp add: i4_bytes_def)
  from Cons.IH [OF _ d this, of "poke (i4_untiled B N s) codes"] Cons.prems u
  show ?case by (simp add: i4_bytes_def poke_append add.assoc)
qed

definition geom4_ok :: "nat \<Rightarrow> nat \<Rightarrow> nat \<Rightarrow> bool" where
  "geom4_ok NMAX K N \<longleftrightarrow> 0 < NMAX \<and> 64 dvd NMAX \<and> 32 dvd K \<and> 64 dvd N \<and> K * N < 9223372036854775808"

lemma geom4_slices:
  assumes "geom4_ok NMAX K N" "s \<in> set (w_slices KS NMAX K N)" "0 < KS" "32 dvd KS"
  shows "i4_ok s"
proof -
  obtain n0 Nc k0 Kp where s: "s = (n0, Nc, k0, Kp)" "(n0, Nc) \<in> set (n_slices NMAX N)" "(k0, Kp) \<in> set (n_slices KS K)"
    using assms(2) by (auto simp: w_slices_def)
  note a = n_slices_bounds [OF s(2), of 64] n_slices_bounds [OF s(3) assms(3,4)]
  have "Nc \<le> N" "Kp \<le> K" "64 dvd Nc" "32 dvd Kp" using a assms(1) by (auto simp: geom4_ok_def)
  moreover from this have "Kp * Nc \<le> K * N" by (intro mult_le_mono)
  ultimately show ?thesis using assms(1) by (simp add: s geom4_ok_def)
qed

lemma i4_untiled_covers:
  assumes "geom4_ok NMAX K N" "0 < KS" "32 dvd KS" "i < K * N"
  shows "i \<in> fst ` set (concat (map (i4_untiled B N) (w_slices KS NMAX K N)))"
proof -
  have g: "0 < NMAX" "64 dvd NMAX" "32 dvd K" "64 dvd N" using assms(1) by (auto simp: geom4_ok_def)
  have N: "0 < N" using assms(4) by (cases N) auto
  then have kn: "i div N < K" "i mod N < N" using assms(4) by (auto simp: less_mult_imp_div_less)
  obtain n0 Nc where n: "(n0, Nc) \<in> set (n_slices NMAX N)" "n0 \<le> i mod N" "i mod N < n0 + Nc"
    using n_slices_mem [OF g(1) kn(2)] by blast
  obtain k0 Kp where k: "(k0, Kp) \<in> set (n_slices KS K)" "k0 \<le> i div N" "i div N < k0 + Kp"
    using n_slices_mem [OF assms(2) kn(1)] by blast
  define k' where "k' = i div N - k0"
  define n' where "n' = i mod N - n0"
  have d: "64 dvd Nc" "32 dvd Kp" using n_slices_bounds [OF n(1) g(1,2,4)] n_slices_bounds [OF k(1) assms(2,3) g(3)] by auto
  let ?s = "(n0, Nc, k0, Kp)" and ?x = "(n' div 64, k' div 32, n' mod 64, k' mod 32)"
  have "n' < Nc div 64 * 64" "k' < Kp div 32 * 32" using n k d by (auto simp: n'_def k'_def)
  then have "?x \<in> set (i4_walk (Nc div 64) (Kp div 32))" unfolding set_i4_walk by (simp add: less_mult_imp_div_less)
  then have "(i4_src N ?s ?x, i4_code (B ! i4_src N ?s ?x)) \<in> set (i4_untiled B N ?s)"
    unfolding i4_untiled_def set_map fst_conv snd_conv by (rule imageI)
  moreover have "i4_src N ?s ?x = i" using n(2) k(2) div_mult_mod_eq [of i N] by (simp add: k'_def n'_def add.assoc)
  moreover have "?s \<in> set (w_slices KS NMAX K N)" using n(1) k(1) by (auto simp: w_slices_def)
  ultimately have "(i, i4_code (B ! i)) \<in> set (concat (map (i4_untiled B N) (w_slices KS NMAX K N)))"
    by (auto simp only: set_concat set_map)
  then show ?thesis by (rule image_eqI [rotated]) simp
qed

lemma i4_untiled_all:
  assumes "geom4_ok NMAX K N" "0 < KS" "32 dvd KS" "length B = K * N" "length codes = K * N"
  shows "poke (concat (map (i4_untiled B N) (w_slices KS NMAX K N))) codes = map i4_code B"
proof (rule nth_equalityI)
  fix i assume i: "i < length (poke (concat (map (i4_untiled B N) (w_slices KS NMAX K N))) codes)"
  have "\<forall>(j, v) \<in> set (concat (map (i4_untiled B N) (w_slices KS NMAX K N))). v = i4_code (B ! j)"
    by (auto simp: i4_untiled_def simp del: i4_src.simps)
  then show "poke (concat (map (i4_untiled B N) (w_slices KS NMAX K N))) codes ! i = map i4_code B ! i"
    using i i4_untiled_covers [OF assms(1-3)] assms(4,5) by (subst poke_agree) auto
qed (use assms in simp)

end
