(* ===== verification/I4_Weight.thy ===== *)
theory I4_Weight
  imports I4_Tile
begin

section \<open>int4 weights on the device, and run as int8: \<open>src/npu/i4/pack.c\<close>\<close>

text \<open>
  The grouped form, whose tiles are views of one buffer, the loader that turns an int4 weight file into a
  resident int8 weight, and what all packers and loaders leave in their buffers. \<open>junk n\<close> is what \<open>malloc\<close>
  hands out. \<open>G\<close> is the group size; the grouped loader returns it beside the weight.
\<close>

subsection \<open>Grouped packing\<close>

definition group_slices :: "nat \<Rightarrow> nat \<Rightarrow> nat \<Rightarrow> nat \<Rightarrow> slice list" where
  "group_slices G NMAX K N = [(n0, Nc, g * G, G). (n0, Nc) \<leftarrow> n_slices NMAX N, g \<leftarrow> [0..<K div G]]"

fun i4_views :: "buf \<Rightarrow> byte list \<Rightarrow> byte list \<Rightarrow> nat \<Rightarrow> slice list \<Rightarrow> nat \<Rightarrow> filled list" where
  "i4_views own m B N [] off = []"
| "i4_views own m B N ((n0, Nc, k0, G) # ss) off =
     (let ts = G * Nc div 2 in
      (no_buf\<lparr>bf_handle := bf_handle own, bf_obj := bf_obj own, bf_dma := bf_dma own + off, bf_cpu := bf_cpu own + off, bf_size := ts\<rparr>,
       tile_i4_Bslice B N (n0, Nc, k0, G) (take ts (drop off m)))
      # i4_views own m B N ss (off + orki_pgup ts))"

definition ork_i4_mm_pack_grouped :: "i8_env \<Rightarrow> kernel \<Rightarrow> mem \<Rightarrow> i8_ctx \<Rightarrow> nat \<Rightarrow> nat \<Rightarrow> byte list \<Rightarrow> nat \<Rightarrow> kst
    \<Rightarrow> i4_w option \<times> kst" where
  "ork_i4_mm_pack_grouped v an mem c K N B G st =
     (if ic_fd c < 0 then (Some ((new_i4 K N 1 1 0)\<lparr>xw_codes := Some (take (K * N) B), xw_gsize := G\<rparr>), st)
      else if K mod 32 \<noteq> 0 \<or> N mod 64 \<noteq> 0 \<or> G mod 32 \<noteq> 0 \<or> K mod G \<noteq> 0 \<or> G > ORK_I4_KS then (None, st)
      else
        let NMAX = nmax_of c; ss = group_slices G NMAX K N;
            w = (new_i4 K N (K div G) ((N + NMAX - 1) div NMAX) (ork_dom (ie_dom v) (ic_pack_dom c)))\<lparr>xw_owns := False, xw_gsize := G\<rparr>;
            (own, st1) = k_create (ie_dom v) an (i4_bytes ss) 0x403 (xw_dom w) st
        in if bf_cpu own \<noteq> 0 then
             (Some (w\<lparr>xw_own := Some own, xw_Bb := i4_views own (mem (ks_n st) (bf_size own)) B N ss 0\<rparr>), st1)
           else
             let (bb, st2) = fill_bufs (ie_dom v) an 0x403 (xw_dom w)
                   (map (\<lambda>s. (snd (snd (snd s)) * fst (snd s) div 2, \<lambda>i n. tile_i4_Bslice B N s (mem i n))) ss) [] st1
             in (map_option (\<lambda>bb. w\<lparr>xw_owns := True, xw_Bb := bb\<rparr>) bb, st2))"

subsection \<open>An int4 weight file as an int8 weight\<close>

definition tiles_of_codes :: "i8_env \<Rightarrow> kernel \<Rightarrow> mem \<Rightarrow> int \<Rightarrow> byte list \<Rightarrow> nat \<Rightarrow> slice list \<Rightarrow> kst \<Rightarrow> filled list option \<times> kst" where
  "tiles_of_codes v an mem d B N ss st =
     fill_bufs (ie_dom v) an 0x403 d
       (map (\<lambda>s. (snd (snd (snd s)) * fst (snd s), \<lambda>i n. par_tile (ie_pool v) (fst (snd s) div 32) (slice_arg B N s) (mem i n))) ss) [] st"

text \<open>The full-K buffers are created and not written.\<close>

definition blank_bf :: "i8_env \<Rightarrow> kernel \<Rightarrow> mem \<Rightarrow> int \<Rightarrow> nat \<Rightarrow> (nat \<times> nat) list \<Rightarrow> kst \<Rightarrow> filled list option \<times> kst" where
  "blank_bf v an mem d K ns st = fill_bufs (ie_dom v) an 0x403 d (map (\<lambda>(n0, Nc). (K * Nc, mem)) ns) [] st"

definition ork_i4a8_mm_load_tiled :: "ork_soc option \<Rightarrow> i8_env \<Rightarrow> kernel \<Rightarrow> mem \<Rightarrow> (nat \<Rightarrow> byte list) \<Rightarrow> i8_ctx \<Rightarrow> nat \<Rightarrow> nat
    \<Rightarrow> byte list option \<Rightarrow> nat \<Rightarrow> int \<Rightarrow> kst \<Rightarrow> (i8_w \<times> int) option \<times> kst" where
  "ork_i4a8_mm_load_tiled det v an mem junk c K N blob n G st =
     (if orki_pack_check det (Some (Some (ic_soc c))) blob n 2 (int K) (int N) \<noteq> PACK_OK' then (None, st)
      else if K mod 32 \<noteq> 0 \<or> N mod 64 \<noteq> 0 then (None, st)
      else
        let (rc, cs) = orki_i4_untile_blob (Some (ic_soc c)) K N (Some (drop ORK_PACK_HDR_BYTES (the blob)))
                         (n - ORK_PACK_HDR_BYTES) (Some (junk (K * N)));
            codes = the cs; NMAX = nmax_of c; Sn = (N + NMAX - 1) div NMAX; d = ork_dom (ie_dom v) (ic_pack_dom c)
        in if rc \<noteq> 0 then (None, st)
        else if ic_fd c < 0 then (Some ((new_w K N 1 1 0)\<lparr>iw_codes := Some codes\<rparr>, 0), st)
        else if 0 < G \<and> K mod nat G = 0 then
          let (bb, st) = tiles_of_codes v an mem d codes N (group_slices (nat G) NMAX K N) st
          in (map_option (\<lambda>bb. ((new_w K N (K div nat G) Sn d)\<lparr>iw_Bb := bb\<rparr>, G)) bb, st)
        else
          (case tiles_of_codes v an mem d codes N (w_slices 1024 NMAX K N) st of
             (None, st) \<Rightarrow> (None, st)
           | (Some bb, st) \<Rightarrow>
             apfst (map_option (\<lambda>w. (w, 0)))
               (with_bf (K \<le> 10752 \<and> \<not> ie_no_bf v) (blank_bf v an mem d K (n_slices NMAX N))
                  ((new_w K N ((K + 1024 - 1) div 1024) Sn d)\<lparr>iw_Bb := bb\<rparr>, st))))"

subsection \<open>The file\<close>

lemma stamped_i4:
  assumes "K < 2147483648" "N < 2147483648"
  shows "orki_pack_check det (Some (Some soc)) (Some (hdr_page det (Some (Some soc)) 2 (int K) (int N) @ body)) (4096 + n) 2 (int K) (int N) = PACK_OK'"
  using assms by (simp add: orki_pack_check_def parse_hdr_page as_int_u32 ORK_PACK_HDR_BYTES_def)

lemma KS_props: "0 < ORK_I4_KS" "32 dvd ORK_I4_KS"
  by (simp_all add: ORK_I4_KS_def)

definition i4_body :: "nat \<Rightarrow> nat \<Rightarrow> nat \<Rightarrow> byte list \<Rightarrow> byte list" where
  "i4_body NMAX K N B = concat (map (i4_blob B N) (w_slices ORK_I4_KS NMAX K N))"

lemma i4_body_length: "geom4_ok NMAX K N \<Longrightarrow> length (i4_body NMAX K N B) = i4_bytes (w_slices ORK_I4_KS NMAX K N)"
  unfolding i4_body_def by (rule concat_i4_length) (use geom4_slices KS_props in blast)

lemma i4_dump_spec:
  assumes "geom4_ok (nat (soc_nmax soc)) K N" "0 < K" "0 < N"
  defines "n \<equiv> 4096 + i4_bytes (w_slices ORK_I4_KS (nat (soc_nmax soc)) K N)"
  shows "ork_i4_w_dump_cpu det (Some soc) K N (Some B) None cap = (n, None)"
    "length out = n \<Longrightarrow> ork_i4_w_dump_cpu det (Some soc) K N (Some B) (Some out) n =
       (n, Some (hdr_page det (Some (Some soc)) 2 (int K) (int N) @ i4_body (nat (soc_nmax soc)) K N B))"
proof -
  let ?ss = "w_slices ORK_I4_KS (nat (soc_nmax soc)) K N"
  have ok: "\<forall>s \<in> set ?ss. i4_ok s" using geom4_slices [OF assms(1) _ KS_props] by blast
  have m: "K mod 32 = 0" "N mod 64 = 0" using assms(1) by (simp_all add: geom4_ok_def mod_eq_0_iff_dvd)
  have "K * N div 2 \<noteq> 0" using assms(1-3) by (auto simp: geom4_ok_def elim!: dvdE)
  have pos: "0 < i4_bytes ?ss"
  proof -
    have "0 < K" "0 < nat (soc_nmax soc)" using assms(1,2) by (auto simp: geom4_ok_def)
    obtain n0 Nc where n: "(n0, Nc) \<in> set (n_slices (nat (soc_nmax soc)) N)" "0 < n0 + Nc" "n0 \<le> 0"
      using n_slices_mem [of "nat (soc_nmax soc)" 0 N] assms(1,3) by (auto simp: geom4_ok_def)
    obtain k0 Kp where k: "(k0, Kp) \<in> set (n_slices ORK_I4_KS K)" "0 < k0 + Kp" "k0 \<le> 0"
      using n_slices_mem [of ORK_I4_KS 0 K] assms(2) KS_props by auto
    have s: "(n0, Nc, k0, Kp) \<in> set ?ss" using n(1) k(1) by (auto simp: w_slices_def)
    have "64 dvd Nc" "32 dvd Kp" using ok s by auto
    then have "0 < Kp * Nc div 2" using n k by (auto elim!: dvdE)
    then have "0 < i4_size (n0, Nc, k0, Kp)" using i4_size_ge [of "(n0, Nc, k0, Kp)"] ok s by fastforce
    moreover have "i4_size (n0, Nc, k0, Kp) \<le> i4_bytes ?ss"
      unfolding i4_bytes_def using s by (intro member_le_sum_list) (simp_all only: set_map imageI le0)
    ultimately show ?thesis by linarith
  qed
  show "ork_i4_w_dump_cpu det (Some soc) K N (Some B) None cap = (n, None)"
    using dump_i4_spec [OF ok, THEN conjunct1, of B N _ 0] m pos
    by (simp add: ork_i4_w_dump_cpu_def orki_i4_w_dump_cpu_body_def orki_pack_stamp_def ORK_PACK_HDR_BYTES_def n_def)
  assume l: "length out = n"
  have lb: "length (i4_body (nat (soc_nmax soc)) K N B) = i4_bytes ?ss" by (rule i4_body_length [OF assms(1)])
  have "place 0 (i4_body (nat (soc_nmax soc)) K N B) (drop 4096 out) = i4_body (nat (soc_nmax soc)) K N B"
    using lb l by (simp add: place_def n_def)
  then show "ork_i4_w_dump_cpu det (Some soc) K N (Some B) (Some out) n =
       (n, Some (hdr_page det (Some (Some soc)) 2 (int K) (int N) @ i4_body (nat (soc_nmax soc)) K N B))"
    using dump_i4_spec [OF ok, of B N "i4_bytes ?ss" 0 "drop 4096 out"] m pos l
    by (simp add: ork_i4_w_dump_cpu_def orki_i4_w_dump_cpu_body_def orki_pack_stamp_def ORK_PACK_HDR_BYTES_def n_def
        hdr_page_length i4_body_def)
qed

lemma untile_body:
  assumes "geom4_ok (nat (soc_nmax soc)) K N" "length B = K * N" "length codes = K * N"
  defines "n \<equiv> i4_bytes (w_slices ORK_I4_KS (nat (soc_nmax soc)) K N)" and "body \<equiv> i4_body (nat (soc_nmax soc)) K N B"
  shows "untile_i4 N n body (w_slices ORK_I4_KS (nat (soc_nmax soc)) K N) 0 codes = (True, n, map i4_code B)"
    "orki_i4_untile_blob (Some soc) K N (Some body) n (Some codes) = (0, Some (map i4_code B))"
proof -
  let ?ss = "w_slices ORK_I4_KS (nat (soc_nmax soc)) K N"
  have ok: "\<forall>s \<in> set ?ss. i4_ok s" using geom4_slices [OF assms(1) _ KS_props] by blast
  show u: "untile_i4 N n body ?ss 0 codes = (True, n, map i4_code B)"
    using untile_i4_spec [OF ok, of 0 body B N n codes] i4_untiled_all [OF assms(1) KS_props assms(2,3)]
    by (simp add: n_def body_def i4_body_def)
  show "orki_i4_untile_blob (Some soc) K N (Some body) n (Some codes) = (0, Some (map i4_code B))"
    using u assms(1) by (simp add: orki_i4_untile_blob_def geom4_ok_def mod_eq_0_iff_dvd)
qed


lemma i4_code_low: "i4_code b AND 0xf = b AND 0xf"
proof -
  define v where "v = b AND 0xf"
  have "unat v < 16"
    using word_and_le1 [of b "0xf"] by (simp add: v_def word_le_nat_alt)
  then have "unat v \<in> {0, 1, 2, 3, 4, 5, 6, 7, 8, 9, 10, 11, 12, 13, 14, 15}" by (simp only: insert_iff empty_iff) presburger
  moreover have "v = word_of_nat (unat v)" by simp
  ultimately have "nib_code v AND 0xf = v"
    by (elim insertE) (simp_all add: nib_code_def word_le_nat_alt)
  then show ?thesis by (simp add: i4_code_def v_def)
qed

lemma nib_pair:
  fixes x y :: byte
  shows "((x AND 0xf) OR push_bit 4 (y AND 0xf)) AND 0xf = x AND 0xf"
    "drop_bit 4 ((x AND 0xf) OR push_bit 4 (y AND 0xf)) AND 0xf = y AND 0xf"
  unfolding f_mask by (rule bit_eqI; auto simp: bit_simps)+

lemma cpu_blob_nibs:
  assumes "even K" "0 < K" "length out = N * (K div 2)" "nn < N" "k < K" "\<And>i. codes i = i4_code (B ! i)"
    and "\<And>i. i < K * N \<Longrightarrow> cs ! i = codes i"
  shows "get_nib (poke (cpu_blob_writes K N cs) out) (nn * K + k) = B ! (k * N + nn) AND 0xf"
proof -
  let ?h = "K div 2" and ?F = "\<lambda>i. (cs ! (2 * (i mod (K div 2)) * N + i div (K div 2)) AND 0xf)
    OR push_bit 4 (cs ! ((2 * (i mod (K div 2)) + 1) * N + i div (K div 2)) AND 0xf)"
  have h: "0 < ?h" "K = 2 * ?h" using assms(1,2) by auto
  have ag: "\<forall>(i, v) \<in> set (cpu_blob_writes K N cs). v = ?F i" by (auto simp: cpu_blob_writes_def)
  have j: "k div 2 < ?h" using assms(5) h(2) by (simp add: less_mult_imp_div_less)
  have "(nn + 1) * ?h \<le> N * ?h" using assms(4) by (intro mult_le_mono1) simp
  then have i: "nn * ?h + k div 2 < length out" using assms(3) j by simp
  have "(nn * ?h + k div 2, ?F (nn * ?h + k div 2)) \<in> set (cpu_blob_writes K N cs)"
    using assms(4) j by (force simp: cpu_blob_writes_def)
  then have "nn * ?h + k div 2 \<in> fst ` set (cpu_blob_writes K N cs)" by (rule image_eqI [rotated]) simp
  then have b: "poke (cpu_blob_writes K N cs) out ! (nn * ?h + k div 2) = ?F (nn * ?h + k div 2)"
    using poke_agree [OF ag i] by simp
  have k: "(nn * K + k) div 2 = nn * ?h + k div 2" "odd (nn * K + k) = odd k"
    using assms(1) by (auto elim!: evenE simp: mult.left_commute [of nn 2])
  have "(k * N + nn) < K * N"
  proof -
    have "(k + 1) * N \<le> K * N" using assms(5) by (intro mult_le_mono1) simp
    then show ?thesis using assms(4) by simp
  qed
  then have c: "cs ! (k * N + nn) AND 0xf = B ! (k * N + nn) AND 0xf" using assms(6,7) by (simp add: i4_code_low)
  have "get_nib (poke (cpu_blob_writes K N cs) out) (nn * K + k) = cs ! (k * N + nn) AND 0xf"
  proof (cases "odd k")
    case True
    then have "k = 2 * (k div 2) + 1" by simp
    with True show ?thesis unfolding get_nib_def k b using j nib_pair(2) by (simp del: drop_bit_or)
  next
    case False
    then have "k = 2 * (k div 2)" by simp
    with False show ?thesis unfolding get_nib_def k b using j nib_pair(1) by simp
  qed
  then show ?thesis using c by simp
qed

text \<open>C6: int4 weight files keep the codes. Sizing a dump and filling a buffer of that size, then loading the
  file without a device, as int4 or as int8 and whatever the group size, gives a weight whose codes are the
  sign-extended low nibbles of \<open>B\<close>, which are \<open>B\<close> itself for codes from -8 to 7; and the CPU layout made from the
  file holds the same nibbles channel by channel.\<close>

theorem i4_dump_load_roundtrip:
  assumes "geom4_ok (nmax_of c) K N" "0 < K" "0 < N" "K < 2147483648" "N < 2147483648" "length B = K * N"
    and "ork_i4_w_dump_cpu det (Some (ic_soc c)) K N (Some B) None 0 = (n, None)" "length out = n" "ic_fd c < 0"
    and "\<And>m. length (junk m) = m" "length cb = N * (K div 2)"
  shows "\<exists>blob. ork_i4_w_dump_cpu det (Some (ic_soc c)) K N (Some B) (Some out) n = (n, Some blob)
     \<and> ork_i4_mm_load det v an c K N (Some blob) n st = (Some ((new_i4 K N 1 1 0)\<lparr>xw_codes := Some (map i4_code B)\<rparr>), st)
     \<and> ork_i4a8_mm_load_tiled det v an mem junk c K N (Some blob) n G st
         = (Some ((new_w K N 1 1 0)\<lparr>iw_codes := Some (map i4_code B)\<rparr>, 0), st)
     \<and> ((\<forall>b \<in> set B. - 8 \<le> sint b \<and> sint b \<le> 7) \<longrightarrow> map i4_code B = B)
     \<and> (\<exists>cb'. ork_i4_cpu_blob_from_tiled junk (Some (ic_soc c)) K N (Some (drop 4096 blob)) (n - 4096) (Some cb) (length cb) = (length cb, Some cb')
          \<and> (\<forall>nn < N. \<forall>k < K. get_nib cb' (nn * K + k) = B ! (k * N + nn) AND 0xf))"
proof -
  let ?NM = "nat (soc_nmax (ic_soc c))"
  have g: "geom4_ok ?NM K N" using assms(1) by (simp add: nmax_of_def)
  let ?body = "i4_body ?NM K N B" and ?page = "hdr_page det (Some (Some (ic_soc c))) 2 (int K) (int N)"
  let ?b = "i4_bytes (w_slices ORK_I4_KS ?NM K N)"
  have n: "n = 4096 + ?b" using i4_dump_spec(1) [OF g assms(2,3), of det B 0] assms(7) by simp
  have d: "ork_i4_w_dump_cpu det (Some (ic_soc c)) K N (Some B) (Some out) n = (n, Some (?page @ ?body))"
    using i4_dump_spec(2) [OF g assms(2,3), of out det B] assms(8) n by simp
  have m: "K mod 32 = 0" "N mod 64 = 0" "even K" using g by (auto simp: geom4_ok_def elim!: dvdE)
  note chk = stamped_i4 [OF assms(4,5), of det "ic_soc c" ?body ?b]
  note u = untile_body [OF g assms(6)]
  have l1: "ork_i4_mm_load det v an c K N (Some (?page @ ?body)) n st = (Some ((new_i4 K N 1 1 0)\<lparr>xw_codes := Some (map i4_code B)\<rparr>), st)"
    using chk m assms(9) u(1) [of "replicate (K * N) 0"] n
    by (simp add: ork_i4_mm_load_def ORK_PACK_HDR_BYTES_def hdr_page_length nmax_of_def)
  have l2: "ork_i4a8_mm_load_tiled det v an mem junk c K N (Some (?page @ ?body)) n G st
      = (Some ((new_w K N 1 1 0)\<lparr>iw_codes := Some (map i4_code B)\<rparr>, 0), st)"
    using chk m assms(9) u(2) [of "junk (K * N)"] n assms(10)
    by (simp add: ork_i4a8_mm_load_tiled_def ORK_PACK_HDR_BYTES_def hdr_page_length)
  have id: "(\<forall>b \<in> set B. - 8 \<le> sint b \<and> sint b \<le> 7) \<longrightarrow> map i4_code B = B" by (auto intro!: map_idI i4_code_id)
  have c: "ork_i4_cpu_blob_from_tiled junk (Some (ic_soc c)) K N (Some ?body) ?b (Some cb) (length cb)
      = (length cb, Some (poke (cpu_blob_writes K N (map i4_code B)) cb))"
    using u(2) [of "junk (K * N)"] m(3) assms(2,3,10,11) by (simp add: ork_i4_cpu_blob_from_tiled_def)
  have "\<forall>nn < N. \<forall>k < K. get_nib (poke (cpu_blob_writes K N (map i4_code B)) cb) (nn * K + k) = B ! (k * N + nn) AND 0xf"
    using cpu_blob_nibs [OF m(3) assms(2,11)] assms(6) by simp
  with d l1 l2 id c n show ?thesis by (intro exI [of _ "?page @ ?body"]) (simp add: hdr_page_length)
qed


theorem i4_dump_load_roundtrip_witness:
  "\<exists>out blob cb. ork_i4_w_dump_cpu None (Some ork_soc_rk3588) 64 64 (Some (replicate 4096 (- 3))) (Some out) (length out) = (length out, Some blob)
     \<and> fst (ork_i4_mm_load None (i8_plain plain_env) (\<lambda>_. answer_at 0) offline_rk3588 64 64 (Some blob) (length out) fresh_st)
         = Some ((new_i4 64 64 1 1 0)\<lparr>xw_codes := Some (replicate 4096 (- 3))\<rparr>)
     \<and> snd (ork_i4_cpu_blob_from_tiled (\<lambda>m. replicate m 0) (Some ork_soc_rk3588) 64 64 (Some (drop 4096 blob)) (length out - 4096)
         (Some (replicate 2048 0)) 2048) = Some cb \<and> get_nib cb 5 = 13"
proof -
  let ?B = "replicate 4096 (- 3) :: byte list"
  define n where "n = 4096 + i4_bytes (w_slices ORK_I4_KS 8192 64 64)"
  have soc: "ic_soc offline_rk3588 = ork_soc_rk3588" "nmax_of offline_rk3588 = 8192" "nat (soc_nmax ork_soc_rk3588) = 8192" "ic_fd offline_rk3588 < 0"
    by (simp_all add: offline_rk3588_def nmax_of_def ork_soc_rk3588_def)
  have g: "geom4_ok 8192 64 64" by (simp add: geom4_ok_def)
  have d: "ork_i4_w_dump_cpu None (Some (ic_soc offline_rk3588)) 64 64 (Some ?B) None 0 = (n, None)"
    using i4_dump_spec(1) [of ork_soc_rk3588 64 64] g by (simp add: soc n_def)
  have s: "- 8 \<le> sint (- 3 :: byte) \<and> sint (- 3 :: byte) \<le> 7" by simp
  from i4_dump_load_roundtrip [OF _ _ _ _ _ _ d, of "replicate n 0" "\<lambda>m. replicate m 0" "replicate 2048 0" "i8_plain plain_env"
      "\<lambda>_. answer_at 0" fresh_st "\<lambda>i n. []" 0] g s
  obtain blob cb where b: "ork_i4_w_dump_cpu None (Some ork_soc_rk3588) 64 64 (Some ?B) (Some (replicate n 0)) n = (n, Some blob)"
    "ork_i4_mm_load None (i8_plain plain_env) (\<lambda>_. answer_at 0) offline_rk3588 64 64 (Some blob) n fresh_st
       = (Some ((new_i4 64 64 1 1 0)\<lparr>xw_codes := Some (map i4_code ?B)\<rparr>), fresh_st)"
    "map i4_code ?B = ?B"
    "ork_i4_cpu_blob_from_tiled (\<lambda>m. replicate m 0) (Some ork_soc_rk3588) 64 64 (Some (drop 4096 blob)) (n - 4096) (Some (replicate 2048 0)) 2048 = (2048, Some cb)"
    "\<forall>nn < 64. \<forall>k < 64. get_nib cb (nn * 64 + k) = ?B ! (k * 64 + nn) AND 0xf"
    by (auto simp: soc)
  have "get_nib cb 5 = 13" using b(5) [rule_format, of 0 5] by simp
  with b show ?thesis by (intro exI [of _ "replicate n 0"] exI [of _ blob] exI [of _ cb]) (simp only: length_replicate fst_conv snd_conv simp_thms)
qed

subsection \<open>What is left on the device\<close>

lemma ceil_exact: "0 < G \<Longrightarrow> G dvd K \<Longrightarrow> (K + G - 1) div G = K div G" for G K :: nat
proof -
  assume G: "0 < G" "G dvd K"
  then obtain q where K: "K = G * q" by (elim dvdE)
  have "K + G - 1 = (G - 1) + q * G" using G(1) by (simp add: K mult.commute)
  then show ?thesis using G(1) by (simp only: div_mult_self1) (simp add: K)
qed

lemma group_slices_eq:
  assumes "0 < G" "G dvd K"
  shows "group_slices G NMAX K N = w_slices G NMAX K N"
proof -
  have "c_slice K G g = G" if g: "g < K div G" for g
  proof -
    have "(g + 1) * G \<le> K div G * G" using g by (intro mult_le_mono1) simp
    also have "\<dots> = K" using assms(2) by simp
    finally show ?thesis by (simp add: c_slice_def)
  qed
  then have "n_slices G K = map (\<lambda>g. (g * G, G)) [0..<K div G]" using ceil_exact [OF assms] by (simp add: n_slices_def)
  then show ?thesis by (simp add: group_slices_def w_slices_def comp_def)
qed

lemma tiles_of_codes_hold:
  assumes "tiles_of_codes v an mem d B N ss st = (Some bb, st')" "\<And>i n. length (mem i n) = n" "\<forall>s \<in> set ss. slice_ok s"
  shows "list_all2 (\<lambda>s f. bf_cpu (fst f) \<noteq> 0 \<and> holds_tile (slice_arg B N s) (fst (snd s) div 32) (snd f)) ss bb"
proof (rule fill_bufs_map [OF assms(1) [unfolded tiles_of_codes_def]])
  fix s i and f :: filled
  assume s: "s \<in> set ss" and f: "bf_cpu (fst f) \<noteq> 0"
    "snd f = snd (snd (snd (snd s)) * fst (snd s), \<lambda>i n. par_tile (ie_pool v) (fst (snd s) div 32) (slice_arg B N s) (mem i n)) i
       (orki_pgup (fst (snd (snd (snd s)) * fst (snd s), \<lambda>i n. par_tile (ie_pool v) (fst (snd s) div 32) (slice_arg B N s) (mem i n))))"
  have "fst (snd s) div 32 * (ti_KT (slice_arg B N s) * 1024) \<le> orki_pgup (snd (snd (snd s)) * fst (snd s))"
    using assms(3) s pgup_ge by (cases s) (auto simp: tile_area)
  then show "bf_cpu (fst f) \<noteq> 0 \<and> holds_tile (slice_arg B N s) (fst (snd s) div 32) (snd f)"
    using f assms(2) by (auto intro!: holds_tile_par)
qed

lemma par_tile_none: "ti_KT t = 0 \<Longrightarrow> par_tile pool NN t bb = bb"
  by (simp add: par_tile_spec tile_spec_def)

lemma list_all2_right: "list_all2 (\<lambda>x. P) xs ys \<Longrightarrow> \<forall>y \<in> set ys. P y"
  by (induction rule: list_all2_induct) auto

lemma with_zero_iff: "apfst (map_option (\<lambda>w. (w, 0 :: int))) p = (Some (w, g), st') \<longleftrightarrow> p = (Some w, st') \<and> g = 0"
  by (cases p) auto

lemma tiles_of_codes_short:
  assumes "tiles_of_codes v an mem d B N ss st = (Some bb, st')" "\<forall>s \<in> set ss. snd (snd (snd s)) < 32"
  shows "\<forall>f \<in> set bb. \<exists>i m. snd f = mem i m"
proof -
  have "list_all2 (\<lambda>s f. \<exists>i m. snd f = mem i m) ss bb"
  proof (rule fill_bufs_map [OF assms(1) [unfolded tiles_of_codes_def]])
    fix s i and f :: filled
    assume s: "s \<in> set ss"
      "snd f = snd (snd (snd (snd s)) * fst (snd s), \<lambda>i n. par_tile (ie_pool v) (fst (snd s) div 32) (slice_arg B N s) (mem i n)) i
         (orki_pgup (fst (snd (snd (snd s)) * fst (snd s), \<lambda>i n. par_tile (ie_pool v) (fst (snd s) div 32) (slice_arg B N s) (mem i n))))"
    have "ti_KT (slice_arg B N s) = 0" using assms(2) s(1) by (cases s) auto
    then show "\<exists>i m. snd f = mem i m" using s(2) by (auto simp: par_tile_none)
  qed
  then show ?thesis by (rule list_all2_right)
qed

lemma blank_bf_shape:
  "blank_bf v an mem d K ns st = (Some bf, st') \<Longrightarrow> list_all2 (\<lambda>n f. \<exists>i. snd f = mem i (orki_pgup (K * snd n))) ns bf"
  unfolding blank_bf_def by (rule fill_bufs_map) auto

lemma geom4_slice_ok:
  assumes "geom4_ok NMAX K N" "0 < KS" "32 dvd KS"
  shows "\<forall>s \<in> set (w_slices KS NMAX K N). slice_ok s"
proof -
  have d: "(32 :: nat) dvd 64" by simp
  have g: "0 < NMAX" "32 dvd NMAX" "32 dvd K" "32 dvd N" "K * N < 9223372036854775808"
    using assms(1) dvd_trans [OF d] by (simp_all add: geom4_ok_def)
  show ?thesis using w_slices_ok [OF assms(2) g(1) assms(3) g(2-5)] by blast
qed

lemma load_tiled_body:
  assumes "orki_pack_check det (Some (Some (ic_soc c))) (Some blob) n 2 (int K) (int N) = PACK_OK'" "K mod 32 = 0" "N mod 64 = 0"
    "orki_i4_untile_blob (Some (ic_soc c)) K N (Some (drop 4096 blob)) (n - 4096) (Some (junk (K * N))) = (0, Some B)" "0 \<le> ic_fd c"
  shows "ork_i4a8_mm_load_tiled det v an mem junk c K N (Some blob) n G st =
    (if 0 < G \<and> K mod nat G = 0 then
       let (bb, st) = tiles_of_codes v an mem (ork_dom (ie_dom v) (ic_pack_dom c)) B N (group_slices (nat G) (nmax_of c) K N) st
       in (map_option (\<lambda>bb. ((new_w K N (K div nat G) ((N + nmax_of c - 1) div nmax_of c) (ork_dom (ie_dom v) (ic_pack_dom c)))\<lparr>iw_Bb := bb\<rparr>, G)) bb, st)
     else
       (case tiles_of_codes v an mem (ork_dom (ie_dom v) (ic_pack_dom c)) B N (w_slices 1024 (nmax_of c) K N) st of
          (None, st) \<Rightarrow> (None, st)
        | (Some bb, st) \<Rightarrow>
          apfst (map_option (\<lambda>w. (w, 0)))
            (with_bf (K \<le> 10752 \<and> \<not> ie_no_bf v) (blank_bf v an mem (ork_dom (ie_dom v) (ic_pack_dom c)) K (n_slices (nmax_of c) N))
               ((new_w K N ((K + 1024 - 1) div 1024) ((N + nmax_of c - 1) div nmax_of c) (ork_dom (ie_dom v) (ic_pack_dom c)))\<lparr>iw_Bb := bb\<rparr>, st))))"
  using assms by (simp only: ork_i4a8_mm_load_tiled_def ORK_PACK_HDR_BYTES_def Let_def option.sel) simp



lemma slices_64:
  "w_slices 1024 8192 64 64 = [(0, 64, 0, 64)]" "n_slices 8192 64 = [(0, 64)]" "w_slices ORK_I4_KS 8192 64 64 = [(0, 64, 0, 64)]"
  by (simp_all add: w_slices_def n_slices_def c_slice_def ORK_I4_KS_def)



subsection \<open>Every packer and loader leaves the slices' tiles\<close>

lemma fill_i4_hold:
  assumes "fill_bufs e an fl d (map (\<lambda>s. (snd (snd (snd s)) * fst (snd s) div 2, \<lambda>i n. tile_i4_Bslice B N s (mem i n))) ss) [] st = (Some bb, st')"
    "\<And>i n. length (mem i n) = n" "\<forall>s \<in> set ss. i4_ok s"
  shows "list_all2 (\<lambda>s f. bf_cpu (fst f) \<noteq> 0 \<and> holds_i4 B N s (snd f)) ss bb"
proof (rule fill_bufs_map [OF assms(1)])
  fix s i and f :: filled
  assume s: "s \<in> set ss" and f: "bf_cpu (fst f) \<noteq> 0"
    "snd f = snd (snd (snd (snd s)) * fst (snd s) div 2, \<lambda>i n. tile_i4_Bslice B N s (mem i n)) i
       (orki_pgup (fst (snd (snd (snd s)) * fst (snd s) div 2, \<lambda>i n. tile_i4_Bslice B N s (mem i n))))"
  have "orki_pgup (snd (snd (snd s)) * fst (snd s) div 2) = i4_size s" by (cases s) simp
  moreover have "holds_i4 B N s (tile_i4_Bslice B N s (mem i (i4_size s)))"
    using assms(2,3) s i4_size_ge by (intro tile_i4_holds) auto
  ultimately show "bf_cpu (fst f) \<noteq> 0 \<and> holds_i4 B N s (snd f)" using f by simp
qed

lemma i4_views_hold:
  "\<forall>s \<in> set ss. i4_ok s \<Longrightarrow> off + i4_bytes ss \<le> length m \<Longrightarrow> bf_cpu own \<noteq> 0 \<Longrightarrow>
     list_all2 (\<lambda>s f. bf_cpu (fst f) \<noteq> 0 \<and> holds_i4 B N s (snd f)) ss (i4_views own m B N ss off)"
proof (induction ss arbitrary: off)
  case (Cons s ss)
  obtain n0 Nc k0 G where s: "s = (n0, Nc, k0, G)" by (cases s)
  have ok: "i4_ok s" using Cons.prems(1) by simp
  have b: "i4_bytes (s # ss) = orki_pgup (G * Nc div 2) + i4_bytes ss" by (simp add: i4_bytes_def s)
  have "G * Nc div 2 \<le> orki_pgup (G * Nc div 2)" using i4_size_ge [OF ok] by (simp add: s)
  then have "length (take (G * Nc div 2) (drop off m)) = G * Nc div 2" using Cons.prems(2) b by simp
  then have "holds_i4 B N s (tile_i4_Bslice B N s (take (G * Nc div 2) (drop off m)))"
    by (intro tile_i4_holds [OF ok]) (simp add: s)
  with Cons b show ?case by (simp add: s Let_def del: holds_i4.simps tile_i4_Bslice.simps)
qed simp

lemma load_i4_bb_shape:
  "load_i4_bb e an d blob ss off acc st = (Some fs, st') \<Longrightarrow> drop off blob = concat (map (i4_blob B N) ss) \<Longrightarrow>
     \<forall>s \<in> set ss. i4_ok s \<Longrightarrow>
     \<exists>gs. fs = acc @ gs \<and> list_all2 (\<lambda>s f. bf_cpu (fst f) \<noteq> 0 \<and> snd f = i4_blob B N s) ss gs"
proof (induction ss arbitrary: off acc st)
  case (Cons s ss)
  obtain n0 Nc k0 Kp where s: "s = (n0, Nc, k0, Kp)" by (cases s)
  obtain b st1 where k: "k_create e an (Kp * Nc div 2) 0x403 d st = (b, st1)" by (cases "k_create e an (Kp * Nc div 2) 0x403 d st")
  with Cons.prems s have b: "bf_cpu b \<noteq> 0" by (auto split: if_splits)
  have ok: "i4_ok s" using Cons.prems(3) by simp
  have l: "length (i4_blob B N s) = bf_size b" using i4_blob_length [OF ok] k_create_shape(1) [OF k b] by (simp add: s)
  have t: "take (bf_size b) (drop off blob) = i4_blob B N s" using Cons.prems(2) l by simp
  have "drop (bf_size b) (drop off blob) = concat (map (i4_blob B N) ss)" unfolding Cons.prems(2) using l by simp
  then have d: "drop (off + bf_size b) blob = concat (map (i4_blob B N) ss)" by (simp add: add.commute)
  have "load_i4_bb e an d blob ss (off + bf_size b) (acc @ [(b, i4_blob B N s)]) st1 = (Some fs, st')"
    using Cons.prems(1) k b t unfolding s by simp
  from Cons.IH [OF this d] Cons.prems(3) obtain gs where "fs = (acc @ [(b, i4_blob B N s)]) @ gs"
    "list_all2 (\<lambda>s f. bf_cpu (fst f) \<noteq> 0 \<and> snd f = i4_blob B N s) ss gs" by auto
  with b show ?case by (intro exI [of _ "(b, i4_blob B N s) # gs"]) auto
qed auto

text \<open>Packed on the device, packed by groups, or loaded from a file: every buffer holds its slice of \<open>B\<close>.\<close>

theorem i4_resident_weight_holds_codes:
  assumes "\<And>i n. length (mem i n) = n" "0 \<le> ic_fd c" "geom4_ok (nmax_of c) K N" "0 < K" "0 < N"
    and "K < 2147483648" "N < 2147483648" "i4_bytes (group_slices G (nmax_of c) K N) < 9223372036854775808"
  shows "ork_i4_mm_pack v an mem c K N B st = (Some w, st') \<Longrightarrow>
      list_all2 (\<lambda>s f. bf_cpu (fst f) \<noteq> 0 \<and> holds_i4 B N s (snd f)) (w_slices ORK_I4_KS (nmax_of c) K N) (xw_Bb w)"
    and "0 < G \<Longrightarrow> ork_i4_mm_pack_grouped v an mem c K N B G st = (Some w, st') \<Longrightarrow>
      list_all2 (\<lambda>s f. bf_cpu (fst f) \<noteq> 0 \<and> holds_i4 B N s (snd f)) (group_slices G (nmax_of c) K N) (xw_Bb w)"
    and "length out = 4096 + i4_bytes (w_slices ORK_I4_KS (nmax_of c) K N) \<Longrightarrow>
      ork_i4_w_dump_cpu det (Some (ic_soc c)) K N (Some B) (Some out) (length out) = (length out, Some blob) \<Longrightarrow>
      ork_i4_mm_load det v an c K N (Some blob) (length out) st = (Some w, st') \<Longrightarrow>
      list_all2 (\<lambda>s f. bf_cpu (fst f) \<noteq> 0 \<and> holds_i4 B N s (snd f)) (w_slices ORK_I4_KS (nmax_of c) K N) (xw_Bb w)"
proof -
  have m: "K mod 32 = 0" "N mod 64 = 0" using assms(3) by (simp_all add: geom4_ok_def mod_eq_0_iff_dvd)
  have g: "geom4_ok (nat (soc_nmax (ic_soc c))) K N" using assms(3) by (simp add: nmax_of_def)
  have ok: "\<forall>s \<in> set (w_slices ORK_I4_KS (nmax_of c) K N). i4_ok s" using geom4_slices [OF assms(3) _ KS_props] by blast
  show "list_all2 (\<lambda>s f. bf_cpu (fst f) \<noteq> 0 \<and> holds_i4 B N s (snd f)) (w_slices ORK_I4_KS (nmax_of c) K N) (xw_Bb w)"
    if "ork_i4_mm_pack v an mem c K N B st = (Some w, st')"
    using that m assms(2) fill_i4_hold [OF _ assms(1) ok] by (auto simp: ork_i4_mm_pack_def Let_def split: prod.splits)
  show "list_all2 (\<lambda>s f. bf_cpu (fst f) \<noteq> 0 \<and> holds_i4 B N s (snd f)) (group_slices G (nmax_of c) K N) (xw_Bb w)"
    if G: "0 < G" and p: "ork_i4_mm_pack_grouped v an mem c K N B G st = (Some w, st')"
  proof -
    have d: "32 dvd G" "G dvd K" using p assms(2) m by (auto simp: ork_i4_mm_pack_grouped_def mod_eq_0_iff_dvd split: if_splits)
    have okg: "\<forall>s \<in> set (group_slices G (nmax_of c) K N). i4_ok s"
      unfolding group_slices_eq [OF G d(2)] using geom4_slices [OF assms(3) _ G d(1)] by blast
    let ?ss = "group_slices G (nmax_of c) K N" and ?d = "ork_dom (ie_dom v) (ic_pack_dom c)"
    obtain own st1 where k: "k_create (ie_dom v) an (i4_bytes ?ss) 0x403 ?d st = (own, st1)"
      by (cases "k_create (ie_dom v) an (i4_bytes ?ss) 0x403 ?d st")
    show ?thesis
    proof (cases "bf_cpu own = 0")
      case True
      with p k G m assms(2) fill_i4_hold [OF _ assms(1) okg] show ?thesis
        by (auto simp: ork_i4_mm_pack_grouped_def Let_def new_i4_def split: prod.splits if_splits)
    next
      case False
      have "i4_bytes ?ss \<le> length (mem (ks_n st) (bf_size own))"
        using k_create_shape(1) [OF k False] pgup_ge [OF assms(8)] assms(1) by simp
      from i4_views_hold [OF okg _ False, of 0] this p k False m assms(2) show ?thesis
        by (auto simp: ork_i4_mm_pack_grouped_def Let_def new_i4_def split: if_splits)
    qed
  qed
  show "list_all2 (\<lambda>s f. bf_cpu (fst f) \<noteq> 0 \<and> holds_i4 B N s (snd f)) (w_slices ORK_I4_KS (nmax_of c) K N) (xw_Bb w)"
    if d: "length out = 4096 + i4_bytes (w_slices ORK_I4_KS (nmax_of c) K N)"
      "ork_i4_w_dump_cpu det (Some (ic_soc c)) K N (Some B) (Some out) (length out) = (length out, Some blob)"
      "ork_i4_mm_load det v an c K N (Some blob) (length out) st = (Some w, st')"
  proof -
    have blob: "drop 4096 blob = concat (map (i4_blob B N) (w_slices ORK_I4_KS (nmax_of c) K N))"
      using i4_dump_spec(2) [OF g assms(4,5), of out det B] d(1,2) by (auto simp: nmax_of_def i4_body_def hdr_page_length)
    obtain bb st1 where bb: "load_i4_bb (ie_dom v) an (ork_dom (ie_dom v) (ic_pack_dom c)) (drop 4096 blob)
        (w_slices ORK_I4_KS (nmax_of c) K N) 0 [] st = (Some bb, st1)" "xw_Bb w = bb"
      using d(3) m assms(2) by (auto simp: ork_i4_mm_load_def Let_def new_i4_def ORK_PACK_HDR_BYTES_def split: if_splits prod.splits)
    from load_i4_bb_shape [OF bb(1) _ ok, of B N] blob obtain gs where
      "bb = gs" "list_all2 (\<lambda>s f. bf_cpu (fst f) \<noteq> 0 \<and> snd f = i4_blob B N s) (w_slices ORK_I4_KS (nmax_of c) K N) gs" by auto
    then show ?thesis using ok i4_blob_holds bb(2) by (auto elim!: list.rel_mono_strong)
  qed
qed


subsection \<open>Activation rows\<close>

lemma nib_eqI:
  assumes "length x = length y" "\<And>j. j < 2 * length y \<Longrightarrow> get_nib x j = get_nib y j"
  shows "x = y"
proof (rule nth_equalityI [OF assms(1)])
  fix i assume "i < length x"
  then have "get_nib x (2 * i) = get_nib y (2 * i)" "get_nib x (2 * i + 1) = get_nib y (2 * i + 1)" using assms by auto
  then have n: "x ! i AND 0xf = y ! i AND 0xf" "drop_bit 4 (x ! i) AND 0xf = drop_bit 4 (y ! i) AND 0xf"
    by (simp_all add: get_nib_def)
  show "x ! i = y ! i"
  proof (rule bit_eqI)
    fix k :: nat assume "possible_bit TYPE(byte) k"
    then have k: "k < 8" by simp
    show "bit (x ! i) k = bit (y ! i) k"
    proof (cases "k < 4")
      case True
      with arg_cong [OF n(1), of "\<lambda>w. bit w k"] k show ?thesis unfolding f_mask by (simp add: bit_simps)
    next
      case False
      then have "k - 4 < 8" "k - 4 < 4" using k by simp_all
      with False arg_cong [OF n(2), of "\<lambda>w. bit w (k - 4)"] show ?thesis unfolding f_mask by (simp add: bit_simps)
    qed
  qed
qed

definition aslice_byte :: "byte list \<Rightarrow> nat \<Rightarrow> nat \<Rightarrow> byte" where
  "aslice_byte A k0 i = (A ! (k0 + 2 * i) AND 0xf) OR push_bit 4 (A ! (k0 + 2 * i + 1) AND 0xf)"

lemma upt_blocks: "concat (map (\<lambda>t. map (\<lambda>i. f (t * c + i)) [0..<c]) [0..<n]) = map f [0..<n * c]" for c :: nat
proof (induction n)
  case (Suc n)
  have "[0..<Suc n * c] = [0..<n * c] @ [n * c..<n * c + c]" using upt_add_eq_append [of 0 "n * c" c] by (simp add: add.commute)
  moreover have "map (\<lambda>i. f (n * c + i)) [0..<c] = map f [n * c..<n * c + c]" by (simp add: map_add_upt [symmetric] comp_def add.commute)
  ultimately show ?case using Suc by simp
qed simp

lemma aslice_block_bytes:
  assumes "k0 + j + 16 \<le> length A" "even j"
  shows "aslice_block (take 16 (drop (k0 + j) A)) = map (aslice_byte A k0) [j div 2..<j div 2 + 8]"
proof (rule nth_equalityI)
  let ?v = "take 16 (drop (k0 + j) A)" and ?m = "map (\<lambda>x. x AND 0xf) (take 16 (drop (k0 + j) A))"
  have l: "length ?v = 16" using assms(1) by simp
  have u: "(?m @ ?m) ! i = A ! (k0 + j + i) AND 0xf" if "i < 16" for i using that l by (simp add: nth_append)
  show "length (aslice_block ?v) = length (map (aslice_byte A k0) [j div 2..<j div 2 + 8])"
    using l by (simp add: aslice_block_def vuzp_val0_def vuzp_val1_def Let_def)
  fix i assume "i < length (aslice_block ?v)"
  then have i: "i < 8" using l by (simp add: aslice_block_def vuzp_val0_def vuzp_val1_def Let_def)
  then have "aslice_block ?v ! i = (?m @ ?m) ! (2 * i) OR push_bit 4 ((?m @ ?m) ! (2 * i + 1))"
    using l by (simp add: aslice_block_def vuzp_val0_def vuzp_val1_def Let_def)
  also have "\<dots> = (A ! (k0 + j + 2 * i) AND 0xf) OR push_bit 4 (A ! (k0 + j + (2 * i + 1)) AND 0xf)" using u i by simp
  also have "\<dots> = aslice_byte A k0 (j div 2 + i)" using assms(2) by (simp add: aslice_byte_def add.assoc distrib_left)
  finally show "aslice_block ?v ! i = map (aslice_byte A k0) [j div 2..<j div 2 + 8] ! i" using i by simp
qed

lemma aslice_neon:
  "k0 + m * 16 \<le> length A \<Longrightarrow> m * 8 \<le> length dst \<Longrightarrow>
     fold (\<lambda>b d. place (b * 16 div 2) (aslice_block (take 16 (drop (k0 + b * 16) A))) d) [0..<m] dst
       = map (aslice_byte A k0) [0..<m * 8] @ drop (m * 8) dst"
proof (induction m)
  case (Suc m)
  have b: "aslice_block (take 16 (drop (k0 + m * 16) A)) = map (aslice_byte A k0) [m * 8..<m * 8 + 8]"
    using aslice_block_bytes [of k0 "m * 16" A] Suc.prems by (simp add: mult.commute [of 8])
  have "map (aslice_byte A k0) [0..<Suc m * 8] = map (aslice_byte A k0) [0..<m * 8] @ map (aslice_byte A k0) [m * 8..<m * 8 + 8]"
    using upt_add_eq_append [of 0 "m * 8" 8] by (simp add: add.commute)
  with Suc b show ?case by (simp add: place_def add.commute)
qed simp

text \<open>The vector loop and the scalar loop fill a row with the same bytes.\<close>

theorem tile_Aslice_neon_scalar:
  assumes "32 dvd Kp" "k0 + Kp \<le> length A" "Kp div 2 \<le> length dst"
  shows "orki_i4_tile_Aslice True A k0 Kp dst = orki_i4_tile_Aslice False A k0 Kp dst"
proof (rule nib_eqI)
  obtain q where q: "Kp = 32 * q" using assms(1) by (elim dvdE)
  have neon: "orki_i4_tile_Aslice True A k0 Kp dst = map (aslice_byte A k0) [0..<Kp div 2] @ drop (Kp div 2) dst"
    using aslice_neon [of k0 "Kp div 16" A dst] assms by (simp add: orki_i4_tile_Aslice_def q)
  let ?ws = "map (\<lambda>i. nib_at i (A ! (k0 + i) AND 0xf)) [0..<Kp]"
  have "concat (map (\<lambda>kt. map (\<lambda>kk. nib_at (kt * 32 + kk) (A ! (k0 + kt * 32 + kk) AND 0xf)) [0..<32]) [0..<Kp div 32]) = ?ws"
    using upt_blocks [of "\<lambda>i. nib_at i (A ! (k0 + i) AND 0xf)" 32 "Kp div 32"] by (simp add: q mult.commute add.assoc)
  then have scalar: "orki_i4_tile_Aslice False A k0 Kp dst = or_bytes ?ws (clear_front (Kp div 2) dst)"
    by (simp add: orki_i4_tile_Aslice_def)
  show "length (orki_i4_tile_Aslice True A k0 Kp dst) = length (orki_i4_tile_Aslice False A k0 Kp dst)"
    using assms(3) by (simp add: neon scalar length_clear_front)
  fix j assume "j < 2 * length (orki_i4_tile_Aslice False A k0 Kp dst)"
  then have j: "j div 2 < length dst" using assms(3) by (simp add: scalar length_clear_front less_mult_imp_div_less mult.commute)
  have s: "get_nib (orki_i4_tile_Aslice False A k0 Kp dst) j
      = (if j < Kp then get_nib (clear_front (Kp div 2) dst) j OR (A ! (k0 + j) AND 0xf) else get_nib (clear_front (Kp div 2) dst) j)"
    using or_nibs_agree [where F = "\<lambda>i. A ! (k0 + i) AND 0xf" and ix = "\<lambda>i. i" and xs = "[0..<Kp]" and v = "\<lambda>i. A ! (k0 + i) AND 0xf"
        and b = "clear_front (Kp div 2) dst"] j assms(3)
    by (simp add: scalar length_clear_front and.assoc)
  show "get_nib (orki_i4_tile_Aslice True A k0 Kp dst) j = get_nib (orki_i4_tile_Aslice False A k0 Kp dst) j"
  proof (cases "j < Kp")
    case True
    then have "j div 2 < Kp div 2" "j < Kp div 2 * 2" by (simp_all add: q less_mult_imp_div_less mult.commute)
    moreover have "get_nib (map (aslice_byte A k0) [0..<Kp div 2] @ drop (Kp div 2) dst) j = A ! (k0 + j) AND 0xf"
    proof (cases "odd j")
      case o: True
      then have "k0 + 2 * (j div 2) + 1 = k0 + j" by simp
      then have "aslice_byte A k0 (j div 2) = (A ! (k0 + 2 * (j div 2)) AND 0xf) OR push_bit 4 (A ! (k0 + j) AND 0xf)"
        by (simp only: aslice_byte_def)
      with o calculation(1) nib_pair(2) show ?thesis by (simp add: get_nib_def nth_append del: drop_bit_or)
    next
      case False
      then have "k0 + 2 * (j div 2) = k0 + j" by simp
      then have "aslice_byte A k0 (j div 2) = (A ! (k0 + j) AND 0xf) OR push_bit 4 (A ! (k0 + 2 * (j div 2) + 1) AND 0xf)"
        by (simp only: aslice_byte_def)
      with False calculation(1) nib_pair(1) show ?thesis by (simp add: get_nib_def nth_append)
    qed
    ultimately show ?thesis unfolding s neon using True get_nib_clear [of j "Kp div 2" dst] by simp
  next
    case False
    then have "Kp div 2 \<le> j div 2" by (simp add: div_le_mono)
    with False show ?thesis unfolding s using assms(3) by (simp add: neon get_nib_def clear_front_def nth_append)
  qed
qed

text \<open>The probe's tilers, with the halves in order, are the tilers of the datapath.\<close>

lemma nib_at_plain: "nib_at' False idx v = nib_at idx v"
  by (simp add: nib_at'_def nib_at_def)

theorem probe_tilers:
  "orki_i4_tile_A A M K False dst = tile_i4_Aslice_mm A M K 0 K dst"
  "orki_i4_tile_B B K N False dst = tile_i4_Bslice B N (0, N, 0, K) dst"
  by (simp_all add: orki_i4_tile_A_def tile_i4_Aslice_mm_def orki_i4_tile_B_def nib_at_plain)

end
