(* ===== verification/Spec2Isabelle.thy ===== *)
theory Spec2Isabelle
  imports Slice Slice_F16 Soc F16_Envelope Run_Loop Pool Orkd_Wire Orkd_State Orkd_Handlers
    Orkd_Loop Orkd_Frame Orkd_Inv Orkd_Queue
    Orkd_Client Orkd_Client_Ops Orkd_Rpc Orkd_Ring Pack_Header Mode Dma_Buf Dma_Table I8_Tile I8_Weight I8_Update Cpu_Gemm I8_Sliced
    Transpose Spine I4_Tile I4_Weight
begin

text \<open>
  Verification development for ork-driver.
\<close>

end
